(* ===== verification/Prelude.thy ===== *)
theory Prelude
  imports Main "HOL-Library.Word" "HOL-Library.Monad_Syntax"
begin

text \<open>
  Shared vocabulary of the development: the machine types of the C sources (the build targets
  x86, so integers are little-endian), the error codes of
  \<^verbatim>\<open>lwip/err.h\<close>, little-endian encodings of words in byte buffers, C strings as
  NUL-terminated byte buffers, and the abstraction of singly linked structures over a store.

  Conventions used by every component:
  \<^item> a pointer is an \<open>'a option\<close> over addresses, \<open>None\<close> being NULL;
  \<^item> an operation that can fail returns an \<open>option\<close>: \<open>None\<close> means that the
    program stops there, because an \<^verbatim>\<open>LWIP_ASSERT\<close> fails (the build leaves
    assertions on, and \<^verbatim>\<open>LWIP_PLATFORM_ASSERT\<close> calls \<^verbatim>\<open>abort\<close>) or because it
    reads or writes through a NULL or dangling pointer. A theorem that concludes
    \<open>f x = Some y\<close> therefore states that no assertion fails and no invalid access happens.
\<close>

unbundle bit_operations_syntax

named_theorems c_simps \<open>evaluation of C-level helpers\<close>
named_theorems chain_simps \<open>linked structures over a store\<close>

section \<open>Machine types\<close>

type_synonym u8 = "8 word"
type_synonym u16 = "16 word"
type_synonym u32 = "32 word"
type_synonym bytes = "8 word list"

text \<open>Error codes, \<^verbatim>\<open>lwip/src/include/lwip/err.h\<close>.\<close>

datatype err_t =
    ERR_OK | ERR_MEM | ERR_BUF | ERR_TIMEOUT | ERR_RTE | ERR_INPROGRESS | ERR_VAL
  | ERR_WOULDBLOCK | ERR_USE | ERR_ALREADY | ERR_ISCONN | ERR_CONN | ERR_IF | ERR_ABRT
  | ERR_RST | ERR_CLSD | ERR_ARG

text \<open>An assertion of the source: the program goes on only if it holds.\<close>

definition lwip_assert :: "bool \<Rightarrow> unit option" where
  "lwip_assert b = (if b then Some () else None)"

lemma lwip_assert_True [simp]: "lwip_assert True = Some ()"
  by (simp add: lwip_assert_def)

lemma lwip_assert_False [simp]: "lwip_assert False = None"
  by (simp add: lwip_assert_def)

lemma lwip_assert_bind_Some [simp]:
  "Option.bind (lwip_assert b) f = Some r \<longleftrightarrow> b \<and> f () = Some r"
  by (simp add: lwip_assert_def)

section \<open>Little-endian words in byte buffers\<close>

definition le16_bytes :: "u16 \<Rightarrow> bytes" where
  "le16_bytes w = [ucast w, ucast (drop_bit 8 w)]"

definition le16_of_bytes :: "u8 \<Rightarrow> u8 \<Rightarrow> u16" where
  "le16_of_bytes a b = ucast a OR push_bit 8 (ucast b)"

definition le32_bytes :: "u32 \<Rightarrow> bytes" where
  "le32_bytes w = [ucast w, ucast (drop_bit 8 w), ucast (drop_bit 16 w), ucast (drop_bit 24 w)]"

definition le32_of_bytes :: "u8 \<Rightarrow> u8 \<Rightarrow> u8 \<Rightarrow> u8 \<Rightarrow> u32" where
  "le32_of_bytes a b c d =
     ucast a OR push_bit 8 (ucast b) OR push_bit 16 (ucast c) OR push_bit 24 (ucast d)"

lemma le32_of_bytes_le32_bytes [simp]:
  "le32_of_bytes (ucast w) (ucast (drop_bit 8 w)) (ucast (drop_bit 16 w)) (ucast (drop_bit 24 w)) = w"
proof (rule bit_word_eqI)
  fix n assume "n < LENGTH(32)"
  then consider "n < 8" | "8 \<le> n" "n < 16" | "16 \<le> n" "n < 24" | "24 \<le> n" "n < 32"
    by fastforce
  then show "bit (le32_of_bytes (ucast w) (ucast (drop_bit 8 w)) (ucast (drop_bit 16 w))
      (ucast (drop_bit 24 w))) n = bit w n"
    by cases (auto simp: le32_of_bytes_def bit_simps)
qed

lemma le32_bytes_inj:
  assumes "le32_bytes a = le32_bytes b"
  shows "a = b"
proof -
  have "a = le32_of_bytes (ucast a) (ucast (drop_bit 8 a)) (ucast (drop_bit 16 a)) (ucast (drop_bit 24 a))"
    by simp
  also have "\<dots> = le32_of_bytes (ucast b) (ucast (drop_bit 8 b)) (ucast (drop_bit 16 b)) (ucast (drop_bit 24 b))"
    using assms by (simp only: le32_bytes_def list.inject)
  finally show ?thesis by simp
qed

lemma length_le32_bytes [simp]: "length (le32_bytes w) = 4"
  by (simp add: le32_bytes_def)

section \<open>Machine words as natural numbers\<close>

lemma unat_u8_less [simp]: "unat (w :: u8) < 256"
  using unsigned_less [of w, where ?'a = nat] by simp

lemma unat_u16_less [simp]: "unat (w :: u16) < 65536"
  using unsigned_less [of w, where ?'a = nat] by simp

lemma unat_u32_less [simp]: "unat (w :: u32) < 4294967296"
  using unsigned_less [of w, where ?'a = nat] by simp

lemma unat_of_nat_u8: "n < 256 \<Longrightarrow> unat (of_nat n :: u8) = n"
  by (simp add: unat_of_nat)

lemma unat_of_nat_u16: "n < 65536 \<Longrightarrow> unat (of_nat n :: u16) = n"
  by (simp add: unat_of_nat)

lemma unat_of_nat_u32: "n < 4294967296 \<Longrightarrow> unat (of_nat n :: u32) = n"
  by (simp add: unat_of_nat)

lemma unat_min: "unat (min a b) = min (unat a) (unat b)" for a b :: "'a::len word"
  by (simp add: min_def word_le_nat_alt)

lemma unat_minus: "unat b \<le> unat a \<Longrightarrow> unat (a - b) = unat a - unat b" for a b :: "'a::len word"
  by (simp add: unat_sub word_le_nat_alt)

lemma unat_add_u16: "unat a + unat b < 65536 \<Longrightarrow> unat (a + b) = unat a + unat b" for a b :: u16
  by (simp add: unat_add_lem [symmetric])

lemma unat_add_u32: "unat a + unat b < 4294967296 \<Longrightarrow> unat (a + b) = unat a + unat b" for a b :: u32
  by (simp add: unat_add_lem [symmetric])

section \<open>Overwriting a part of a list\<close>

lemma overwrite_take_drop:
  assumes "i + length ys \<le> length xs"
  shows "take (i + length ys) (take i xs @ ys @ drop (i + length ys) xs) = take i xs @ ys"
    and "drop (i + length ys + k) (take i xs @ ys @ drop (i + length ys) xs) = drop (i + length ys + k) xs"
  using assms by (simp_all add: add.commute add.left_commute)

end
