(* ===== verification/CLib.thy ===== *)
theory CLib
  imports Prelude "HOL-Library.Sublist"
begin

text \<open>
  The parts of the C library that the sources call: character classes, \<^verbatim>\<open>strtol\<close>,
  \<^verbatim>\<open>atoi\<close>, \<^verbatim>\<open>strtok\<close>, the \<^verbatim>\<open>%0wx\<close> conversion of \<^verbatim>\<open>printf\<close> and the
  \<^verbatim>\<open>%08x\<close> conversion of \<^verbatim>\<open>sscanf\<close>. Here a C string is the list of its bytes
  without the terminator (all bytes non-zero).
\<close>

section \<open>Characters\<close>

text \<open>The bytes of a string literal.\<close>

definition str :: "string \<Rightarrow> bytes" where
  "str s = map of_char s"

lemma str_simps [simp]: "str [] = []" "str (c # s) = of_char c # str s"
  by (simp_all add: str_def)

definition c_isspace :: "u8 \<Rightarrow> bool" where
  "c_isspace c \<longleftrightarrow> c = 32 \<or> (9 \<le> c \<and> c \<le> 13)"

definition c_isprint :: "u8 \<Rightarrow> bool" where
  "c_isprint c \<longleftrightarrow> 0x20 \<le> c \<and> c \<le> 0x7e"

text \<open>The value of an alphanumeric character as a digit.\<close>

definition digit_val :: "u8 \<Rightarrow> nat option" where
  "digit_val c =
     (if 48 \<le> c \<and> c \<le> 57 then Some (unat c - 48)
      else if 97 \<le> c \<and> c \<le> 122 then Some (unat c - 87)
      else if 65 \<le> c \<and> c \<le> 90 then Some (unat c - 55)
      else None)"

definition is_digit_in :: "nat \<Rightarrow> u8 \<Rightarrow> bool" where
  "is_digit_in base c = (case digit_val c of Some d \<Rightarrow> d < base | None \<Rightarrow> False)"

fun digits_value :: "nat \<Rightarrow> nat \<Rightarrow> bytes \<Rightarrow> nat" where
  "digits_value base acc [] = acc"
| "digits_value base acc (c # cs) =
     digits_value base (acc * base + (case digit_val c of Some d \<Rightarrow> d | None \<Rightarrow> 0)) cs"

section \<open>strtol and atoi\<close>

definition LONG_MAX :: int where "LONG_MAX = 2 ^ 63 - 1"
definition LONG_MIN :: int where "LONG_MIN = - (2 ^ 63)"

text \<open>The optional sign.\<close>

definition strtol_sign :: "bytes \<Rightarrow> bool \<times> bytes" where
  "strtol_sign s =
     (case s of [] \<Rightarrow> (False, [])
      | c # cs \<Rightarrow> if c = 45 then (True, cs) else if c = 43 then (False, cs) else (False, s))"

text \<open>
  The base: \<^verbatim>\<open>0x\<close> followed by a hexadecimal digit selects 16 when the base is 0 or 16, a
  leading \<^verbatim>\<open>0\<close> selects 8 when the base is 0.
\<close>

definition strtol_base :: "nat \<Rightarrow> bytes \<Rightarrow> nat \<times> bytes" where
  "strtol_base base s =
     (if (base = 0 \<or> base = 16) \<and> length s \<ge> 3 \<and> s ! 0 = 48 \<and> (s ! 1 = 120 \<or> s ! 1 = 88) \<and>
         is_digit_in 16 (s ! 2) then (16, drop 2 s)
      else if base = 0 then (if s \<noteq> [] \<and> s ! 0 = 48 then 8 else 10, s)
      else (base, s))"

definition c_strtol :: "bytes \<Rightarrow> nat \<Rightarrow> int" where
  "c_strtol s base =
     (let (neg, s1) = strtol_sign (dropWhile c_isspace s);
          (b, s2) = strtol_base base s1;
          v = int (digits_value b 0 (takeWhile (is_digit_in b) s2));
          v = (if neg then - v else v)
      in max LONG_MIN (min LONG_MAX v))"

text \<open>\<^verbatim>\<open>atoi(s)\<close> is \<^verbatim>\<open>(int) strtol(s, NULL, 10)\<close>; the result as a 32-bit word.\<close>

definition c_atoi :: "bytes \<Rightarrow> u32" where
  "c_atoi s = word_of_int (c_strtol s 10)"

section \<open>strtok\<close>

text \<open>
  The tokens that repeated calls of \<^verbatim>\<open>strtok\<close> with a one-character delimiter return:
  the maximal non-empty runs of other characters.
\<close>

function strtok_tokens :: "u8 \<Rightarrow> bytes \<Rightarrow> bytes list" where
  "strtok_tokens d s =
     (let s1 = dropWhile (\<lambda>c. c = d) s
      in if s1 = [] then []
         else takeWhile (\<lambda>c. c \<noteq> d) s1 # strtok_tokens d (dropWhile (\<lambda>c. c \<noteq> d) s1))"
  by pat_completeness auto
termination
proof (relation "measure (length \<circ> snd)", simp)
  fix d :: u8 and s s1 :: bytes
  assume s1: "s1 = dropWhile (\<lambda>c. c = d) s" and ne: "s1 \<noteq> []"
  from ne obtain c cs where c: "s1 = c # cs" by (cases s1) simp_all
  have "c \<noteq> d" using hd_dropWhile [of "\<lambda>c. c = d" s] ne c s1 by (metis list.sel(1))
  then have "dropWhile (\<lambda>c. c \<noteq> d) s1 = dropWhile (\<lambda>c. c \<noteq> d) cs" by (simp add: c)
  then have "length (dropWhile (\<lambda>c. c \<noteq> d) s1) < length s1"
    using length_dropWhile_le [of "\<lambda>c. c \<noteq> d" cs] by (simp add: c)
  also have "\<dots> \<le> length s" unfolding s1 by (rule length_dropWhile_le)
  finally show "((d, dropWhile (\<lambda>c. c \<noteq> d) s1), d, s) \<in> measure (length \<circ> snd)" by simp
qed

declare strtok_tokens.simps [simp del]

section \<open>Hexadecimal output and input\<close>

definition hex_char :: "nat \<Rightarrow> u8" where
  "hex_char d = (if d < 10 then word_of_nat (48 + d) else word_of_nat (87 + d))"

fun hex_digits :: "nat \<Rightarrow> bytes" where
  "hex_digits n = (if n < 16 then [hex_char n] else hex_digits (n div 16) @ [hex_char (n mod 16)])"

declare hex_digits.simps [simp del]

text \<open>\<^verbatim>\<open>printf("%0wx", n)\<close>.\<close>

definition fmt_0x :: "nat \<Rightarrow> nat \<Rightarrow> bytes" where
  "fmt_0x w n = (let ds = hex_digits n in replicate (w - length ds) 48 @ ds)"

text \<open>
  \<^verbatim>\<open>sscanf(s, "%08x")\<close>: blanks, then an unsigned hexadecimal number of at most 8
  characters, with an optional \<^verbatim>\<open>0x\<close> prefix counted in the width; the value and the rest
  of the input, \<open>None\<close> when there is no number.
\<close>

definition scan_08x :: "bytes \<Rightarrow> (u32 \<times> bytes) option" where
  "scan_08x s =
     (let s1 = dropWhile c_isspace s;
          (w, s2) = (if length s1 \<ge> 2 \<and> s1 ! 0 = 48 \<and> (s1 ! 1 = 120 \<or> s1 ! 1 = 88)
                     then (6, drop 2 s1) else (8, s1));
          ds = takeWhile (is_digit_in 16) (take w s2)
      in if s1 = [] \<or> \<not> is_digit_in 16 (hd s1) then None
         else Some (word_of_nat (digits_value 16 0 ds), drop (length ds) s2))"

section \<open>Lemmas on hexadecimal conversion\<close>

lemma unat_hex_char: "d < 16 \<Longrightarrow> unat (hex_char d) = (if d < 10 then 48 + d else 87 + d)"
  by (auto simp: hex_char_def unat_word_ariths unat_of_nat)

lemma digit_val_hex_char: "d < 16 \<Longrightarrow> digit_val (hex_char d) = Some d"
  by (simp add: digit_val_def word_le_nat_alt unat_hex_char)

lemma is_digit_48 [simp]: "is_digit_in 16 48"
  by (simp add: is_digit_in_def digit_val_def)

lemma is_digit_hex_char [simp]: "d < 16 \<Longrightarrow> is_digit_in 16 (hex_char d)"
  by (simp add: is_digit_in_def digit_val_hex_char)

lemma hex_char_0 [simp]: "hex_char 0 = 48"
  by (simp add: hex_char_def)

lemma digits_value_append:
  "digits_value b acc (xs @ ys) = digits_value b (digits_value b acc xs) ys"
  by (induction xs arbitrary: acc) auto

lemma digits_value_zeros [simp]: "digits_value 16 0 (replicate n 48) = 0"
  by (induction n) (auto simp: digit_val_def)

lemma hex_digits_value: "digits_value 16 0 (hex_digits n) = n"
proof (induction n rule: hex_digits.induct)
  case (1 n)
  then show ?case
    by (subst hex_digits.simps) (auto simp: digits_value_append digit_val_hex_char)
qed

lemma hex_digits_hex: "c \<in> set (hex_digits n) \<Longrightarrow> is_digit_in 16 c"
proof (induction n rule: hex_digits.induct)
  case (1 n)
  then show ?case by (subst (asm) (2) hex_digits.simps) (auto split: if_splits)
qed

lemma hex_digits_nonempty [simp]: "hex_digits n \<noteq> []"
  by (subst hex_digits.simps) simp

lemma length_hex_digits: "n < 16 ^ Suc k \<Longrightarrow> length (hex_digits n) \<le> Suc k"
proof (induction k arbitrary: n)
  case (Suc k)
  then have "n div 16 < 16 ^ Suc k" by (simp add: less_mult_imp_div_less mult.commute)
  with Suc.IH [of "n div 16"] show ?case by (subst hex_digits.simps) simp
qed (subst hex_digits.simps, simp)

lemma fmt_0x_value: "digits_value 16 0 (fmt_0x w n) = n"
  by (simp add: fmt_0x_def Let_def digits_value_append hex_digits_value)

lemma fmt_0x_hex: "c \<in> set (fmt_0x w n) \<Longrightarrow> is_digit_in 16 c"
  by (auto simp: fmt_0x_def Let_def intro: hex_digits_hex)

lemma length_fmt_0x: "0 < w \<Longrightarrow> n < 16 ^ w \<Longrightarrow> length (fmt_0x w n) = w"
  using length_hex_digits [of n "w - 1"] by (simp add: fmt_0x_def Let_def)

lemma is_hex_not_space: "is_digit_in 16 c \<Longrightarrow> \<not> c_isspace c"
  by (auto simp: is_digit_in_def digit_val_def c_isspace_def word_le_nat_alt split: if_splits)

lemma is_hex_not_x: "is_digit_in 16 c \<Longrightarrow> c \<noteq> 120 \<and> c \<noteq> 88"
  by (auto simp: is_digit_in_def digit_val_def)

lemma is_hex_nonzero: "is_digit_in 16 c \<Longrightarrow> c \<noteq> 0"
  by (auto simp: is_digit_in_def digit_val_def)

lemma scan_fmt:
  fixes a :: u32
  shows "scan_08x (fmt_0x 8 (unat a) @ rest) = Some (a, rest)"
proof -
  let ?f = "fmt_0x 8 (unat a)"
  have "unat a < 16 ^ 8" using unsigned_less [of a] by simp
  then have len: "length ?f = 8" by (simp add: length_fmt_0x)
  have hex: "\<And>c. c \<in> set ?f \<Longrightarrow> is_digit_in 16 c" by (rule fmt_0x_hex)
  from len obtain c0 c1 r where f: "?f = c0 # c1 # r"
    by (cases ?f; cases "tl ?f") auto
  have d: "dropWhile c_isspace (?f @ rest) = ?f @ rest"
    using hex [of c0] by (simp add: f is_hex_not_space)
  have p: "\<not> ((?f @ rest) ! 1 = 120 \<or> (?f @ rest) ! 1 = 88)"
    using hex [of c1] by (simp add: f is_hex_not_x)
  have t: "takeWhile (is_digit_in 16) (take 8 (?f @ rest)) = ?f"
    using len hex by (simp add: takeWhile_eq_all_conv)
  have w: "(if 2 \<le> length (?f @ rest) \<and> (?f @ rest) ! 0 = 48 \<and>
      ((?f @ rest) ! 1 = 120 \<or> (?f @ rest) ! 1 = 88) then (6, drop 2 (?f @ rest)) else (8, ?f @ rest))
      = (8, ?f @ rest)"
    using p by simp
  have h: "is_digit_in 16 (hd (?f @ rest))" using hex [of c0] by (simp add: f)
  show ?thesis
    unfolding scan_08x_def d Let_def w prod.case t using h len by (auto simp: fmt_0x_value)
qed

section \<open>Lemmas on strtok\<close>

lemma strtok_tokens_Nil [simp]: "strtok_tokens d [] = []"
  by (subst strtok_tokens.simps) simp

lemma strtok_tokens_delim [simp]: "strtok_tokens d (d # s) = strtok_tokens d s"
  by (subst (1 2) strtok_tokens.simps) simp

lemma strtok_tokens_Cons:
  "c \<noteq> d \<Longrightarrow> strtok_tokens d (c # s) =
     (c # takeWhile (\<lambda>c. c \<noteq> d) s) # strtok_tokens d (dropWhile (\<lambda>c. c \<noteq> d) s)"
  by (subst strtok_tokens.simps) (simp add: Let_def)

lemma dropWhile_delim: "dropWhile (\<lambda>c. c \<noteq> d) s = [] \<or> (\<exists>r. dropWhile (\<lambda>c. c \<noteq> d) s = d # r)"
  by (induction s) auto

lemma takeWhile_delim: "d \<notin> set cs \<Longrightarrow> takeWhile (\<lambda>c. c \<noteq> d) (cs @ d # s) = cs"
  by (induction cs) auto

lemma dropWhile_delim_rest: "d \<notin> set cs \<Longrightarrow> dropWhile (\<lambda>c. c \<noteq> d) (cs @ d # s) = d # s"
  by (induction cs) auto

lemma strtok_tokens_token:
  "t \<noteq> [] \<Longrightarrow> d \<notin> set t \<Longrightarrow> strtok_tokens d (t @ d # s) = t # strtok_tokens d s"
  by (cases t) (auto simp: strtok_tokens_Cons takeWhile_delim dropWhile_delim_rest)

lemma strtok_tokens_last: "t \<noteq> [] \<Longrightarrow> d \<notin> set t \<Longrightarrow> strtok_tokens d t = [t]"
proof -
  assume t: "t \<noteq> []" "d \<notin> set t"
  then have w: "takeWhile (\<lambda>c. c \<noteq> d) t = t" "dropWhile (\<lambda>c. c \<noteq> d) t = []" "dropWhile (\<lambda>c. c = d) t = t"
    by (auto simp: takeWhile_eq_all_conv dropWhile_eq_self_iff)
  show ?thesis
    by (subst strtok_tokens.simps) (simp only: Let_def w t if_False strtok_tokens_Nil)
qed

text \<open>There are at most as many tokens as delimiters plus one.\<close>

lemma length_strtok_tokens: "length (strtok_tokens d s) \<le> Suc (count_list s d)"
proof (induction s rule: measure_induct_rule [where f = length])
  case (less s)
  show ?case
  proof (cases s)
    case (Cons c s')
    show ?thesis
    proof (cases "c = d")
      case True
      with Cons less [of s'] show ?thesis by simp
    next
      case False
      let ?r = "dropWhile (\<lambda>c. c \<noteq> d) s'"
      have s': "s' = takeWhile (\<lambda>c. c \<noteq> d) s' @ ?r" by simp
      have tok: "strtok_tokens d s = (c # takeWhile (\<lambda>c. c \<noteq> d) s') # strtok_tokens d ?r"
        using Cons False by (simp add: strtok_tokens_Cons)
      have le: "count_list ?r d \<le> count_list s' d"
        by (subst s', subst count_list_append) simp
      from dropWhile_delim [of d s'] show ?thesis
      proof
        assume "?r = []"
        then have "strtok_tokens d s = [c # takeWhile (\<lambda>c. c \<noteq> d) s']"
          unfolding tok by (simp only: strtok_tokens_Nil)
        then show ?thesis by simp
      next
        assume "\<exists>r. ?r = d # r"
        then obtain r where r: "?r = d # r" by blast
        moreover have "length r < length s"
          using length_dropWhile_le [of "\<lambda>c. c \<noteq> d" s'] r Cons by simp
        ultimately show ?thesis using tok le less [of r] Cons False by simp
      qed
    qed
  qed simp
qed

end
