(* ===== verification/Client.thy ===== *)
theory Client
  imports CLib
begin

text \<open>
  The command-line client: \<^verbatim>\<open>client_dir/client.c\<close> and \<^verbatim>\<open>client_dir/utilities.h\<close>.
  It reads commands from standard input, sends an 8-byte request (two little-endian unsigned
  ints) to the server, receives the dump and prints it. Strings are C strings without their
  terminator; \<open>None\<close> is an invalid memory access. Standard input is the list of the bytes not
  yet read and the server is a parameter: the outcome of \<^verbatim>\<open>send\<close> and \<^verbatim>\<open>recv\<close> for
  each request.
\<close>

section \<open>Constants and data\<close>

definition MAXDATASIZE :: nat where "MAXDATASIZE = 256"

record mem_dump_request =
  starting_address :: u32
  req_length :: u32

text \<open>The command strings that \<^verbatim>\<open>parse_input\<close> returns.\<close>

datatype command = MEM_DUMP | EXIT | INVALID_INPUT

section \<open>utilities.h: split\<close>

text \<open>The counting loop over \<^verbatim>\<open>strstr\<close>, for a delimiter of one character.\<close>

function split_counter :: "u8 \<Rightarrow> bytes \<Rightarrow> nat" where
  "split_counter d ptr =
     (case dropWhile (\<lambda>c. c \<noteq> d) ptr of [] \<Rightarrow> 0 | _ # rest \<Rightarrow> Suc (split_counter d rest))"
  by pat_completeness auto
termination
proof (relation "measure (length \<circ> snd)", simp)
  fix d :: u8 and ptr rest :: bytes and x :: u8
  assume "dropWhile (\<lambda>c. c \<noteq> d) ptr = x # rest"
  then have "length (x # rest) \<le> length ptr" by (metis length_dropWhile_le)
  then show "((d, rest), d, ptr) \<in> measure (length \<circ> snd)" by simp
qed

declare split_counter.simps [simp del]

text \<open>The loop that stores each token at \<^verbatim>\<open>(*parts)[i++]\<close>.\<close>

fun split_fill :: "bytes option list \<Rightarrow> nat \<Rightarrow> bytes list \<Rightarrow> bytes option list option" where
  "split_fill parts i [] = Some parts"
| "split_fill parts i (t # ts) =
     (if i < length parts then split_fill (parts[i := Some t]) (Suc i) ts else None)"

text \<open>
  The array of \<open>counter + 1\<close> pointers starts as NULL (\<^verbatim>\<open>calloc\<close>); the result is the array
  and the returned size, which counts delimiters, not tokens.
\<close>

definition split :: "u8 \<Rightarrow> bytes \<Rightarrow> (bytes option list \<times> nat) option" where
  "split d s = do {
     let counter = split_counter d s;
     parts \<leftarrow> split_fill (replicate (counter + 1) None) 0 (strtok_tokens d s);
     Some (parts, counter + 1)
   }"

text \<open>Using \<^verbatim>\<open>parts[i]\<close> as a string: outside the array or NULL is an invalid access.\<close>

definition part :: "bytes option list \<Rightarrow> nat \<Rightarrow> bytes option" where
  "part parts i = (if i < length parts then parts ! i else None)"

section \<open>client.c: parse_input\<close>

text \<open>The check after the two argument forms.\<close>

definition check_length :: "mem_dump_request \<Rightarrow> command \<times> mem_dump_request" where
  "check_length request =
     (if of_nat MAXDATASIZE < req_length request then (INVALID_INPUT, request)
      else (MEM_DUMP, request))"

definition parse_input :: "bytes \<Rightarrow> (command \<times> mem_dump_request) option" where
  "parse_input input = do {
     (parts, size) \<leftarrow> split 32 input;
     let request = \<lparr>starting_address = - 1, req_length = - 1\<rparr>;
     p0 \<leftarrow> part parts 0;
     if p0 = str ''d'' then
       (if size = 5 then do {
          p1 \<leftarrow> part parts 1;
          if p1 = str ''-a'' then do {
            p2 \<leftarrow> part parts 2;
            let temp = (word_of_int (c_strtol p2 0) :: u32);
            let request = request\<lparr>starting_address := temp\<rparr>;
            p3 \<leftarrow> part parts 3;
            if p3 = str ''-a'' then do {
              p4 \<leftarrow> part parts 4;
              let temp = word_of_int (c_strtol p4 0) - starting_address request;
              Some (if temp \<le> 0 then (INVALID_INPUT, request)
                    else check_length (request\<lparr>req_length := temp\<rparr>))
            }
            else if p3 = str ''-l'' then do {
              p4 \<leftarrow> part parts 4;
              let temp = c_atoi p4;
              Some (if temp \<le> 0 then (INVALID_INPUT, request)
                    else check_length (request\<lparr>req_length := temp\<rparr>))
            }
            else Some (INVALID_INPUT, request)
          }
          else Some (INVALID_INPUT, request)
        }
        else Some (INVALID_INPUT, request))
     else if p0 = str ''exit'' then Some (EXIT, request)
     else Some (INVALID_INPUT, request)
   }"

section \<open>utilities.h: print_mem\<close>

text \<open>One cell of the hexadecimal column and one of the character column.\<close>

definition print_hex_cell :: "mem_dump_request \<Rightarrow> bytes \<Rightarrow> u32 \<Rightarrow> bytes option" where
  "print_hex_cell request data k =
     (if k < req_length request then
        (if unat k < length data then Some (fmt_0x 2 (unat (data ! unat k)) @ str '' '') else None)
      else Some (str ''.. ''))"

definition print_chr_cell :: "mem_dump_request \<Rightarrow> bytes \<Rightarrow> u32 \<Rightarrow> bytes option" where
  "print_chr_cell request data k =
     (if k < req_length request then
        (if unat k < length data then
           Some (if c_isprint (data ! unat k) then [data ! unat k] else str ''.'')
         else None)
      else Some (str ''.''))"

definition print_line :: "mem_dump_request \<Rightarrow> bytes \<Rightarrow> u32 \<Rightarrow> bytes option" where
  "print_line request data i = do {
     hex \<leftarrow> those (map (\<lambda>j. print_hex_cell request data (i + j)) [0, 1, 2, 3, 4, 5, 6, 7]);
     chr \<leftarrow> those (map (\<lambda>j. print_chr_cell request data (i + j)) [0, 1, 2, 3, 4, 5, 6, 7]);
     Some (str ''0x'' @ fmt_0x 8 (unat (starting_address request + i)) @ [9] @
           concat hex @ [9] @ concat chr @ [10])
   }"

text \<open>The outer loop; the counter is an \<^verbatim>\<open>unsigned int\<close> and may wrap for huge lengths.\<close>

partial_function (option) print_mem_loop ::
  "mem_dump_request \<Rightarrow> bytes \<Rightarrow> u32 \<Rightarrow> bytes \<Rightarrow> bytes option" where
  "print_mem_loop request data i out =
     (if i < req_length request then do {
        l \<leftarrow> print_line request data i;
        print_mem_loop request data (i + 8) (out @ l)
      }
      else Some out)"

declare print_mem_loop.simps [code]

definition print_mem :: "mem_dump_request \<Rightarrow> bytes \<Rightarrow> bytes option" where
  "print_mem request data = print_mem_loop request data 0 []"

section \<open>client.c: main\<close>

text \<open>
  What the client does, in order. \<open>Crash\<close> is the access outside of an array or through a NULL pointer
  with which a run may end; what was done before it stays in the trace.
\<close>

datatype client_action =
    Prompt
  | Print bytes
  | Sent bytes
  | Close
  | Perror string
  | Herror string
  | Exit_status int
  | Crash

text \<open>
  \<^verbatim>\<open>fgets(buffer, MAXDATASIZE, stdin)\<close>: at most 255 bytes, up to and including the first
  newline; the bytes stored and the rest of the input.
\<close>

definition fgets :: "bytes \<Rightarrow> bytes \<times> bytes" where
  "fgets inp =
     (let l = takeWhile (\<lambda>c. c \<noteq> 10) inp;
          n = min (MAXDATASIZE - 1) (if length l < length inp then Suc (length l) else length l)
      in (take n inp, drop n inp))"

text \<open>The string in the buffer: its bytes up to the first NUL.\<close>

definition c_str_of :: "bytes \<Rightarrow> bytes" where
  "c_str_of b = takeWhile (\<lambda>c. c \<noteq> 0) b"

text \<open>
  \<^verbatim>\<open>buffer[strlen(buffer) - 1] = 0\<close>: with an empty buffer (end of input) this writes in
  front of the array.
\<close>

definition strip_newline :: "bytes \<Rightarrow> bytes option" where
  "strip_newline b = (let s = c_str_of b in if s = [] then None else Some (butlast s))"

text \<open>
  What the network does with request number \<open>n\<close>: whether \<^verbatim>\<open>send\<close> succeeds, and the bytes
  that \<^verbatim>\<open>recv\<close> delivers (\<open>None\<close> when it fails).
\<close>

type_synonym network = "nat \<Rightarrow> bytes \<Rightarrow> bool \<times> bytes option"

text \<open>The two words of \<^verbatim>\<open>parsed_request\<close> as they go on the wire.\<close>

definition request_bytes :: "mem_dump_request \<Rightarrow> bytes" where
  "request_bytes r = le32_bytes (starting_address r) @ le32_bytes (req_length r)"

text \<open>
  The dump branch: send, clear the buffer, receive at most \<open>length\<close> bytes, print. The first
  component says whether the loop goes on.
\<close>

definition dump_request :: "network \<Rightarrow> nat \<Rightarrow> mem_dump_request \<Rightarrow> bool \<times> client_action list" where
  "dump_request net n request =
     (let (ok, reply) = net n (request_bytes request)
      in if \<not> ok then (False, [Sent (request_bytes request), Close, Perror ''send'', Exit_status 1])
         else case reply of
             None \<Rightarrow> (False, [Sent (request_bytes request), Close, Perror ''recv'', Exit_status 1])
           | Some d \<Rightarrow>
               (let got = take (unat (req_length request)) d;
                    buffer = got @ replicate (MAXDATASIZE - length got) 0
                in case print_mem request buffer of
                     None \<Rightarrow> (False, [Sent (request_bytes request), Crash])
                   | Some lines \<Rightarrow> (True, [Sent (request_bytes request), Print lines])))"

lemma fgets_rest: "inp \<noteq> [] \<Longrightarrow> length (snd (fgets inp)) < length inp"
  by (cases inp) (auto simp: fgets_def MAXDATASIZE_def Let_def)

text \<open>
  The command loop; \<open>n\<close> counts the requests sent so far. At the end of the input \<^verbatim>\<open>fgets\<close> stores
  nothing, and the byte in front of the buffer is overwritten.
\<close>

function client_loop :: "network \<Rightarrow> nat \<Rightarrow> bytes \<Rightarrow> client_action list" where
  "client_loop net n inp =
     Prompt #
     (if inp = [] then [Crash]
      else case strip_newline (fst (fgets inp)) of
          None \<Rightarrow> [Crash]
        | Some line \<Rightarrow>
            (case parse_input line of
               None \<Rightarrow> [Crash]
             | Some (INVALID_INPUT, request) \<Rightarrow>
                 Print (str ''invalid input'' @ [10]) # client_loop net n (snd (fgets inp))
             | Some (EXIT, request) \<Rightarrow> [Close, Exit_status 0]
             | Some (MEM_DUMP, request) \<Rightarrow>
                 (let (go, acts) = dump_request net n request
                  in if go then acts @ client_loop net (Suc n) (snd (fgets inp)) else acts)))"
  by pat_completeness auto
termination
  by (relation "measure (\<lambda>(net, n, inp). length inp)") (auto simp: fgets_rest)

declare client_loop.simps [simp del]

text \<open>
  \<^verbatim>\<open>init_socket\<close>: the resolved host address (\<open>None\<close> when \<^verbatim>\<open>gethostbyname\<close> fails)
  and the outcomes of \<^verbatim>\<open>socket\<close> and \<^verbatim>\<open>connect\<close>; on success the address that is
  connected to, its port in network byte order.
\<close>

definition PORT :: u16 where "PORT = 1202"

record sockaddr_in =
  sin_port :: bytes
  sin_addr :: bytes

definition init_socket :: "bytes option \<Rightarrow> bool \<Rightarrow> (sockaddr_in \<Rightarrow> bool) \<Rightarrow> client_action list + sockaddr_in" where
  "init_socket he socket_ok connect_ok =
     (case he of
        None \<Rightarrow> Inl [Herror ''gethostbyname'', Exit_status 1]
      | Some h_addr \<Rightarrow>
          if \<not> socket_ok then Inl [Perror ''socket'', Exit_status 1]
          else let their_addr = \<lparr>sin_port = rev (le16_bytes PORT), sin_addr = h_addr\<rparr>
               in if \<not> connect_ok their_addr then Inl [Perror ''connect'', Exit_status 1]
                  else Inr their_addr)"

definition client_main ::
  "bytes option \<Rightarrow> bool \<Rightarrow> (sockaddr_in \<Rightarrow> bool) \<Rightarrow> network \<Rightarrow> bytes \<Rightarrow> client_action list" where
  "client_main he socket_ok connect_ok net inp =
     (case init_socket he socket_ok connect_ok of
        Inl acts \<Rightarrow> acts
      | Inr _ \<Rightarrow> client_loop net 0 inp)"

lemma split_counter_Nil [simp]: "split_counter d [] = 0"
  by (subst split_counter.simps) simp

lemma split_counter_Cons:
  "split_counter d (c # s) = (if c = d then Suc (split_counter d s) else split_counter d s)"
  by (subst (1) split_counter.simps, subst (3) split_counter.simps) simp

lemma split_counter_count: "split_counter d s = count_list s d"
  by (induction s) (simp_all add: split_counter_Cons)

lemma split_fill_eq:
  "i + length ts \<le> length parts \<Longrightarrow>
   split_fill parts i ts = Some (take i parts @ map Some ts @ drop (i + length ts) parts)"
proof (induction parts i ts rule: split_fill.induct)
  case (1 parts i)
  then show ?case by simp
next
  case (2 parts i t ts)
  have "take (Suc i) (parts[i := Some t]) = take i parts @ [Some t]"
    using 2(2) by (simp add: take_Suc_conv_app_nth)
  then show ?case using 2 by simp
qed

lemma split_eq:
  "split d s = Some (map Some (strtok_tokens d s) @
     replicate (Suc (count_list s d) - length (strtok_tokens d s)) None, Suc (count_list s d))"
  using length_strtok_tokens [of d s]
  by (simp add: split_def split_counter_count split_fill_eq Let_def
    del: replicate_Suc)

text \<open>Joining tokens with the delimiter, the reference that \<^const>\<open>split\<close> inverts.\<close>

fun join :: "u8 \<Rightarrow> bytes list \<Rightarrow> bytes" where
  "join d [] = []"
| "join d [t] = t"
| "join d (t # ts) = t @ d # join d ts"

lemma strtok_tokens_join:
  "\<forall>t\<in>set ts. t \<noteq> [] \<and> d \<notin> set t \<Longrightarrow> strtok_tokens d (join d ts) = ts"
  by (induction d ts rule: join.induct)
    (simp_all add: strtok_tokens_token strtok_tokens_last strtok_tokens_delim)

lemma count_list_join:
  "\<forall>t\<in>set ts. d \<notin> set t \<Longrightarrow> ts \<noteq> [] \<Longrightarrow> Suc (count_list (join d ts) d) = length ts"
  by (induction d ts rule: join.induct) simp_all

lemma part_eq:
  "part (map Some ts @ replicate k None) i = (if i < length ts then Some (ts ! i) else None)"
  by (auto simp: part_def nth_append)


section \<open>Lemmas on parse_input\<close>

lemma list_cases5:
  obtains "xs = []" | a where "xs = [a]" | a b where "xs = [a, b]" | a b c where "xs = [a, b, c]"
  | a b c d where "xs = [a, b, c, d]" | a b c d e f where "xs = a # b # c # d # e # f"
  by (metis list.exhaust)

lemma part_split:
  "split d s = Some (parts, n) \<Longrightarrow>
   n = Suc (count_list s d) \<and>
   part parts i = (let ts = strtok_tokens d s in if i < length ts then Some (ts ! i) else None)"
  by (auto simp: split_eq part_eq Let_def)

lemma parse_input_eq:
  "parse_input s =
     (let ts = strtok_tokens 32 s; five = (count_list s 32 = 4);
          r = \<lparr>starting_address = - 1, req_length = - 1\<rparr>
      in case ts of
           [] \<Rightarrow> None
         | p0 # ts1 \<Rightarrow>
             if p0 \<noteq> str ''d'' then Some (if p0 = str ''exit'' then EXIT else INVALID_INPUT, r)
             else if \<not> five then Some (INVALID_INPUT, r)
             else case ts1 of
                 [] \<Rightarrow> None
               | p1 # ts2 \<Rightarrow>
                   if p1 \<noteq> str ''-a'' then Some (INVALID_INPUT, r)
                   else case ts2 of
                       [] \<Rightarrow> None
                     | p2 # ts3 \<Rightarrow>
                         let a = word_of_int (c_strtol p2 0); r = r\<lparr>starting_address := a\<rparr>
                         in case ts3 of
                             [] \<Rightarrow> None
                           | p3 # ts4 \<Rightarrow>
                               if p3 \<noteq> str ''-a'' \<and> p3 \<noteq> str ''-l'' then Some (INVALID_INPUT, r)
                               else case ts4 of
                                   [] \<Rightarrow> None
                                 | p4 # _ \<Rightarrow>
                                     let n = (if p3 = str ''-a'' then word_of_int (c_strtol p4 0) - a
                                              else c_atoi p4)
                                     in Some (if n = 0 then (INVALID_INPUT, r)
                                              else check_length (r\<lparr>req_length := n\<rparr>)))"
proof -
  obtain parts n where sp: "split 32 s = Some (parts, n)" by (simp add: split_eq)
  note p = part_split [OF sp]
  show ?thesis
    by (rule list_cases5 [of "strtok_tokens 32 s"])
      (simp_all add: parse_input_def sp p Let_def del: str_simps)
qed


text \<open>The two documented forms, on the tokens.\<close>

definition dump_command :: "bytes list \<Rightarrow> mem_dump_request \<Rightarrow> bool" where
  "dump_command ts r \<longleftrightarrow>
     (\<exists>a x v. ts = [str ''d'', str ''-a'', a, x, v] \<and>
        starting_address r = word_of_int (c_strtol a 0) \<and>
        (x = str ''-a'' \<and> req_length r = word_of_int (c_strtol v 0) - starting_address r \<or>
         x = str ''-l'' \<and> req_length r = c_atoi v))"

lemma str_option_neq [simp]: "str ''-a'' \<noteq> str ''-l''" "str ''-l'' \<noteq> str ''-a''"
    "str ''d'' \<noteq> str ''exit''" "str ''exit'' \<noteq> str ''d''"
  by simp_all

lemma check_length_dump:
  "check_length r = (MEM_DUMP, r') \<longleftrightarrow> r' = r \<and> req_length r \<le> 256"
  by (auto simp: check_length_def MAXDATASIZE_def)

lemma request_eqI: "starting_address r = a \<Longrightarrow> req_length r = n \<Longrightarrow> r = \<lparr>starting_address = a, req_length = n\<rparr>"
  by simp

lemma length_five: "length xs \<le> 5 \<Longrightarrow> xs = a # b # c # d # e # f \<Longrightarrow> f = []"
  by simp

lemma parse_input_dump_form:
  assumes "strtok_tokens 32 s = [str ''d'', str ''-a'', a, x, v]" "count_list s 32 = 4"
    and "x = str ''-a'' \<and> n = word_of_int (c_strtol v 0) - word_of_int (c_strtol a 0) \<or>
         x = str ''-l'' \<and> n = c_atoi v"
    and "0 < n" "n \<le> 256"
  shows "parse_input s = Some (MEM_DUMP, \<lparr>starting_address = word_of_int (c_strtol a 0), req_length = n\<rparr>)"
  using assms
  by (auto simp: parse_input_eq Let_def check_length_def MAXDATASIZE_def linorder_not_le
      simp del: str_simps)

lemma parse_input_dump_inv:
  assumes "parse_input s = Some (MEM_DUMP, r)"
  shows "count_list s 32 = 4 \<and> dump_command (strtok_tokens 32 s) r \<and> 0 < req_length r \<and> req_length r \<le> 256"
proof -
  have len: "length (strtok_tokens 32 s) \<le> Suc (count_list s 32)" by (rule length_strtok_tokens)
  show ?thesis
    using assms len
    by (cases rule: list_cases5 [of "strtok_tokens 32 s"])
      (auto simp: parse_input_eq Let_def check_length_dump dump_command_def word_neq_0_conv
        simp del: str_simps split: if_splits)
qed

text \<open>C2: \<^verbatim>\<open>parse_input\<close> accepts a line as a memory dump exactly when it has four blanks, its
  tokens are \<^verbatim>\<open>d -a START -a END\<close> or \<^verbatim>\<open>d -a START -l LEN\<close>, and the resulting 32-bit
  length is between 1 and 256; the request then holds the start address and that length.\<close>

theorem parse_input_dump_iff:
  "parse_input s = Some (MEM_DUMP, r) \<longleftrightarrow>
     count_list s 32 = 4 \<and> dump_command (strtok_tokens 32 s) r \<and>
     0 < req_length r \<and> req_length r \<le> of_nat MAXDATASIZE"
proof
  assume "parse_input s = Some (MEM_DUMP, r)"
  then show "count_list s 32 = 4 \<and> dump_command (strtok_tokens 32 s) r \<and>
     0 < req_length r \<and> req_length r \<le> of_nat MAXDATASIZE"
    using parse_input_dump_inv [of s r] by (simp add: MAXDATASIZE_def)
next
  assume r: "count_list s 32 = 4 \<and> dump_command (strtok_tokens 32 s) r \<and>
     0 < req_length r \<and> req_length r \<le> of_nat MAXDATASIZE"
  then obtain a x v where ts: "strtok_tokens 32 s = [str ''d'', str ''-a'', a, x, v]"
    and sa: "starting_address r = word_of_int (c_strtol a 0)"
    and x: "x = str ''-a'' \<and> req_length r = word_of_int (c_strtol v 0) - starting_address r \<or>
         x = str ''-l'' \<and> req_length r = c_atoi v"
    unfolding dump_command_def by blast
  have "parse_input s = Some (MEM_DUMP, \<lparr>starting_address = word_of_int (c_strtol a 0), req_length = req_length r\<rparr>)"
    using r x sa by (intro parse_input_dump_form [OF ts]) (simp_all add: MAXDATASIZE_def)
  then show "parse_input s = Some (MEM_DUMP, r)" using sa by simp
qed

text \<open>C6: \<^verbatim>\<open>parse_input\<close> dereferences a NULL \<^verbatim>\<open>parts[i]\<close> exactly on a line without tokens, and
  on a \<^verbatim>\<open>d\<close> line with four blanks but a token missing where the branch taken reads it:
  \<^verbatim>\<open>split\<close> counts delimiters, not tokens.\<close>

theorem parse_input_null_deref_iff:
  "parse_input s = None \<longleftrightarrow>
     strtok_tokens 32 s = [] \<or>
     count_list s 32 = 4 \<and>
       (strtok_tokens 32 s = [str ''d''] \<or>
        strtok_tokens 32 s = [str ''d'', str ''-a''] \<or>
        (\<exists>a. strtok_tokens 32 s = [str ''d'', str ''-a'', a]) \<or>
        (\<exists>a. strtok_tokens 32 s = [str ''d'', str ''-a'', a, str ''-a'']) \<or>
        (\<exists>a. strtok_tokens 32 s = [str ''d'', str ''-a'', a, str ''-l'']))"
  by (rule list_cases5 [of "strtok_tokens 32 s"])
    (auto simp: parse_input_eq Let_def simp del: str_simps split: if_splits)

text \<open>Splitting the tokens joined by single delimiters gives back the tokens and their number.\<close>

lemma split_join:
  assumes "\<forall>t\<in>set ts. t \<noteq> [] \<and> d \<notin> set t" "ts \<noteq> []"
  shows "split d (join d ts) = Some (map Some ts, length ts)"
  using assms strtok_tokens_join [of ts d] count_list_join [of ts d]
  by (simp add: split_eq)

section \<open>Lemmas on print_mem\<close>

text \<open>The line that shows the eight bytes from offset \<open>k\<close> on, with natural number offsets.\<close>

definition dump_line :: "mem_dump_request \<Rightarrow> bytes \<Rightarrow> nat \<Rightarrow> bytes" where
  "dump_line r data k =
     (let cells = [k..<k + 8]; shown = (\<lambda>j. j < unat (req_length r))
      in str ''0x'' @ fmt_0x 8 (unat (starting_address r + of_nat k)) @ [9] @
         concat (map (\<lambda>j. if shown j then fmt_0x 2 (unat (data ! j)) @ str '' '' else str ''.. '') cells) @ [9] @
         map (\<lambda>j. if shown j \<and> c_isprint (data ! j) then data ! j else 46) cells @ [10])"

lemma print_cells:
  assumes "unat k < 2 ^ 32" "unat (req_length r) \<le> length data"
  shows "print_hex_cell r data k =
      Some (if unat k < unat (req_length r) then fmt_0x 2 (unat (data ! unat k)) @ str '' '' else str ''.. '')"
    and "print_chr_cell r data k =
      Some [if unat k < unat (req_length r) \<and> c_isprint (data ! unat k) then data ! unat k else 46]"
  using assms by (auto simp: print_hex_cell_def print_chr_cell_def word_less_nat_alt)

lemma unat_offset:
  fixes i :: u32
  assumes "unat i + 8 \<le> 2 ^ 32" "j < 8"
  shows "unat (i + of_nat j) = unat i + j"
  using assms by (subst unat_add_lem [THEN iffD1]) (simp_all add: unat_of_nat)

lemma those_map_Some: "(\<And>x. x \<in> set xs \<Longrightarrow> f x = Some (g x)) \<Longrightarrow> those (map f xs) = Some (map g xs)"
  by (induction xs) simp_all

lemma upt_8: "[k..<k + 8] = map (\<lambda>j. k + j) [0, 1, 2, 3, 4, 5, 6, 7]"
  by (simp add: upt_rec numeral_eq_Suc)

lemma print_line_eq:
  assumes i: "unat i + 8 \<le> 2 ^ 32" and len: "unat (req_length r) \<le> length data"
  shows "print_line r data i = Some (dump_line r data (unat i))"
proof -
  have o: "unat (i + of_nat j) = unat i + j" if "j < 8" for j
    using i that by (rule unat_offset)
  have o': "unat i < 2 ^ 32"
     "unat (i + 1) = unat i + 1" "unat (i + 2) = unat i + 2" "unat (i + 3) = unat i + 3"
     "unat (i + 4) = unat i + 4" "unat (i + 5) = unat i + 5" "unat (i + 6) = unat i + 6"
     "unat (i + 7) = unat i + 7"
    using i o [of 1] o [of 2] o [of 3] o [of 4] o [of 5] o [of 6] o [of 7] by simp_all
  have b: "unat x < 2 ^ 32" for x :: u32 by simp
  show ?thesis
    unfolding print_line_def dump_line_def upt_8 print_cells [OF b len]
    by (simp add: o' Let_def del: str_simps)
qed

lemma print_mem_loop_eq:
  assumes len: "unat (req_length r) \<le> length data" and L: "unat (req_length r) + 8 \<le> 2 ^ 32"
  shows "8 * m \<le> unat (req_length r) + 7 \<Longrightarrow>
    print_mem_loop r data (of_nat (8 * m)) out =
      Some (out @ concat (map (\<lambda>m. dump_line r data (8 * m)) [m..<(unat (req_length r) + 7) div 8]))"
proof (induction "(unat (req_length r) + 7) div 8 - m" arbitrary: m out)
  case 0
  then have ge: "unat (req_length r) \<le> 8 * m" by linarith
  have u: "unat (of_nat (8 * m) :: u32) = 8 * m"
    using 0(2) L by (intro unat_of_nat_u32) simp
  have "\<not> (of_nat (8 * m) :: u32) < req_length r" using ge u by (simp add: word_less_nat_alt)
  moreover have "[m..<(unat (req_length r) + 7) div 8] = []" using 0(1) by simp
  ultimately show ?case by (subst print_mem_loop.simps) (auto simp del: of_nat_mult)
next
  case (Suc n)
  let ?i = "of_nat (8 * m) :: u32"
  have "Suc m \<le> (unat (req_length r) + 7) div 8" using Suc(2) by linarith
  then have "Suc m * 8 \<le> (unat (req_length r) + 7) div 8 * 8" by (rule mult_right_mono) simp
  also have "\<dots> \<le> unat (req_length r) + 7" by (rule div_times_less_eq_dividend)
  finally have lt: "8 * m < unat (req_length r)" "8 * Suc m \<le> unat (req_length r) + 7" by simp_all
  have u: "unat ?i = 8 * m"
    using lt L by (intro unat_of_nat_u32) simp
  have "?i < req_length r" using lt u by (simp add: word_less_nat_alt)
  moreover have "print_line r data ?i = Some (dump_line r data (8 * m))"
    using print_line_eq [of ?i r data] u lt L len by (simp del: of_nat_mult)
  moreover have "?i + 8 = of_nat (8 * Suc m)" by simp
  moreover have "print_mem_loop r data (of_nat (8 * Suc m)) (out @ dump_line r data (8 * m)) =
     Some ((out @ dump_line r data (8 * m)) @
        concat (map (\<lambda>m. dump_line r data (8 * m)) [Suc m..<(unat (req_length r) + 7) div 8]))"
    by (rule Suc(1)) (use Suc(2) lt in linarith)+
  moreover have "[m..<(unat (req_length r) + 7) div 8] = m # [Suc m..<(unat (req_length r) + 7) div 8]"
    using Suc(2) by (simp add: upt_conv_Cons)
  ultimately show ?case
    by (subst print_mem_loop.simps) (simp add: add.commute del: of_nat_mult)
qed

lemma print_mem_eq:
  assumes "unat (req_length r) \<le> length data" "unat (req_length r) + 8 \<le> 2 ^ 32"
  shows "print_mem r data =
    Some (concat (map (\<lambda>m. dump_line r data (8 * m)) [0..<(unat (req_length r) + 7) div 8]))"
  using print_mem_loop_eq [OF assms, of 0 "[]"] by (simp add: print_mem_def)

lemma length_dump_line: "length (dump_line r data k) = 45"
proof -
  have "length (fmt_0x 8 (unat (starting_address r + of_nat k))) = 8"
    by (rule length_fmt_0x) simp_all
  moreover have "length (fmt_0x 2 (unat (c :: u8))) = 2" for c
    by (rule length_fmt_0x) simp_all
  ultimately show ?thesis
    by (simp add: dump_line_def Let_def length_concat comp_def if_distrib [of length] upt_8 cong: if_cong)
qed


text \<open>C5: for every request of at most 4294967288 bytes that the buffer covers, \<^verbatim>\<open>print_mem\<close>
  ends and prints one line for every eight bytes started: the address (modulo \<open>2 ^ 32\<close>), the
  bytes in hexadecimal and as characters, with the cells after the end filled.\<close>

theorem print_mem_lines:
  assumes "unat (req_length r) \<le> length data" "unat (req_length r) + 8 \<le> 2 ^ 32"
  shows "\<exists>out. print_mem r data = Some out \<and>
    out = concat (map (\<lambda>m. dump_line r data (8 * m)) [0..<(unat (req_length r) + 7) div 8]) \<and>
    length out = 45 * ((unat (req_length r) + 7) div 8)"
  using print_mem_eq [OF assms]
  by (simp add: length_concat comp_def length_dump_line sum_list_triv)

theorem print_mem_lines_witness:
  "\<exists>out. print_mem \<lparr>starting_address = 16, req_length = 9\<rparr> (replicate 256 65) = Some out \<and>
    out = concat (map (\<lambda>m. dump_line \<lparr>starting_address = 16, req_length = 9\<rparr> (replicate 256 65) (8 * m)) [0..<2]) \<and>
    length out = 90"
  using print_mem_lines [of "\<lparr>starting_address = 16, req_length = 9\<rparr>" "replicate 256 65"] by simp

section \<open>Lemmas on the command loop\<close>

lemma print_mem_buffer:
  assumes "req_length r \<le> 256" "length d \<le> 256"
  shows "\<exists>out. print_mem r (d @ replicate (MAXDATASIZE - length d) 0) = Some out"
proof -
  have "unat (req_length r) \<le> 256" using assms(1) by (simp add: word_le_nat_alt)
  then show ?thesis using assms(2) by (subst print_mem_eq) (simp_all add: MAXDATASIZE_def)
qed

text \<open>The requests a list of actions sends.\<close>

fun sent_of :: "client_action list \<Rightarrow> bytes list" where
  "sent_of [] = []"
| "sent_of (Sent b # acts) = b # sent_of acts"
| "sent_of (_ # acts) = sent_of acts"

lemma sent_of_append [simp]: "sent_of (xs @ ys) = sent_of xs @ sent_of ys"
  by (induction xs rule: sent_of.induct) simp_all

definition valid_request :: "bytes \<Rightarrow> bool" where
  "valid_request b \<longleftrightarrow> (\<exists>r. b = request_bytes r \<and> 0 < req_length r \<and> req_length r \<le> 256)"

lemma dump_request_sent: "sent_of (snd (dump_request net n r)) = [request_bytes r]"
  by (auto simp: dump_request_def Let_def split: prod.splits option.splits)

lemma client_loop_sent: "b \<in> set (sent_of (client_loop net n inp)) \<Longrightarrow> valid_request b"
proof (induction net n inp rule: client_loop.induct)
  case (1 net n inp)
  show ?case
  proof (cases "inp = [] \<or> strip_newline (fst (fgets inp)) = None")
    case True
    then show ?thesis using 1(3) by (subst (asm) client_loop.simps) (auto split: if_splits)
  next
    case False
    then obtain line where l: "inp \<noteq> []" "strip_newline (fst (fgets inp)) = Some line" by auto
    show ?thesis
    proof (cases "parse_input line")
      case None
      then show ?thesis using 1(3) l by (subst (asm) client_loop.simps) simp
    next
      case (Some cr)
      obtain c r where cr: "cr = (c, r)" by (cases cr)
      obtain go acts where d: "dump_request net n r = (go, acts)" by (cases "dump_request net n r")
      have "b = request_bytes r \<or> go \<and> b \<in> set (sent_of (client_loop net (Suc n) (snd (fgets inp))))" if "c = MEM_DUMP"
        using 1(3) l Some cr d that dump_request_sent [of net n r]
        by (subst (asm) client_loop.simps) (auto split: if_splits)
      moreover have "b \<in> set (sent_of (client_loop net n (snd (fgets inp))))" if "c = INVALID_INPUT"
        using 1(3) l Some cr that by (subst (asm) client_loop.simps) simp
      moreover have False if "c = EXIT"
        using 1(3) l Some cr that by (subst (asm) client_loop.simps) simp
      ultimately show ?thesis
        using 1(2) [OF l Some cr [symmetric]] 1(1) [OF l Some cr [symmetric] _ refl d [symmetric]] parse_input_dump_inv [of line r] Some cr
        by (cases c) (auto simp: valid_request_def)
    qed
  qed
qed

text \<open>C3: whatever is typed, everything the client sends is one 8-byte request, the little-endian
  start address and a length between 1 and 256. This includes what is sent in a session that ends
  with a crash of the client.\<close>

theorem client_sends_valid_requests:
  assumes "b \<in> set (sent_of (client_main he socket_ok connect_ok net inp))"
  shows "length b = 8 \<and> (\<exists>a n. b = le32_bytes a @ le32_bytes n \<and> 1 \<le> n \<and> n \<le> 256)"
proof -
  have "valid_request b"
    using assms client_loop_sent [of b net 0 inp]
    by (auto simp: client_main_def init_socket_def Let_def split: option.splits sum.splits if_splits)
  then show ?thesis
    by (auto simp: valid_request_def request_bytes_def word_le_nat_alt unat_gt_0 Suc_le_eq
        simp flip: word_neq_0_conv)
qed

section \<open>Complete sessions\<close>

text \<open>A line as it is typed: not empty, without newline and NUL, and short enough for the buffer.\<close>

definition typed_line :: "bytes \<Rightarrow> bool" where
  "typed_line l \<longleftrightarrow> 10 \<notin> set l \<and> 0 \<notin> set l \<and> length l \<le> 254"

lemma fgets_line: "typed_line l \<Longrightarrow> fgets (l @ 10 # rest) = (l @ [10], rest)"
proof -
  assume l: "typed_line l"
  have "takeWhile (\<lambda>c. c \<noteq> 10) (l @ 10 # rest) = l"
    using l by (subst takeWhile_append2) (auto simp: typed_line_def)
  then show ?thesis using l by (simp add: fgets_def typed_line_def MAXDATASIZE_def Let_def)
qed

lemma strip_newline_line: "typed_line l \<Longrightarrow> strip_newline (l @ [10]) = Some l"
  by (subst strip_newline_def, subst c_str_of_def, subst takeWhile_append2)
    (auto simp: typed_line_def)

lemma client_loop_line:
  assumes "typed_line l"
  shows "client_loop net n (l @ 10 # rest) =
    Prompt #
    (case parse_input l of
       None \<Rightarrow> [Crash]
     | Some (INVALID_INPUT, request) \<Rightarrow> Print (str ''invalid input'' @ [10]) # client_loop net n rest
     | Some (EXIT, request) \<Rightarrow> [Close, Exit_status 0]
     | Some (MEM_DUMP, request) \<Rightarrow>
         (let (go, acts) = dump_request net n request in if go then acts @ client_loop net (Suc n) rest else acts))"
  by (subst client_loop.simps, unfold fgets_line [OF assms] fst_conv snd_conv)
    (simp add: strip_newline_line [OF assms])

lemma dump_request_ok:
  assumes "net n (request_bytes r) = (True, Some d)" "req_length r \<le> 256"
  shows "\<exists>out. dump_request net n r = (True, [Sent (request_bytes r), Print out]) \<and>
     print_mem r (take (unat (req_length r)) d @ replicate (256 - length (take (unat (req_length r)) d)) 0) = Some out"
proof -
  have "length (take (unat (req_length r)) d) \<le> 256" using assms(2) by (simp add: word_le_nat_alt)
  from print_mem_buffer [OF assms(2) this] assms(1) show ?thesis
    by (auto simp: dump_request_def MAXDATASIZE_def Let_def)
qed

text \<open>A request, an empty line, on which the client crashes.\<close>

lemma client_run_crash:
  "client_main (Some [192, 168, 0, 2]) True (\<lambda>_. True) (\<lambda>n b. (True, Some [1, 2]))
     (str ''d -a 0x10 -l 2'' @ [10, 10]) =
   [Prompt, Sent [16, 0, 0, 0, 2, 0, 0, 0], Print (str ''0x00000010'' @ [9] @ str ''01 02 .. .. .. .. .. .. '' @ [9] @ str ''........'' @ [10]),
    Prompt, Crash]"
  by code_simp

theorem client_sends_valid_requests_witness:
  "[16, 0, 0, 0, 2, 0, 0, 0] \<in> set (sent_of (client_main (Some [192, 168, 0, 2]) True (\<lambda>_. True) (\<lambda>n b. (True, Some [1, 2]))
     (str ''d -a 0x10 -l 2'' @ [10, 10]))) \<and>
   length [16, 0, 0, 0, 2, 0, 0, 0 :: u8] = 8 \<and>
   (\<exists>a n. [16, 0, 0, 0, 2, 0, 0, 0] = le32_bytes a @ le32_bytes n \<and> 1 \<le> n \<and> n \<le> 256)"
proof
  show s: "[16, 0, 0, 0, 2, 0, 0, 0] \<in> set (sent_of (client_main (Some [192, 168, 0, 2]) True (\<lambda>_. True) (\<lambda>n b. (True, Some [1, 2]))
     (str ''d -a 0x10 -l 2'' @ [10, 10])))"
    unfolding client_run_crash by simp
  show "length [16, 0, 0, 0, 2, 0, 0, 0 :: u8] = 8 \<and>
   (\<exists>a n. [16, 0, 0, 0, 2, 0, 0, 0] = le32_bytes a @ le32_bytes n \<and> 1 \<le> n \<and> n \<le> 256)"
    by (rule client_sends_valid_requests [OF s])
qed

end
