(* ===== verification/KernelModule.thy ===== *)
theory KernelModule
  imports CLib
begin

text \<open>
  The kernel module \<^verbatim>\<open>kernel_dir/kernel_module.c\<close>: it receives a netlink message with the
  text of a start address and a length, reads physical memory and sends the bytes back. An
  \<^verbatim>\<open>int\<close> is a 32-bit word read with \<^const>\<open>sint\<close>. Physical memory is a parameter, a
  partial function from addresses to bytes (\<open>None\<close> is an address whose access faults); so are the
  outcomes of the netlink calls. The debugging output of \<^verbatim>\<open>printk\<close> is not modelled.
\<close>

section \<open>Constants and state\<close>

definition SIZE :: nat where "SIZE = 256"
definition LAST_READABLE_ADDRESS :: int where "LAST_READABLE_ADDRESS = 0x37bfdfff"
definition NETLINK_USER :: nat where "NETLINK_USER = 31"
definition EFAULT :: int where "EFAULT = 14"

type_synonym phys_mem = "int \<Rightarrow> u8 option"

text \<open>The global \<^verbatim>\<open>nl_sk\<close> and the messages unicast so far, with their destination.\<close>

record kernel_state =
  nl_sk :: "nat option"
  unicasts :: "(u32 \<times> bytes) list"

section \<open>Loading and unloading\<close>

text \<open>\<open>create\<close> is the result of \<^verbatim>\<open>netlink_kernel_create\<close> for the protocol number.\<close>

definition init_module :: "(nat \<Rightarrow> nat option) \<Rightarrow> kernel_state \<Rightarrow> int \<times> kernel_state" where
  "init_module create k =
     (let k = k\<lparr>nl_sk := create NETLINK_USER\<rparr>
      in case nl_sk k of None \<Rightarrow> (- EFAULT, k) | Some _ \<Rightarrow> (0, k))"

text \<open>
  Releasing the socket ends the delivery of messages; the variable keeps its value. The first
  component is the socket released.
\<close>

definition cleanup_module :: "kernel_state \<Rightarrow> nat option \<times> kernel_state" where
  "cleanup_module k = (nl_sk k, k)"

section \<open>Parsing\<close>

text \<open>\<^verbatim>\<open>sscanf(input, "%08x,%08x", start, length)\<close>: what is not converted keeps its value.\<close>

definition kernel_parse_input :: "bytes \<Rightarrow> u32 \<times> u32 \<Rightarrow> u32 \<times> u32" where
  "kernel_parse_input input old =
     (case scan_08x input of
        None \<Rightarrow> old
      | Some (start, rest) \<Rightarrow>
          (case rest of
             [] \<Rightarrow> (start, snd old)
           | c # rest' \<Rightarrow>
               if c = 44 then
                 (case scan_08x rest' of
                    None \<Rightarrow> (start, snd old)
                  | Some (len, _) \<Rightarrow> (start, len))
               else (start, snd old)))"

section \<open>Reading memory\<close>

text \<open>
  The loop of \<^verbatim>\<open>copy_data_from_memory\<close>: \<open>data\<close> is the destination buffer; the result is the
  buffer and the count.
\<close>

function copy_loop :: "phys_mem \<Rightarrow> u32 \<Rightarrow> u32 \<Rightarrow> bytes \<Rightarrow> nat \<Rightarrow> nat \<Rightarrow> (bytes \<times> nat) option" where
  "copy_loop mem start_address length' data buffer_length count =
     (if int count < sint length' \<and> count < buffer_length then
        (if LAST_READABLE_ADDRESS \<le> sint (start_address + of_nat count) then Some (data, count)
         else case mem (sint (start_address + of_nat count)) of
             None \<Rightarrow> None
           | Some b \<Rightarrow>
               if count < length data
               then copy_loop mem start_address length' (data[count := b]) buffer_length (Suc count)
               else None)
      else Some (data, count))"
  by pat_completeness auto
termination
  by (relation "measure (\<lambda>(mem, s, l, d, bl, c). bl - c)") auto

declare copy_loop.simps [simp del]

definition copy_data_from_memory ::
  "phys_mem \<Rightarrow> u32 \<Rightarrow> u32 \<Rightarrow> bytes \<Rightarrow> nat \<Rightarrow> (bytes \<times> nat) option" where
  "copy_data_from_memory mem start_address length' data buffer_length =
     copy_loop mem start_address length' data buffer_length 0"

section \<open>The message handler\<close>

text \<open>
  \<^verbatim>\<open>strcpy(dst, src)\<close> into an array: \<open>None\<close> when the source has no terminator or the string does
  not fit.
\<close>

definition c_strcpy :: "bytes \<Rightarrow> bytes \<Rightarrow> bytes option" where
  "c_strcpy dst src =
     (let s = takeWhile (\<lambda>c. c \<noteq> 0) src
      in if length s < length src \<and> length s < length dst
         then Some (s @ [0] @ drop (Suc (length s)) dst) else None)"

text \<open>
  \<open>pid\<close> and \<open>payload\<close> are the sender and the data of the message received; \<open>alloc_ok\<close> and
  \<open>unicast_ok\<close> are the outcomes of \<^verbatim>\<open>nlmsg_new\<close> and \<^verbatim>\<open>nlmsg_unicast\<close>.
\<close>

definition nl_recv_msg ::
  "phys_mem \<Rightarrow> bool \<Rightarrow> bool \<Rightarrow> u32 \<Rightarrow> bytes \<Rightarrow> kernel_state \<Rightarrow> kernel_state option" where
  "nl_recv_msg mem alloc_ok unicast_ok pid payload k = do {
     let msg = replicate SIZE 0;
     msg \<leftarrow> c_strcpy msg payload;
     let (start, length') = kernel_parse_input (takeWhile (\<lambda>c. c \<noteq> 0) msg) (0, 1);
     (msg, msg_size) \<leftarrow> copy_data_from_memory mem start length' msg SIZE;
     if \<not> alloc_ok then Some k
     else if \<not> unicast_ok then Some k
     else Some (k\<lparr>unicasts := unicasts k @ [(pid, take msg_size msg)]\<rparr>)
   }"

section \<open>Lemmas\<close>

text \<open>The number of bytes that are copied.\<close>

definition copy_count :: "u32 \<Rightarrow> u32 \<Rightarrow> nat \<Rightarrow> nat" where
  "copy_count start len bl = min bl (nat (min (sint len) (LAST_READABLE_ADDRESS - sint start)))"

lemma sint_u32_range: "- 2147483648 \<le> sint (w :: u32)" "sint (w :: u32) < 2147483648"
  using sint_greater_eq [of w] sint_less [of w] by simp_all

lemma sint_add_of_nat:
  fixes s :: u32
  assumes "sint s + int n < 2147483648"
  shows "sint (s + of_nat n) = sint s + int n"
proof -
  have "s + of_nat n = word_of_int (sint s + int n)" by simp
  then have "sint (s + of_nat n) = signed_take_bit 31 (sint s + int n)"
    by (simp only: signed_of_int) simp
  also have "\<dots> = sint s + int n"
    using assms sint_u32_range [of s] by (intro signed_take_bit_int_eq_self) simp_all
  finally show ?thesis .
qed


text \<open>
  The sum \<^verbatim>\<open>start_address + count\<close> never overflows: the limit is reached first.
\<close>

lemma copy_loop_eq:
  assumes len: "length data = bl" and c: "c \<le> copy_count start n bl"
    and mem: "\<And>i. i < copy_count start n bl \<Longrightarrow> mem (sint start + int i) = Some (f i)"
  shows "copy_loop mem start n data bl c =
    Some (take c data @ map f [c..<copy_count start n bl] @ drop (copy_count start n bl) data,
          copy_count start n bl)"
  using c len
proof (induction "copy_count start n bl - c" arbitrary: c data)
  case 0
  then have c: "c = copy_count start n bl" by simp
  have "\<not> (int c < sint n \<and> c < bl) \<or> LAST_READABLE_ADDRESS \<le> sint (start + of_nat c)"
  proof (cases "int c < sint n \<and> c < bl")
    case True
    then have "int c \<ge> LAST_READABLE_ADDRESS - sint start"
      using c by (auto simp: copy_count_def min_def split: if_splits)
    moreover have "sint start + int c < 2147483648"
    proof (cases "c = 0")
      case False
      have "c \<le> nat (LAST_READABLE_ADDRESS - sint start)" using c by (simp add: copy_count_def)
      with False have "int c \<le> LAST_READABLE_ADDRESS - sint start"
        by (cases "0 \<le> LAST_READABLE_ADDRESS - sint start") auto
      then show ?thesis by (simp add: LAST_READABLE_ADDRESS_def)
    qed (simp add: sint_u32_range)
    ultimately show ?thesis by (simp add: sint_add_of_nat)
  qed simp
  then show ?case using c by (subst copy_loop.simps) auto
next
  case (Suc k)
  then have lt: "c < copy_count start n bl" by simp
  then have b: "int c < sint n" "c < bl" "int c < LAST_READABLE_ADDRESS - sint start"
    by (auto simp: copy_count_def zless_nat_eq_int_zless)
  then have s: "sint (start + of_nat c) = sint start + int c"
    by (intro sint_add_of_nat) (simp add: LAST_READABLE_ADDRESS_def)
  have IH: "copy_loop mem start n (data[c := f c]) bl (Suc c) =
    Some (take (Suc c) (data[c := f c]) @ map f [Suc c..<copy_count start n bl] @
      drop (copy_count start n bl) (data[c := f c]), copy_count start n bl)"
    using Suc(2,4) lt by (intro Suc(1)) simp_all
  have t: "take (Suc c) (data[c := f c]) = take c data @ [f c]"
    using b Suc(4) by (simp add: take_Suc_conv_app_nth)
  have u: "[c..<copy_count start n bl] = c # [Suc c..<copy_count start n bl]"
    using lt by (rule upt_conv_Cons)
  show ?case
    using b s mem [OF lt] Suc(4) lt by (subst copy_loop.simps) (simp add: IH t u)
qed

lemma scan_08x_comma: "kernel_parse_input (fmt_0x 8 (unat a) @ 44 # fmt_0x 8 (unat n)) old = (a, n)"
  using scan_fmt [of a "44 # fmt_0x 8 (unat n)"] scan_fmt [of n "[]"]
  by (simp add: kernel_parse_input_def)

lemma fmt_0x_nonzero: "n < 16 ^ w \<Longrightarrow> 0 < w \<Longrightarrow> 0 \<notin> set (fmt_0x w n)"
  using fmt_0x_hex is_hex_nonzero by fastforce

lemma c_strcpy_eq:
  "0 \<notin> set s \<Longrightarrow> length s < n \<Longrightarrow>
   c_strcpy (replicate n 0) (s @ 0 # rest) = Some (s @ 0 # replicate (n - Suc (length s)) 0)"
proof -
  assume "0 \<notin> set s" "length s < n"
  moreover from this have "takeWhile (\<lambda>c. c \<noteq> 0) (s @ 0 # rest) = s"
    by (subst takeWhile_append2) auto
  ultimately show ?thesis by (simp add: c_strcpy_def Let_def)
qed

section \<open>Properties\<close>

text \<open>\<^verbatim>\<open>copy_data_from_memory\<close> copies consecutive bytes of physical memory to the front of the
  buffer and leaves the rest: as many as asked for, at most the buffer, and stopping below the
  last readable address. The start address and the length are signed.\<close>

lemma copy_data_from_memory_correct:
  assumes "length data = bl"
    and "\<And>i. i < copy_count start n bl \<Longrightarrow> mem (sint start + int i) = Some (f i)"
  shows "copy_data_from_memory mem start n data bl =
    Some (map f [0..<copy_count start n bl] @ drop (copy_count start n bl) data, copy_count start n bl)"
  using copy_loop_eq [of data bl 0 start n mem f] assms by (simp add: copy_data_from_memory_def)

text \<open>C7: the text that the server formats is parsed back to the same two words.\<close>

theorem kernel_parse_format:
  "kernel_parse_input (fmt_0x 8 (unat a) @ str '','' @ fmt_0x 8 (unat n)) old = (a, n)"
  using scan_08x_comma by simp

lemma nl_recv_msg_eq:
  assumes payload: "payload = fmt_0x 8 (unat a) @ str '','' @ fmt_0x 8 (unat n) @ 0 # rest"
    and mem: "\<And>i. i < copy_count a n SIZE \<Longrightarrow> mem (sint a + int i) = Some (f i)"
  shows "nl_recv_msg mem True True pid payload k =
    Some (k\<lparr>unicasts := unicasts k @ [(pid, map f [0..<copy_count a n SIZE])]\<rparr>)"
proof -
  let ?t = "fmt_0x 8 (unat a) @ 44 # fmt_0x 8 (unat n)"
  let ?m = "?t @ 0 # replicate (SIZE - Suc (length ?t)) 0"
  have z: "0 \<notin> set ?t" using fmt_0x_nonzero [of "unat a" 8] fmt_0x_nonzero [of "unat n" 8] by simp
  have l: "length ?t = 17" using length_fmt_0x [of 8 "unat a"] length_fmt_0x [of 8 "unat n"] by simp
  have cp: "c_strcpy (replicate SIZE 0) payload = Some ?m"
    using c_strcpy_eq [OF z, of SIZE rest] l by (simp add: payload SIZE_def)
  have tw: "takeWhile (\<lambda>c. c \<noteq> 0) ?m = ?t" using z by (subst takeWhile_append2) auto
  have "length ?m = SIZE" using l by (simp add: SIZE_def)
  with copy_loop_eq [of ?m SIZE 0 a n mem f] mem
  have "copy_data_from_memory mem a n ?m SIZE =
      Some (map f [0..<copy_count a n SIZE] @ drop (copy_count a n SIZE) ?m, copy_count a n SIZE)"
    by (simp add: copy_data_from_memory_def)
  then show ?thesis
    unfolding nl_recv_msg_def Let_def cp Option.bind.bind_lunit tw
    by (simp only: scan_08x_comma Option.bind.bind_lunit prod.case) simp
qed

text \<open>C4: for a message with the text of an address and a length, the module answers the sender
  with exactly the bytes of memory at that address, cut to 256 bytes and below the last readable
  address, and changes nothing else.\<close>

theorem nl_recv_msg_answers:
  assumes payload: "payload = fmt_0x 8 (unat a) @ str '','' @ fmt_0x 8 (unat n) @ 0 # rest"
    and mem: "\<And>i. i < copy_count a n SIZE \<Longrightarrow> mem (sint a + int i) = Some (f i)"
  shows "nl_recv_msg mem True True pid payload k =
    Some (k\<lparr>unicasts := unicasts k @ [(pid, map f [0..<copy_count a n SIZE])]\<rparr>)"
  using mem by (intro nl_recv_msg_eq [OF payload])

theorem nl_recv_msg_answers_witness:
  "nl_recv_msg (\<lambda>a. Some (word_of_int a)) True True 7
     (fmt_0x 8 (unat (0x10 :: u32)) @ str '','' @ fmt_0x 8 (unat (3 :: u32)) @ [0])
     \<lparr>nl_sk = Some 1, unicasts = []\<rparr> =
   Some \<lparr>nl_sk = Some 1, unicasts = [(7, [0x10, 0x11, 0x12])]\<rparr>"
proof -
  have c: "copy_count 0x10 3 SIZE = 3" by code_simp
  have u: "[0..<3] = [0, 1, 2]" by code_simp
  show ?thesis
    using nl_recv_msg_answers [OF refl, where a = "0x10" and n = 3 and rest = "[]" and pid = 7
        and mem = "\<lambda>a. Some (word_of_int a)" and f = "\<lambda>i. word_of_int (sint (0x10 :: u32) + int i)"
        and k = "\<lparr>nl_sk = Some 1, unicasts = []\<rparr>",
        unfolded c u]
    by simp
qed

text \<open>C8: the limit is compared as a signed number, so that it does not stop an address of
  \<^verbatim>\<open>0x80000000\<close> or more: everything asked for (up to the buffer) is read there.\<close>

theorem limit_ignored_for_high_addresses:
  assumes "0x80000000 \<le> start" "length data = 256" "0 < sint n"
    and "\<And>i. i < 256 \<Longrightarrow> mem (sint start + int i) = Some (f i)"
  shows "\<exists>data'. copy_data_from_memory mem start n data 256 = Some (data', min 256 (nat (sint n)))"
proof -
  have "uint start \<ge> 0x80000000" using assms(1) by (simp add: word_le_def)
  moreover have "uint start = sint start" if "0 \<le> sint start"
    using that sint_u32_range [of start] by (simp add: uint_sint take_bit_int_eq_self)
  ultimately have "sint start < 0" using sint_u32_range [of start] by linarith
  then have "copy_count start n 256 = min 256 (nat (sint n))"
    using sint_u32_range [of n] by (simp add: copy_count_def LAST_READABLE_ADDRESS_def)
  then show ?thesis
    using copy_loop_eq [of data 256 0 start n mem f] assms(2,4) by (simp add: copy_data_from_memory_def)
qed

theorem limit_ignored_for_high_addresses_witness:
  "LAST_READABLE_ADDRESS \<le> uint (0x80000000 :: u32) \<and>
   (\<exists>data'. copy_data_from_memory (\<lambda>a. Some 1) 0x80000000 16 (replicate 256 0) 256 = Some (data', 16))"
  using limit_ignored_for_high_addresses [of "0x80000000" "replicate 256 0" 16 "\<lambda>a. Some 1" "\<lambda>i. 1"]
  by (simp add: LAST_READABLE_ADDRESS_def)

end
