(* ===== verification/Lwip_Def.thy ===== *)
theory Lwip_Def
  imports Prelude "HOL-Library.Signed_Division"
begin

text \<open>
  Byte order and the non-standard string functions of lwIP:
  \<^verbatim>\<open>server_dir/lwip/src/core/def.c\<close> and the macros of \<^verbatim>\<open>lwip/def.h\<close> it uses.
  String arguments are byte buffers; reading past the end of a buffer is \<open>None\<close>.
\<close>

section \<open>Byte order\<close>

definition PP_HTONS :: "u16 \<Rightarrow> u16" where
  "PP_HTONS x = (push_bit 8 (x AND 0x00ff)) OR (drop_bit 8 (x AND 0xff00))"

definition PP_HTONL :: "u32 \<Rightarrow> u32" where
  "PP_HTONL x =
     (push_bit 24 (x AND 0x000000ff)) OR (push_bit 8 (x AND 0x0000ff00)) OR
     (drop_bit 8 (x AND 0x00ff0000)) OR (drop_bit 24 (x AND 0xff000000))"

definition lwip_htons :: "u16 \<Rightarrow> u16" where
  "lwip_htons n = PP_HTONS n"

definition lwip_htonl :: "u32 \<Rightarrow> u32" where
  "lwip_htonl n = PP_HTONL n"

section \<open>C string helpers\<close>

text \<open>\<^verbatim>\<open>strlen\<close>: \<open>None\<close> when the buffer has no terminator.\<close>

fun c_strlen :: "bytes \<Rightarrow> nat option" where
  "c_strlen [] = None"
| "c_strlen (c # cs) = (if c = 0 then Some 0 else map_option Suc (c_strlen cs))"

text \<open>\<^verbatim>\<open>strncmp(a, b, n) == 0\<close>.\<close>

fun c_strncmp_eq :: "bytes \<Rightarrow> bytes \<Rightarrow> nat \<Rightarrow> bool option" where
  "c_strncmp_eq as bs 0 = Some True"
| "c_strncmp_eq (a # as) (b # bs) (Suc n) =
     (if a \<noteq> b then Some False else if a = 0 then Some True else c_strncmp_eq as bs n)"
| "c_strncmp_eq _ _ (Suc n) = None"

section \<open>lwip_strnstr\<close>

text \<open>
  The search loop: \<open>p\<close> is the rest of the buffer at the scan pointer and \<open>i\<close> its offset
  from \<open>buffer\<close>. The result is the offset of the match, or \<open>None\<close> for NULL.
\<close>

fun strnstr_loop :: "bytes \<Rightarrow> bytes \<Rightarrow> nat \<Rightarrow> nat \<Rightarrow> nat \<Rightarrow> nat option option" where
  "strnstr_loop [] token tokenlen n i = None"
| "strnstr_loop (c # p) token tokenlen n i =
     (if c \<noteq> 0 \<and> i + tokenlen \<le> n then
        (if token \<noteq> [] \<and> c = hd token then
           (case c_strncmp_eq (c # p) token tokenlen of
              None \<Rightarrow> None
            | Some True \<Rightarrow> Some (Some i)
            | Some False \<Rightarrow> strnstr_loop p token tokenlen n (Suc i))
         else strnstr_loop p token tokenlen n (Suc i))
      else Some None)"

definition lwip_strnstr :: "bytes \<Rightarrow> bytes \<Rightarrow> nat \<Rightarrow> nat option option" where
  "lwip_strnstr buffer token n =
     (case c_strlen token of
        None \<Rightarrow> None
      | Some tokenlen \<Rightarrow>
          if tokenlen = 0 then Some (Some 0) else strnstr_loop buffer token tokenlen n 0)"

section \<open>lwip_stricmp and lwip_strnicmp\<close>

text \<open>The body shared by the two comparison loops: do these two characters end the loop with 1?\<close>

definition icmp_differ :: "u8 \<Rightarrow> u8 \<Rightarrow> bool" where
  "icmp_differ c1 c2 \<longleftrightarrow>
     c1 \<noteq> c2 \<and>
     (let c1_upc = c1 OR 0x20 in
      if 0x61 \<le> c1_upc \<and> c1_upc \<le> 0x7a then
        (let c2_upc = c2 OR 0x20 in c1_upc \<noteq> c2_upc)
      else True)"

fun lwip_stricmp :: "bytes \<Rightarrow> bytes \<Rightarrow> nat option" where
  "lwip_stricmp (c1 # str1) (c2 # str2) =
     (if icmp_differ c1 c2 then Some 1
      else if c1 \<noteq> 0 then lwip_stricmp str1 str2
      else Some 0)"
| "lwip_stricmp _ _ = None"

fun lwip_strnicmp :: "bytes \<Rightarrow> bytes \<Rightarrow> nat \<Rightarrow> nat option" where
  "lwip_strnicmp (c1 # str1) (c2 # str2) len =
     (if icmp_differ c1 c2 then Some 1
      else if len \<noteq> 0 \<and> c1 \<noteq> 0 then lwip_strnicmp str1 str2 (len - 1)
      else Some 0)"
| "lwip_strnicmp _ _ _ = None"

section \<open>lwip_itoa\<close>

definition itoa_table :: bytes where
  "itoa_table =
     map of_char ''zyxwvutsrqponmlkjihgfedcba9876543210123456789abcdefghijklmnopqrstuvwxyz''"

text \<open>
  The \<^verbatim>\<open>do\<close> loop: the characters written and the last \<open>tmp_value\<close>. C division
  truncates towards zero (\<open>sdiv\<close>).
\<close>

function itoa_loop :: "int \<Rightarrow> bytes \<times> int" where
  "itoa_loop number =
     (let tmp_value = number;
          number = number sdiv 10;
          ch = itoa_table ! nat (35 + (tmp_value - number * 10))
      in if number \<noteq> 0 then (let (cs, v) = itoa_loop number in (ch # cs, v))
         else ([ch], tmp_value))"
  by pat_completeness auto
termination
  by (relation "measure (\<lambda>n. nat \<bar>n\<bar>)") (auto simp: signed_divide_int_def sgn_if split: if_splits)

declare itoa_loop.simps [simp del]

text \<open>The in-place reversal between \<open>ptr1\<close> (index \<open>i\<close>) and \<open>ptr\<close> (index \<open>j\<close>).\<close>

function itoa_swap :: "bytes \<Rightarrow> nat \<Rightarrow> nat \<Rightarrow> bytes" where
  "itoa_swap buf i j =
     (if i < j then itoa_swap (buf[j := buf ! i, i := buf ! j]) (Suc i) (j - 1) else buf)"
  by pat_completeness auto
termination
  by (relation "measure (\<lambda>(buf, i, j). j - i)") auto

declare itoa_swap.simps [simp del]

definition lwip_itoa :: "int \<Rightarrow> bytes" where
  "lwip_itoa number =
     (let (cs, tmp_value) = itoa_loop number;
          cs = (if tmp_value < 0 then cs @ [of_char (CHR ''-'')] else cs)
      in itoa_swap (cs @ [0]) 0 (length cs - 1))"

section \<open>Specification functions\<close>

text \<open>ASCII lower case, and the decimal digits of a number, most significant first.\<close>

definition ascii_lower :: "u8 \<Rightarrow> u8" where
  "ascii_lower c = (if 0x41 \<le> c \<and> c \<le> 0x5a then c + 0x20 else c)"


fun dec_digits :: "nat \<Rightarrow> nat list" where
  "dec_digits n = (if n < 10 then [n] else dec_digits (n div 10) @ [n mod 10])"

declare dec_digits.simps [simp del]

section \<open>Lemmas\<close>

lemma PP_HTONS_bits: "PP_HTONS x = push_bit 8 (take_bit 8 x) OR drop_bit 8 x"
proof (rule bit_word_eqI)
  fix n assume n: "n < LENGTH(16)"
  have m: "(0x00ff :: u16) = mask 8" "(0xff00 :: u16) = push_bit 8 (mask 8)"
    by (simp_all add: mask_numeral push_bit_eq_mult)
  show "bit (PP_HTONS x) n = bit (push_bit 8 (take_bit 8 x) OR drop_bit 8 x) n"
    using n unfolding PP_HTONS_def m by (auto simp: bit_simps dest: bit_imp_le_length)
qed

lemma PP_HTONL_bits:
  "PP_HTONL x = push_bit 24 (take_bit 8 x) OR push_bit 16 (take_bit 8 (drop_bit 8 x)) OR
     push_bit 8 (take_bit 8 (drop_bit 16 x)) OR drop_bit 24 x"
proof (rule bit_word_eqI)
  fix n assume n: "n < LENGTH(32)"
  have m: "(0x000000ff :: u32) = mask 8" "(0x0000ff00 :: u32) = push_bit 8 (mask 8)"
    "(0x00ff0000 :: u32) = push_bit 16 (mask 8)" "(0xff000000 :: u32) = push_bit 24 (mask 8)"
    by (simp_all add: mask_numeral push_bit_eq_mult)
  from n consider "n < 8" | "8 \<le> n" "n < 16" | "16 \<le> n" "n < 24" | "24 \<le> n" "n < 32"
    by fastforce
  then show "bit (PP_HTONL x) n = bit (push_bit 24 (take_bit 8 x) OR
      push_bit 16 (take_bit 8 (drop_bit 8 x)) OR push_bit 8 (take_bit 8 (drop_bit 16 x)) OR
      drop_bit 24 x) n"
    using n unfolding PP_HTONL_def m by cases (auto simp: bit_simps dest: bit_imp_le_length)
qed

lemma le16_bytes_htons: "le16_bytes (lwip_htons n) = rev (le16_bytes n)"
proof -
  have "(ucast (PP_HTONS n) :: u8) = ucast (drop_bit 8 n)"
    and "(ucast (drop_bit 8 (PP_HTONS n)) :: u8) = ucast n"
    unfolding PP_HTONS_bits by (rule bit_word_eqI; auto simp: bit_simps)+
  then show ?thesis by (simp add: le16_bytes_def lwip_htons_def)
qed

lemma le32_bytes_htonl: "le32_bytes (lwip_htonl n) = rev (le32_bytes n)"
proof -
  have "(ucast (PP_HTONL n) :: u8) = ucast (drop_bit 24 n)"
    and "(ucast (drop_bit 8 (PP_HTONL n)) :: u8) = ucast (drop_bit 16 n)"
    and "(ucast (drop_bit 16 (PP_HTONL n)) :: u8) = ucast (drop_bit 8 n)"
    and "(ucast (drop_bit 24 (PP_HTONL n)) :: u8) = ucast n"
    unfolding PP_HTONL_bits by (rule bit_word_eqI; auto simp: bit_simps)+
  then show ?thesis by (simp add: le32_bytes_def lwip_htonl_def)
qed


lemma lwip_htons_htons [simp]: "lwip_htons (lwip_htons n) = n"
  unfolding lwip_htons_def PP_HTONS_bits
  by (rule bit_word_eqI) (auto simp: bit_simps dest: bit_imp_le_length)

lemma lwip_htonl_htonl [simp]: "lwip_htonl (lwip_htonl n) = n"
  by (rule le32_bytes_inj) (simp add: le32_bytes_htonl)


lemma or_0x20: "c OR 0x20 = (if odd (unat c div 32) then c else c + 0x20)" for c :: u8
proof -
  have e: "bit (0x20 :: u8) n \<longleftrightarrow> n = 5" for n
    using bit_exp_iff [of 5 n, where ?'a = u8] by auto
  have b: "bit c 5 \<longleftrightarrow> odd (unat c div 32)"
    using bit_unsigned_iff [of c 5, where ?'a = nat] by (simp add: bit_iff_odd)
  show ?thesis
  proof (cases "bit c 5")
    case True
    then have "c OR 0x20 = c"
      by (intro bit_word_eqI) (auto simp only: bit_or_iff e)
    with True b show ?thesis by simp
  next
    case False
    then have "c AND 0x20 = 0"
      by (intro bit_word_eqI) (auto simp only: bit_and_iff e bit_0_eq)
    then have "c OR 0x20 = c + 0x20" by (simp add: disjunctive_add_eq_or)
    with False b show ?thesis by simp
  qed
qed

lemma u8_block:
  fixes c :: u8
  obtains "unat c < 32" "unat c div 32 = 0" | "32 \<le> unat c" "unat c < 64" "unat c div 32 = 1"
  | "64 \<le> unat c" "unat c < 96" "unat c div 32 = 2" | "96 \<le> unat c" "unat c < 128" "unat c div 32 = 3"
  | "128 \<le> unat c" "unat c < 160" "unat c div 32 = 4" | "160 \<le> unat c" "unat c < 192" "unat c div 32 = 5"
  | "192 \<le> unat c" "unat c < 224" "unat c div 32 = 6" | "224 \<le> unat c" "unat c < 256" "unat c div 32 = 7"
proof -
  have "unat c < 256" using unsigned_less [of c] by simp
  then have "unat c div 32 < 8" by (simp add: less_mult_imp_div_less)
  then have "unat c div 32 \<in> {0, 1, 2, 3, 4, 5, 6, 7}" by (simp, linarith)
  moreover have "unat c div 32 = k \<Longrightarrow> 32 * k \<le> unat c \<and> unat c < 32 * k + 32" for k
    using mult_div_mod_eq [of 32 "unat c"] mod_less_divisor [of 32 "unat c"] by linarith
  note this [of 0] this [of 1] this [of 2] this [of 3] this [of 4] this [of 5] this [of 6] this [of 7]
  ultimately show thesis using that by (elim insertE emptyE) simp_all
qed

lemma unat_or_0x20: "unat (c OR 0x20) = (if odd (unat c div 32) then unat c else unat c + 32)" for c :: u8
  by (rule u8_block [of c]) (simp_all add: or_0x20 unat_word_ariths)

lemma unat_ascii_lower:
  "unat (ascii_lower c) = (if 0x41 \<le> unat c \<and> unat c \<le> 0x5a then unat c + 32 else unat c)"
  by (auto simp: ascii_lower_def word_le_nat_alt unat_word_ariths)

lemma or_0x20_alpha:
  "(0x61 \<le> c OR 0x20 \<and> c OR 0x20 \<le> 0x7a) = (0x61 \<le> ascii_lower c \<and> ascii_lower c \<le> 0x7a)" for c :: u8
  unfolding word_le_nat_alt unat_or_0x20 unat_ascii_lower
  by (rule u8_block [of c]) auto

lemma or_0x20_lower:
  "0x61 \<le> c OR 0x20 \<Longrightarrow> c OR 0x20 \<le> 0x7a \<Longrightarrow> c OR 0x20 = ascii_lower c" for c :: u8
  unfolding word_le_nat_alt word_unat_eq_iff unat_or_0x20 unat_ascii_lower
  by (rule u8_block [of c]) simp_all

lemma ascii_lower_nonalpha: "\<not> (0x61 \<le> ascii_lower c \<and> ascii_lower c \<le> 0x7a) \<Longrightarrow> ascii_lower c = c"
  unfolding ascii_lower_def by (auto simp: word_le_nat_alt unat_word_ariths split: if_splits)

lemma icmp_differ_lower: "icmp_differ c1 c2 \<longleftrightarrow> ascii_lower c1 \<noteq> ascii_lower c2"
proof (cases "0x61 \<le> c1 OR 0x20 \<and> c1 OR 0x20 \<le> 0x7a")
  case True
  then have "icmp_differ c1 c2 \<longleftrightarrow> c1 \<noteq> c2 \<and> ascii_lower c1 \<noteq> c2 OR 0x20"
    using or_0x20_lower [of c1] by (simp add: icmp_differ_def)
  moreover have "ascii_lower c1 = c2 OR 0x20 \<longleftrightarrow> ascii_lower c1 = ascii_lower c2"
    using True or_0x20_alpha [of c1] or_0x20_alpha [of c2] or_0x20_lower [of c2] by metis
  ultimately show ?thesis by blast
next
  case False
  then have "icmp_differ c1 c2 \<longleftrightarrow> c1 \<noteq> c2" by (auto simp: icmp_differ_def)
  moreover have "ascii_lower c1 = ascii_lower c2 \<longleftrightarrow> c1 = c2"
    using False or_0x20_alpha [of c1] ascii_lower_nonalpha [of c1] ascii_lower_nonalpha [of c2] by metis
  ultimately show ?thesis by blast
qed

lemma c_strlen_term [simp]: "0 \<notin> set s \<Longrightarrow> c_strlen (s @ 0 # r) = Some (length s)"
  by (induction s) auto

lemma c_strncmp_eq_prefix:
  "0 \<notin> set h \<Longrightarrow> 0 \<notin> set t \<Longrightarrow>
   c_strncmp_eq (h @ [0]) (t @ [0]) (length t) = Some (take (length t) h = t)"
proof (induction t arbitrary: h)
  case (Cons a t)
  then show ?case by (cases h) auto
qed simp

lemma strnstr_loop_find:
  assumes "0 \<notin> set p" "0 \<notin> set t" "t \<noteq> []"
  shows "strnstr_loop (p @ [0]) (t @ [0]) (length t) n i =
     Some (find (\<lambda>j. j + length t \<le> n \<and> take (length t) (drop (j - i) p) = t) [i..<i + length p])"
  using assms
proof (induction p arbitrary: i)
  case (Cons c p)
  let ?P = "\<lambda>j. j + length t \<le> n \<and> take (length t) (drop (j - i) (c # p)) = t"
  have IH: "strnstr_loop (p @ [0]) (t @ [0]) (length t) n (Suc i) = Some (find ?P [Suc i..<i + length (c # p)])"
  proof -
    have "find ?P [Suc i..<i + length (c # p)] =
      find (\<lambda>j. j + length t \<le> n \<and> take (length t) (drop (j - Suc i) p) = t) [Suc i..<Suc i + length p]"
      by (rule find_cong) (auto simp: Suc_diff_le dest!: le_Suc_ex)
    then show ?thesis using Cons by simp
  qed
  have upt: "[i..<i + length (c # p)] = i # [Suc i..<i + length (c # p)]"
    by (simp add: upt_rec)
  have cmp: "c_strncmp_eq (c # p @ [0]) (t @ [0]) (length t) = Some (take (length t) (c # p) = t)"
    using c_strncmp_eq_prefix [of "c # p" t] Cons.prems by simp
  have hd: "take (length t) (c # p) = t \<Longrightarrow> c = hd (t @ [0])"
    using Cons.prems(3) by (cases t) auto
  have none: "\<not> i + length t \<le> n \<Longrightarrow> find ?P [Suc i..<i + length (c # p)] = None"
    by (auto simp: find_None_iff)
  have "c \<noteq> 0" using Cons.prems(1) by auto
  then have "strnstr_loop ((c # p) @ [0]) (t @ [0]) (length t) n i =
    (if i + length t \<le> n then
       if c = hd (t @ [0]) \<and> take (length t) (c # p) = t then Some (Some i)
       else strnstr_loop (p @ [0]) (t @ [0]) (length t) n (Suc i)
     else Some None)"
    unfolding append_Cons strnstr_loop.simps cmp option.case
    by (cases "take (length t) (c # p) = t"; cases "c = hd (t @ [0])"; simp only: simp_thms if_True if_False bool.case) auto
  also have "\<dots> = (if i + length t \<le> n then
       if take (length t) (c # p) = t then Some (Some i)
       else Some (find ?P [Suc i..<i + length (c # p)])
     else Some None)"
    by (rule if_cong [OF refl _ refl]) (use hd IH in auto)
  also have "\<dots> = Some (find ?P (i # [Suc i..<i + length (c # p)]))"
    using none by (simp only: find.simps) simp
  finally show ?case by (simp only: upt)
qed simp

lemma ascii_lower_0 [simp]: "ascii_lower 0 = 0" "ascii_lower c = 0 \<longleftrightarrow> c = 0" "0 = ascii_lower c \<longleftrightarrow> c = 0"
  using unat_ascii_lower [of 0] unat_ascii_lower [of c] 
  by (auto simp: unat_eq_0 split: if_splits)

lemma lwip_stricmp_lower:
  "0 \<notin> set a \<Longrightarrow> 0 \<notin> set b \<Longrightarrow>
   lwip_stricmp (a @ [0]) (b @ [0]) = Some (if map ascii_lower a = map ascii_lower b then 0 else 1)"
proof (induction a arbitrary: b)
  case Nil
  then show ?case by (cases b) (auto simp: icmp_differ_lower)
next
  case (Cons x a)
  then show ?case by (cases b) (auto simp: icmp_differ_lower)
qed

lemma lwip_strnicmp_lower:
  "0 \<notin> set a \<Longrightarrow> 0 \<notin> set b \<Longrightarrow>
   lwip_strnicmp (a @ [0]) (b @ [0]) len =
     Some (if map ascii_lower (take (Suc len) a) = map ascii_lower (take (Suc len) b) then 0 else 1)"
proof (induction a arbitrary: b len)
  case Nil
  then show ?case by (cases b) (auto simp: icmp_differ_lower)
next
  case (Cons x a)
  then show ?case by (cases b; cases len) (auto simp: icmp_differ_lower)
qed

lemma itoa_swap_rev:
  "itoa_swap (xs @ ys @ zs) (length xs) (length xs + length ys - 1) = xs @ rev ys @ zs"
proof (induction "length ys" arbitrary: xs ys zs rule: less_induct)
  case less
  show ?case
  proof (cases "length ys \<le> 1")
    case True
    then have "\<not> length xs < length xs + length ys - 1" by arith
    moreover have "rev ys = ys" using True by (cases ys) auto
    ultimately show ?thesis by (subst itoa_swap.simps) simp
  next
    case False
    then obtain a ys' where a: "ys = a # ys'" and "ys' \<noteq> []" by (cases ys) auto
    then have ys: "ys = a # butlast ys' @ [last ys']" by simp
    let ?m = "butlast ys'" and ?b = "last ys'"
    let ?l = "xs @ ys @ zs" and ?i = "length xs" and ?j = "length xs + length ys - 1"
    have "?l[?j := ?l ! ?i, ?i := ?l ! ?j] = (xs @ [?b]) @ ?m @ (a # zs)"
      by (simp add: ys nth_append list_update_append)
    then have "itoa_swap ?l ?i ?j = itoa_swap ((xs @ [?b]) @ ?m @ (a # zs)) (length (xs @ [?b])) (length (xs @ [?b]) + length ?m - 1)"
      by (subst itoa_swap.simps) (simp add: ys)
    also have "\<dots> = (xs @ [?b]) @ rev ?m @ (a # zs)"
      by (rule less) (simp add: ys)
    finally show ?thesis by (simp add: ys)
  qed
qed

lemma itoa_table_eq: "itoa_table = [122, 121, 120, 119, 118, 117, 116, 115, 114, 113, 112, 111, 110, 109, 108, 107, 106,
    105, 104, 103, 102, 101, 100, 99, 98, 97, 57, 56, 55, 54, 53, 52, 51, 50, 49, 48, 49, 50, 51, 52, 53, 54, 55,
    56, 57, 97, 98, 99, 100, 101, 102, 103, 104, 105, 106, 107, 108, 109, 110, 111, 112, 113, 114, 115, 116, 117,
    118, 119, 120, 121, 122]"
  by (simp add: itoa_table_def)
lemma itoa_table_nth:
  assumes "-9 \<le> d" "d \<le> 9"
  shows "itoa_table ! nat (35 + d) = word_of_nat (48 + nat \<bar>d\<bar>)"
proof -
  have "d \<in> {-9,-8,-7,-6,-5,-4,-3,-2,-1,0,1,2,3,4,5,6,7,8,9}" using assms by (simp, presburger)
  then show ?thesis by (elim insertE) (simp_all add: itoa_table_eq)
qed

lemma itoa_loop_digits:
  "fst (itoa_loop n) = map (\<lambda>d. word_of_nat (48 + d)) (rev (dec_digits (nat \<bar>n\<bar>))) \<and>
   (snd (itoa_loop n) < 0 \<longleftrightarrow> n < 0)"
proof (induction n rule: itoa_loop.induct)
  case (1 n)
  have q: "n sdiv 10 = sgn n * (\<bar>n\<bar> div 10)" by (simp add: signed_divide_int_def)
  have r: "n - n sdiv 10 * 10 = sgn n * (\<bar>n\<bar> mod 10)"
    unfolding q by (cases n "0::int" rule: linorder_cases) (auto simp: minus_mod_eq_div_mult [symmetric])
  have ch: "itoa_table ! nat (35 + (n - n sdiv 10 * 10)) = word_of_nat (48 + nat \<bar>n\<bar> mod 10)"
  proof -
    have b: "\<bar>n\<bar> mod 10 < 10" "0 \<le> \<bar>n\<bar> mod 10" by simp_all
    have "-9 \<le> sgn n * (\<bar>n\<bar> mod 10) \<and> sgn n * (\<bar>n\<bar> mod 10) \<le> 9"
      using b by (cases n "0::int" rule: linorder_cases) (simp_all, arith+)
    moreover have "nat \<bar>sgn n * (\<bar>n\<bar> mod 10)\<bar> = nat \<bar>n\<bar> mod 10"
      by (simp add: abs_mult sgn_if nat_mod_distrib)
    ultimately show ?thesis unfolding r using itoa_table_nth by metis
  qed
  show ?case
  proof (cases "n sdiv 10 = 0")
    case True
    then have "nat \<bar>n\<bar> < 10" unfolding q by (auto simp: sgn_0_0)
    with True ch show ?thesis
      by (simp add: itoa_loop.simps [of n] dec_digits.simps [of "nat \<bar>n\<bar>"] Let_def)
  next
    case False
    have "nat \<bar>n sdiv 10\<bar> = nat \<bar>n\<bar> div 10" unfolding q by (simp add: abs_mult nat_div_distrib sgn_if)
    moreover have "\<not> nat \<bar>n\<bar> < 10" using False unfolding q by auto
    moreover have "n sdiv 10 < 0 \<longleftrightarrow> n < 0" using False unfolding q by (auto simp: sgn_if split: if_splits)
    ultimately show ?thesis
      using False ch 1 [OF refl refl refl False]
      by (simp add: itoa_loop.simps [of n] dec_digits.simps [of "nat \<bar>n\<bar>"] Let_def split_beta)
  qed
qed

lemma dec_digits_nonempty [simp]: "dec_digits n \<noteq> []"
  by (subst dec_digits.simps) simp

lemma dec_digits_value: "foldl (\<lambda>a d. 10 * a + d) 0 (dec_digits n) = n"
  by (induction n rule: dec_digits.induct) (subst dec_digits.simps, simp)

lemma length_dec_digits: "n < 10 ^ Suc k \<Longrightarrow> length (dec_digits n) \<le> Suc k"
proof (induction k arbitrary: n)
  case (Suc k)
  then have "n div 10 < 10 ^ Suc k" by (simp add: less_mult_imp_div_less mult.commute)
  with Suc.IH [of "n div 10"] show ?case by (subst dec_digits.simps) simp
qed (subst dec_digits.simps, simp)

lemma lwip_itoa_render:
  "lwip_itoa n = (if n < 0 then [45] else []) @ map (\<lambda>d. word_of_nat (48 + d)) (dec_digits (nat \<bar>n\<bar>)) @ [0]"
proof -
  have "itoa_swap (cs @ [0]) 0 (length cs - 1) = rev cs @ [0]" for cs :: bytes
    using itoa_swap_rev [of "[]" cs "[0]"] by simp
  then show ?thesis
    using itoa_loop_digits [of n] by (simp add: lwip_itoa_def split_beta rev_map)
qed

section \<open>Properties\<close>

text \<open>On the little-endian host, \<open>lwip_htons\<close> and \<open>lwip_htonl\<close> store the bytes of a
  value in the opposite (network) order, and each undoes itself, so the macros
  \<^verbatim>\<open>lwip_ntohs\<close> and \<^verbatim>\<open>lwip_ntohl\<close>, which call the same functions, are their inverses.
\<close>

lemma lwip_htonl_network_order:
  "le32_bytes (lwip_htonl n) = rev (le32_bytes n) \<and> lwip_htonl (lwip_htonl n) = n \<and>
   le16_bytes (lwip_htons m) = rev (le16_bytes m) \<and> lwip_htons (lwip_htons m) = m"
  by (simp add: le32_bytes_htonl le16_bytes_htons)

text \<open>C9: on NUL-terminated strings \<open>lwip_strnstr\<close> never reads outside its buffers and returns
  the first position where the token occurs and ends within the first \<open>n\<close> bytes, or NULL;
  an empty token is found at the start.
\<close>

theorem lwip_strnstr_first_match:
  assumes "0 \<notin> set h" "0 \<notin> set t"
  shows "lwip_strnstr (h @ [0]) (t @ [0]) n =
    Some (if t = [] then Some 0
          else find (\<lambda>j. j + length t \<le> n \<and> take (length t) (drop j h) = t) [0..<length h])"
  using assms strnstr_loop_find [of h t n 0] by (simp add: lwip_strnstr_def)

theorem lwip_strnstr_first_match_witness:
  "(0::u8) \<notin> set [97, 98, 97, 98] \<and> (0::u8) \<notin> set [98] \<and>
   lwip_strnstr ([97, 98, 97, 98] @ [0]) ([98] @ [0]) 3 = Some (Some 1)"
  using lwip_strnstr_first_match [of "[97, 98, 97, 98]" "[98]" 3] by (simp add: upt_rec)

text \<open>C10: \<open>lwip_stricmp\<close> returns 0 exactly when the two strings are equal up to ASCII case, and
  never reads past either terminator, while \<open>lwip_strnicmp\<close> with length \<open>len\<close> compares
  the first \<open>len + 1\<close> characters, one more than the strnicmp it stands in for.
\<close>

theorem lwip_strnicmp_compares_len_plus_one:
  assumes "0 \<notin> set a" "0 \<notin> set b"
  shows "lwip_stricmp (a @ [0]) (b @ [0]) =
           Some (if map ascii_lower a = map ascii_lower b then 0 else 1) \<and>
         lwip_strnicmp (a @ [0]) (b @ [0]) len =
           Some (if map ascii_lower (take (Suc len) a) = map ascii_lower (take (Suc len) b)
                 then 0 else 1)"
  using assms by (simp add: lwip_stricmp_lower lwip_strnicmp_lower)

theorem lwip_strnicmp_compares_len_plus_one_witness:
  "(0::u8) \<notin> set [65, 98] \<and> (0::u8) \<notin> set [97, 99] \<and>
   lwip_stricmp ([65, 98] @ [0]) ([97, 99] @ [0]) = Some 1 \<and>
   lwip_strnicmp ([65, 98] @ [0]) ([97, 99] @ [0]) 1 = Some 1 \<and>
   lwip_strnicmp ([65, 98] @ [0]) ([97, 99] @ [0]) 0 = Some 0"
  using lwip_strnicmp_compares_len_plus_one [of "[65, 98]" "[97, 99]" 1]
    lwip_strnicmp_compares_len_plus_one [of "[65, 98]" "[97, 99]" 0]
  by (simp add: ascii_lower_def)

text \<open>\<open>lwip_itoa\<close> writes the decimal representation of every 32-bit \<open>int\<close>, the most
  negative one included: an optional minus sign, the digits (whose value is the number) and
  a terminator, at most 12 bytes. It never consults the buffer size it is given.
\<close>

lemma lwip_itoa_decimal:
  assumes "- (2 ^ 31) \<le> n" "n < 2 ^ 31"
  shows "lwip_itoa n = (if n < 0 then [45] else []) @
           map (\<lambda>d. word_of_nat (48 + d)) (dec_digits (nat \<bar>n\<bar>)) @ [0] \<and>
         foldl (\<lambda>a d. 10 * a + d) 0 (dec_digits (nat \<bar>n\<bar>)) = nat \<bar>n\<bar> \<and>
         length (lwip_itoa n) \<le> 12"
proof -
  have "nat \<bar>n\<bar> < 10 ^ Suc 9" using assms by simp
  then have "length (dec_digits (nat \<bar>n\<bar>)) \<le> Suc 9" by (rule length_dec_digits)
  then have "length (lwip_itoa n) \<le> 12" unfolding lwip_itoa_render by (cases "n < 0") auto
  then show ?thesis by (simp add: lwip_itoa_render dec_digits_value)
qed

end
