(* ===== verification/Pbuf.thy ===== *)
theory Pbuf
  imports Prelude "HOL-Library.Multiset"
begin

text \<open>
  Packet buffers: \<^verbatim>\<open>lwip/src/core/pbuf.c\<close> and \<^verbatim>\<open>lwip/src/include/lwip/pbuf.h\<close>. A pbuf lives in
  a store, a partial map from addresses to records; a pointer is an optional address. \<open>None\<close> as the
  result of an operation is a failed \<^verbatim>\<open>LWIP_ASSERT\<close> or \<^verbatim>\<open>LWIP_ERROR\<close> (both abort in this
  build), an access through NULL or through a released pbuf, an access outside the memory of the
  payload, or a loop that does not end (loops over a chain are partial functions).

  The memory that \<^verbatim>\<open>payload\<close> points into is the list \<open>area\<close> of the pbuf and the pointer is an
  offset into it: for \<^verbatim>\<open>PBUF_RAM\<close> and \<^verbatim>\<open>PBUF_POOL\<close> the bytes after \<^verbatim>\<open>struct pbuf\<close>, for
  the other types the external memory (two pbufs that refer to the same external memory are not
  modelled). The free lists of the two pools are part of the store; \<^verbatim>\<open>mem_malloc\<close> is a
  parameter, the function from the size to the address.
\<close>

section \<open>Data\<close>

datatype pbuf_layer = PBUF_TRANSPORT | PBUF_IP | PBUF_LINK | PBUF_RAW_TX | PBUF_RAW

datatype pbuf_type = PBUF_RAM | PBUF_ROM | PBUF_REF | PBUF_POOL

definition PBUF_FLAG_PUSH :: u8 where "PBUF_FLAG_PUSH = 0x01"
definition PBUF_FLAG_IS_CUSTOM :: u8 where "PBUF_FLAG_IS_CUSTOM = 0x02"
definition PBUF_FLAG_LLBCAST :: u8 where "PBUF_FLAG_LLBCAST = 0x08"
definition PBUF_FLAG_LLMCAST :: u8 where "PBUF_FLAG_LLMCAST = 0x10"

record pbuf =
  pnext :: "nat option"
  payload :: "int option"
  tot_len :: u16
  len :: u16
  ptype :: pbuf_type
  flags :: u8
  ref :: u16
  area :: bytes

text \<open>
  The store. \<open>pool_free\<close> and \<open>ref_free\<close> are the free elements of \<^verbatim>\<open>MEMP_PBUF_POOL\<close> and
  \<^verbatim>\<open>MEMP_PBUF\<close>, \<open>stale\<close> is the content of memory that is not initialised, \<open>custom_freed\<close> the
  calls of \<^verbatim>\<open>custom_free_function\<close>.
\<close>

record pbuf_heap =
  pbufs :: "nat \<rightharpoonup> pbuf"
  pool_free :: "nat list"
  ref_free :: "nat list"
  ooseq_pending :: bool
  custom_freed :: "nat list"
  stale :: "nat \<Rightarrow> nat \<Rightarrow> u8"

section \<open>Sizes of this build\<close>

definition SIZEOF_STRUCT_PBUF :: nat where "SIZEOF_STRUCT_PBUF = 24"
definition PBUF_LINK_ENCAPSULATION_HLEN :: nat where "PBUF_LINK_ENCAPSULATION_HLEN = 0"
definition PBUF_LINK_HLEN :: nat where "PBUF_LINK_HLEN = 16"
definition PBUF_IP_HLEN :: nat where "PBUF_IP_HLEN = 20"
definition PBUF_TRANSPORT_HLEN :: nat where "PBUF_TRANSPORT_HLEN = 20"
definition PBUF_POOL_BUFSIZE_ALIGNED :: nat where "PBUF_POOL_BUFSIZE_ALIGNED = 592"

text \<open>The \<^verbatim>\<open>switch (layer)\<close> that the allocation functions share.\<close>

fun layer_offset :: "pbuf_layer \<Rightarrow> nat" where
  "layer_offset PBUF_TRANSPORT =
     PBUF_LINK_ENCAPSULATION_HLEN + PBUF_LINK_HLEN + PBUF_IP_HLEN + PBUF_TRANSPORT_HLEN"
| "layer_offset PBUF_IP = PBUF_LINK_ENCAPSULATION_HLEN + PBUF_LINK_HLEN + PBUF_IP_HLEN"
| "layer_offset PBUF_LINK = PBUF_LINK_ENCAPSULATION_HLEN + PBUF_LINK_HLEN"
| "layer_offset PBUF_RAW_TX = PBUF_LINK_ENCAPSULATION_HLEN"
| "layer_offset PBUF_RAW = 0"

section \<open>Access to the store\<close>

abbreviation put :: "nat \<Rightarrow> pbuf \<Rightarrow> pbuf_heap \<Rightarrow> pbuf_heap" where
  "put a b h \<equiv> h\<lparr>pbufs := (pbufs h)(a \<mapsto> b)\<rparr>"

definition deref :: "pbuf_heap \<Rightarrow> nat option \<Rightarrow> pbuf option" where
  "deref h p = Option.bind p (pbufs h)"

text \<open>
  Reading and writing \<open>n\<close> bytes at \<^verbatim>\<open>payload + off\<close>; copying no bytes touches no memory.
\<close>

definition payload_read :: "pbuf \<Rightarrow> nat \<Rightarrow> nat \<Rightarrow> bytes option" where
  "payload_read b off n =
     (if n = 0 then Some []
      else case payload b of
          None \<Rightarrow> None
        | Some base \<Rightarrow>
            let s = base + int off
            in if 0 \<le> s \<and> s + int n \<le> int (length (area b)) then Some (take n (drop (nat s) (area b)))
               else None)"

definition payload_write :: "pbuf \<Rightarrow> nat \<Rightarrow> bytes \<Rightarrow> pbuf option" where
  "payload_write b off ds =
     (if ds = [] then Some b
      else case payload b of
          None \<Rightarrow> None
        | Some base \<Rightarrow>
            let s = base + int off
            in if 0 \<le> s \<and> s + int (length ds) \<le> int (length (area b))
               then Some (b\<lparr>area := take (nat s) (area b) @ ds @ drop (nat s + length ds) (area b)\<rparr>)
               else None)"

section \<open>Reference counting\<close>

text \<open>Giving the memory of a pbuf back, by its type.\<close>

definition pbuf_release :: "nat \<Rightarrow> pbuf \<Rightarrow> pbuf_heap \<Rightarrow> pbuf_heap" where
  "pbuf_release a b h =
     (let h' = h\<lparr>pbufs := (pbufs h)(a := None)\<rparr>
      in if flags b AND PBUF_FLAG_IS_CUSTOM \<noteq> 0 then h'\<lparr>custom_freed := a # custom_freed h\<rparr>
         else case ptype b of
             PBUF_POOL \<Rightarrow> h'\<lparr>pool_free := a # pool_free h\<rparr>
           | PBUF_ROM \<Rightarrow> h'\<lparr>ref_free := a # ref_free h\<rparr>
           | PBUF_REF \<Rightarrow> h'\<lparr>ref_free := a # ref_free h\<rparr>
           | PBUF_RAM \<Rightarrow> h')"

partial_function (option) pbuf_free_loop ::
  "nat option \<Rightarrow> u8 \<Rightarrow> pbuf_heap \<Rightarrow> (u8 \<times> pbuf_heap) option" where
  "pbuf_free_loop p cnt h =
     (case p of
        None \<Rightarrow> Some (cnt, h)
      | Some a \<Rightarrow> do {
          b \<leftarrow> pbufs h a;
          lwip_assert (0 < ref b);
          (if ref b - 1 = 0 then pbuf_free_loop (pnext b) (cnt + 1) (pbuf_release a b h)
           else Some (cnt, put a (b\<lparr>ref := ref b - 1\<rparr>) h))
        })"

declare pbuf_free_loop.simps [code]

definition pbuf_free :: "nat option \<Rightarrow> pbuf_heap \<Rightarrow> (u8 \<times> pbuf_heap) option" where
  "pbuf_free p h = do {
     lwip_assert (p \<noteq> None);
     _ \<leftarrow> deref h p;
     pbuf_free_loop p 0 h
   }"

partial_function (option) pbuf_clen_loop :: "nat option \<Rightarrow> u16 \<Rightarrow> pbuf_heap \<Rightarrow> u16 option" where
  "pbuf_clen_loop p n h =
     (case p of
        None \<Rightarrow> Some n
      | Some a \<Rightarrow> do { b \<leftarrow> pbufs h a; pbuf_clen_loop (pnext b) (n + 1) h })"

declare pbuf_clen_loop.simps [code]

definition pbuf_clen :: "nat option \<Rightarrow> pbuf_heap \<Rightarrow> u16 option" where
  "pbuf_clen p h = pbuf_clen_loop p 0 h"

definition pbuf_ref :: "nat option \<Rightarrow> pbuf_heap \<Rightarrow> pbuf_heap option" where
  "pbuf_ref p h =
     (case p of
        None \<Rightarrow> Some h
      | Some a \<Rightarrow> do { b \<leftarrow> pbufs h a; Some (put a (b\<lparr>ref := ref b + 1\<rparr>) h) })"

section \<open>Allocation\<close>

definition pbuf_pool_is_empty :: "pbuf_heap \<Rightarrow> pbuf_heap" where
  "pbuf_pool_is_empty h = h\<lparr>ooseq_pending := True\<rparr>"

text \<open>
  A pool element taken from the free list and initialised. The code clears the flags of the head
  last; they are clear here from the start.
\<close>

definition pool_pbuf :: "pbuf_heap \<Rightarrow> nat \<Rightarrow> nat \<Rightarrow> nat \<Rightarrow> pbuf" where
  "pool_pbuf h a offset tot =
     \<lparr>pnext = None, payload = Some (int offset), tot_len = of_nat tot,
      len = of_nat (min tot (PBUF_POOL_BUFSIZE_ALIGNED - offset)), ptype = PBUF_POOL, flags = 0,
      ref = 1, area = map (stale h a) [0..<PBUF_POOL_BUFSIZE_ALIGNED]\<rparr>"

text \<open>The assertion that the payload stays inside the pool element.\<close>

definition pool_fits :: "pbuf \<Rightarrow> bool" where
  "pool_fits b = (case payload b of None \<Rightarrow> False
     | Some off \<Rightarrow> off + int (unat (len b)) \<le> int PBUF_POOL_BUFSIZE_ALIGNED)"

text \<open>The loop over the tail: \<open>p\<close> is the head, \<open>r\<close> the last pbuf so far.\<close>

function pool_tail ::
  "nat \<Rightarrow> nat \<Rightarrow> nat \<Rightarrow> pbuf_heap \<Rightarrow> (nat option \<times> pbuf_heap) option" where
  "pool_tail p r rem_len h =
     (if rem_len = 0 then Some (Some p, h)
      else case pool_free h of
          [] \<Rightarrow> do { (_, h) \<leftarrow> pbuf_free (Some p) (pbuf_pool_is_empty h); Some (None, h) }
        | q # rest \<Rightarrow> do {
            rb \<leftarrow> pbufs h r;
            lwip_assert (rem_len < 0xffff);
            let qb = pool_pbuf h q 0 rem_len;
            let h' = put q qb (put r (rb\<lparr>pnext := Some q\<rparr>) (h\<lparr>pool_free := rest\<rparr>));
            pb \<leftarrow> pbufs h' p;
            lwip_assert (pool_fits pb);
            pool_tail p q (rem_len - min rem_len PBUF_POOL_BUFSIZE_ALIGNED) h'
          })"
  by pat_completeness auto
termination
  by (relation "measure (\<lambda>(p, r, n, h). n)") (auto simp: PBUF_POOL_BUFSIZE_ALIGNED_def)

declare pool_tail.simps [simp del]

text \<open>
  The size that is asked of \<^verbatim>\<open>mem_malloc\<close> for a \<^verbatim>\<open>PBUF_RAM\<close> has type \<^verbatim>\<open>mem_size_t\<close>, 16
  bits in this build.
\<close>

definition ram_size :: "nat \<Rightarrow> u16 \<Rightarrow> u16" where
  "ram_size offset length' = of_nat (SIZEOF_STRUCT_PBUF + offset + unat length')"

definition pbuf_alloc ::
  "(u16 \<Rightarrow> nat option) \<Rightarrow> pbuf_layer \<Rightarrow> u16 \<Rightarrow> pbuf_type \<Rightarrow> pbuf_heap \<Rightarrow> (nat option \<times> pbuf_heap) option" where
  "pbuf_alloc malloc layer length' type h =
     (let offset = layer_offset layer
      in case type of
          PBUF_POOL \<Rightarrow>
            (case pool_free h of
               [] \<Rightarrow> Some (None, pbuf_pool_is_empty h)
             | p # rest \<Rightarrow> do {
                 let b = pool_pbuf h p offset (unat length');
                 lwip_assert (pool_fits b);
                 lwip_assert (0 < PBUF_POOL_BUFSIZE_ALIGNED - offset);
                 pool_tail p p (unat length' - unat (len b)) (put p b (h\<lparr>pool_free := rest\<rparr>))
               })
        | PBUF_RAM \<Rightarrow>
            (case malloc (ram_size offset length') of
               None \<Rightarrow> Some (None, h)
             | Some p \<Rightarrow>
                 Some (Some p, put p \<lparr>pnext = None, payload = Some (int offset), tot_len = length', len = length',
                   ptype = type, flags = 0, ref = 1,
                   area = map (stale h p) [0..<unat (ram_size offset length') - SIZEOF_STRUCT_PBUF]\<rparr> h))
        | _ \<Rightarrow>
            (case ref_free h of
               [] \<Rightarrow> Some (None, h)
             | p # rest \<Rightarrow>
                 Some (Some p, put p \<lparr>pnext = None, payload = None, tot_len = length', len = length',
                   ptype = type, flags = 0, ref = 1, area = []\<rparr> (h\<lparr>ref_free := rest\<rparr>))))"

text \<open>
  A custom pbuf at the address the caller gives, with the caller's payload memory (\<open>None\<close> for NULL)
  and its length.
\<close>

definition pbuf_alloced_custom ::
  "pbuf_layer \<Rightarrow> u16 \<Rightarrow> pbuf_type \<Rightarrow> nat \<Rightarrow> bytes option \<Rightarrow> u16 \<Rightarrow> pbuf_heap \<Rightarrow> nat option \<times> pbuf_heap" where
  "pbuf_alloced_custom l length' type p payload_mem payload_mem_len h =
     (let offset = layer_offset l
      in if offset + unat length' > unat payload_mem_len then (None, h)
         else (Some p, put p
           \<lparr>pnext = None,
            payload = (case payload_mem of None \<Rightarrow> None | Some _ \<Rightarrow> Some (int offset)),
            tot_len = length', len = length', ptype = type, flags = PBUF_FLAG_IS_CUSTOM, ref = 1,
            area = (case payload_mem of None \<Rightarrow> [] | Some m \<Rightarrow> m)\<rparr> h))"

section \<open>Resizing\<close>

text \<open>The pbufs that stay in the chain: the new last pbuf, the length left for it and the store.\<close>

partial_function (option) realloc_loop ::
  "nat \<Rightarrow> u16 \<Rightarrow> u16 \<Rightarrow> pbuf_heap \<Rightarrow> (nat \<times> u16 \<times> pbuf_heap) option" where
  "realloc_loop q rem_len grow h = do {
     b \<leftarrow> pbufs h q;
     (if len b < rem_len then do {
        q' \<leftarrow> pnext b;
        realloc_loop q' (rem_len - len b) grow (put q (b\<lparr>tot_len := tot_len b + grow\<rparr>) h)
      }
      else Some (q, rem_len, h))
   }"

declare realloc_loop.simps [code]

text \<open>\<^verbatim>\<open>mem_trim\<close> on the pbuf; it refuses to enlarge the block, which fails the assertion.\<close>

definition trim_ram :: "pbuf \<Rightarrow> u16 \<Rightarrow> pbuf option" where
  "trim_ram b rem_len =
     (if ptype b = PBUF_RAM \<and> rem_len \<noteq> len b \<and> flags b AND PBUF_FLAG_IS_CUSTOM = 0 then do {
        off \<leftarrow> payload b;
        let keep = off + int (unat rem_len);
        lwip_assert (0 \<le> keep \<and> keep \<le> int (length (area b)));
        Some (b\<lparr>area := take (nat keep) (area b)\<rparr>)
      }
      else Some b)"

definition pbuf_realloc :: "nat option \<Rightarrow> u16 \<Rightarrow> pbuf_heap \<Rightarrow> pbuf_heap option" where
  "pbuf_realloc p new_len h = do {
     a \<leftarrow> p;
     b \<leftarrow> pbufs h a;
     if tot_len b \<le> new_len then Some h
     else do {
       (q, rem_len, h) \<leftarrow> realloc_loop a new_len (new_len - tot_len b) h;
       qb \<leftarrow> pbufs h q;
       qb \<leftarrow> trim_ram qb rem_len;
       let qb = qb\<lparr>len := rem_len, tot_len := rem_len\<rparr>;
       let h = put q qb h;
       (case pnext qb of
          None \<Rightarrow> Some h
        | Some n \<Rightarrow> do {
            (_, h) \<leftarrow> pbuf_free (Some n) h;
            qb \<leftarrow> pbufs h q;
            Some (put q (qb\<lparr>pnext := None\<rparr>) h)
          })
     }
   }"

text \<open>
  Moving the payload pointer by a signed 16-bit amount (positive to the front); the result is 0
  on success and 1 on failure.
\<close>

definition pbuf_header_impl :: "nat option \<Rightarrow> int \<Rightarrow> bool \<Rightarrow> pbuf_heap \<Rightarrow> (u8 \<times> pbuf_heap) option" where
  "pbuf_header_impl p inc force h = do {
     a \<leftarrow> p;
     if inc = 0 then Some (0, h)
     else do {
       b \<leftarrow> pbufs h a;
       lwip_assert (0 \<le> inc \<or> - inc \<le> int (unat (len b)));
       let moved = b\<lparr>payload := map_option (\<lambda>off. off - inc) (payload b),
                    len := len b + word_of_int inc, tot_len := tot_len b + word_of_int inc\<rparr>;
       (case ptype b of
          PBUF_RAM \<Rightarrow> (case payload moved of
              None \<Rightarrow> None
            | Some off \<Rightarrow> Some (if off < 0 then (1, h) else (0, put a moved h)))
        | PBUF_POOL \<Rightarrow> (case payload moved of
              None \<Rightarrow> None
            | Some off \<Rightarrow> Some (if off < 0 then (1, h) else (0, put a moved h)))
        | _ \<Rightarrow> Some (if inc < 0 \<or> force then (0, put a moved h) else (1, h)))
     }
   }"

definition pbuf_header :: "nat option \<Rightarrow> int \<Rightarrow> pbuf_heap \<Rightarrow> (u8 \<times> pbuf_heap) option" where
  "pbuf_header p inc h = pbuf_header_impl p inc False h"

definition pbuf_header_force :: "nat option \<Rightarrow> int \<Rightarrow> pbuf_heap \<Rightarrow> (u8 \<times> pbuf_heap) option" where
  "pbuf_header_force p inc h = pbuf_header_impl p inc True h"

section \<open>Chaining\<close>

text \<open>The walk to the last pbuf of the head chain, adding the length of the tail on the way.\<close>

partial_function (option) cat_loop :: "nat \<Rightarrow> u16 \<Rightarrow> pbuf_heap \<Rightarrow> (nat \<times> pbuf_heap) option" where
  "cat_loop p t_tot h = do {
     b \<leftarrow> pbufs h p;
     (case pnext b of
        None \<Rightarrow> Some (p, h)
      | Some n \<Rightarrow> cat_loop n t_tot (put p (b\<lparr>tot_len := tot_len b + t_tot\<rparr>) h))
   }"

declare cat_loop.simps [code]

definition pbuf_cat :: "nat option \<Rightarrow> nat option \<Rightarrow> pbuf_heap \<Rightarrow> pbuf_heap option" where
  "pbuf_cat h_p t_p h = do {
     a \<leftarrow> h_p;
     t \<leftarrow> t_p;
     tb \<leftarrow> pbufs h t;
     (l, h) \<leftarrow> cat_loop a (tot_len tb) h;
     b \<leftarrow> pbufs h l;
     lwip_assert (tot_len b = len b);
     Some (put l (b\<lparr>tot_len := tot_len b + tot_len tb, pnext := Some t\<rparr>) h)
   }"

definition pbuf_chain :: "nat option \<Rightarrow> nat option \<Rightarrow> pbuf_heap \<Rightarrow> pbuf_heap option" where
  "pbuf_chain h_p t_p h = do { h \<leftarrow> pbuf_cat h_p t_p h; pbuf_ref t_p h }"

definition pbuf_dechain :: "nat option \<Rightarrow> pbuf_heap \<Rightarrow> (nat option \<times> pbuf_heap) option" where
  "pbuf_dechain p h = do {
     a \<leftarrow> p;
     b \<leftarrow> pbufs h a;
     (case pnext b of
        None \<Rightarrow> do { lwip_assert (tot_len b = len b); Some (None, h) }
      | Some q \<Rightarrow> do {
          qb \<leftarrow> pbufs h q;
          lwip_assert (int (unat (tot_len qb)) = int (unat (tot_len b)) - int (unat (len b)));
          let h = put q (qb\<lparr>tot_len := tot_len b - len b\<rparr>) h;
          let h = put a (b\<lparr>pnext := None, tot_len := len b\<rparr>) h;
          (tail_gone, h) \<leftarrow> pbuf_free (Some q) h;
          Some (if 0 < tail_gone then None else Some q, h)
        })
   }"

section \<open>Copying\<close>

partial_function (option) pbuf_copy_loop ::
  "nat option \<Rightarrow> u16 \<Rightarrow> nat option \<Rightarrow> u16 \<Rightarrow> pbuf_heap \<Rightarrow> pbuf_heap option" where
  "pbuf_copy_loop p_to offset_to p_from offset_from h = do {
     a \<leftarrow> p_to;
     tb \<leftarrow> pbufs h a;
     c \<leftarrow> p_from;
     fb \<leftarrow> pbufs h c;
     let n = (if int (unat (len fb)) - int (unat offset_from) \<le> int (unat (len tb)) - int (unat offset_to)
              then len fb - offset_from else len tb - offset_to);
     ds \<leftarrow> payload_read fb (unat offset_from) (unat n);
     tb \<leftarrow> payload_write tb (unat offset_to) ds;
     let h = put a tb h;
     let offset_to = offset_to + n;
     let offset_from = offset_from + n;
     lwip_assert (offset_to \<le> len tb);
     lwip_assert (offset_from \<le> len fb);
     let (offset_from, p_from) = (if len fb \<le> offset_from then (0, pnext fb) else (offset_from, p_from));
     let (moved, offset_to, p_to) = (if offset_to = len tb then (True, 0, pnext tb) else (False, offset_to, p_to));
     lwip_assert (\<not> moved \<or> p_to \<noteq> None \<or> p_from = None);
     lwip_assert (case deref h p_from of None \<Rightarrow> True | Some b \<Rightarrow> len b \<noteq> tot_len b \<or> pnext b = None);
     lwip_assert (case deref h p_to of None \<Rightarrow> True | Some b \<Rightarrow> len b \<noteq> tot_len b \<or> pnext b = None);
     (if p_from = None then Some h else pbuf_copy_loop p_to offset_to p_from offset_from h)
   }"

declare pbuf_copy_loop.simps [code]

definition pbuf_copy :: "nat option \<Rightarrow> nat option \<Rightarrow> pbuf_heap \<Rightarrow> (err_t \<times> pbuf_heap) option" where
  "pbuf_copy p_to p_from h = do {
     tb \<leftarrow> deref h p_to;
     fb \<leftarrow> deref h p_from;
     lwip_assert (tot_len fb \<le> tot_len tb);
     h \<leftarrow> pbuf_copy_loop p_to 0 p_from 0 h;
     Some (ERR_OK, h)
   }"

text \<open>Writing bytes into an array of the caller.\<close>

definition splice_at :: "bytes \<Rightarrow> nat \<Rightarrow> bytes \<Rightarrow> bytes option" where
  "splice_at dst off ds =
     (if off + length ds \<le> length dst then Some (take off dst @ ds @ drop (off + length ds) dst) else None)"

partial_function (option) copy_partial_loop ::
  "nat option \<Rightarrow> bytes \<Rightarrow> u16 \<Rightarrow> u16 \<Rightarrow> u16 \<Rightarrow> pbuf_heap \<Rightarrow> (u16 \<times> bytes) option" where
  "copy_partial_loop p dataptr left n offset h =
     (case p of
        None \<Rightarrow> Some (left, dataptr)
      | Some a \<Rightarrow>
          if n = 0 then Some (left, dataptr)
          else do {
            b \<leftarrow> pbufs h a;
            (if offset \<noteq> 0 \<and> len b \<le> offset
             then copy_partial_loop (pnext b) dataptr left n (offset - len b) h
             else do {
               let l = min (len b - offset) n;
               ds \<leftarrow> payload_read b (unat offset) (unat l);
               dataptr \<leftarrow> splice_at dataptr (unat left) ds;
               copy_partial_loop (pnext b) dataptr (left + l) (n - l) 0 h
             })
          })"

declare copy_partial_loop.simps [code]

definition pbuf_copy_partial ::
  "nat option \<Rightarrow> bytes option \<Rightarrow> u16 \<Rightarrow> u16 \<Rightarrow> pbuf_heap \<Rightarrow> (u16 \<times> bytes) option" where
  "pbuf_copy_partial buf dataptr n offset h = do {
     lwip_assert (buf \<noteq> None);
     d \<leftarrow> dataptr;
     copy_partial_loop buf d 0 n offset h
   }"

text \<open>The pbuf that holds the byte at an offset, and the offset in it.\<close>

partial_function (option) pbuf_skip_const ::
  "nat option \<Rightarrow> u16 \<Rightarrow> pbuf_heap \<Rightarrow> (nat option \<times> u16) option" where
  "pbuf_skip_const q offset_left h =
     (case q of
        None \<Rightarrow> Some (None, offset_left)
      | Some a \<Rightarrow> do {
          b \<leftarrow> pbufs h a;
          (if len b \<le> offset_left then pbuf_skip_const (pnext b) (offset_left - len b) h
           else Some (q, offset_left))
        })"

declare pbuf_skip_const.simps [code]

definition pbuf_skip :: "nat option \<Rightarrow> u16 \<Rightarrow> pbuf_heap \<Rightarrow> (nat option \<times> u16) option" where
  "pbuf_skip in' in_offset h = pbuf_skip_const in' in_offset h"

partial_function (option) take_loop ::
  "nat option \<Rightarrow> bytes \<Rightarrow> u16 \<Rightarrow> u16 \<Rightarrow> pbuf_heap \<Rightarrow> (u16 \<times> pbuf_heap) option" where
  "take_loop p dataptr total_copy_len copied_total h =
     (if total_copy_len = 0 then Some (copied_total, h)
      else do {
        a \<leftarrow> p;
        b \<leftarrow> pbufs h a;
        let n = min total_copy_len (len b);
        lwip_assert (unat copied_total + unat n \<le> length dataptr);
        b \<leftarrow> payload_write b 0 (take (unat n) (drop (unat copied_total) dataptr));
        take_loop (pnext b) dataptr (total_copy_len - n) (copied_total + n) (put a b h)
      })"

declare take_loop.simps [code]

definition pbuf_take :: "nat option \<Rightarrow> bytes option \<Rightarrow> u16 \<Rightarrow> pbuf_heap \<Rightarrow> (err_t \<times> pbuf_heap) option" where
  "pbuf_take buf dataptr n h = do {
     b \<leftarrow> deref h buf;
     d \<leftarrow> dataptr;
     lwip_assert (n \<le> tot_len b);
     (copied, h) \<leftarrow> take_loop buf d n 0 h;
     lwip_assert (copied = n);
     Some (ERR_OK, h)
   }"

definition pbuf_take_at ::
  "nat option \<Rightarrow> bytes \<Rightarrow> u16 \<Rightarrow> u16 \<Rightarrow> pbuf_heap \<Rightarrow> (err_t \<times> pbuf_heap) option" where
  "pbuf_take_at buf dataptr n offset h = do {
     (q, target_offset) \<leftarrow> pbuf_skip buf offset h;
     (case q of
        None \<Rightarrow> Some (ERR_MEM, h)
      | Some a \<Rightarrow> do {
          b \<leftarrow> pbufs h a;
          if unat target_offset + unat n \<le> unat (tot_len b) then do {
            let first_copy_len = min (len b - target_offset) n;
            lwip_assert (unat first_copy_len \<le> length dataptr);
            b \<leftarrow> payload_write b (unat target_offset) (take (unat first_copy_len) dataptr);
            let h = put a b h;
            let remaining_len = n - first_copy_len;
            if 0 < remaining_len
            then pbuf_take (pnext b) (Some (drop (unat first_copy_len) dataptr)) remaining_len h
            else Some (ERR_OK, h)
          }
          else Some (ERR_MEM, h)
        })
   }"

definition pbuf_coalesce ::
  "(u16 \<Rightarrow> nat option) \<Rightarrow> nat option \<Rightarrow> pbuf_layer \<Rightarrow> pbuf_heap \<Rightarrow> (nat option \<times> pbuf_heap) option" where
  "pbuf_coalesce malloc p layer h = do {
     b \<leftarrow> deref h p;
     if pnext b = None then Some (p, h)
     else do {
       (q, h) \<leftarrow> pbuf_alloc malloc layer (tot_len b) PBUF_RAM h;
       if q = None then Some (p, h)
       else do {
         (err, h) \<leftarrow> pbuf_copy q p h;
         lwip_assert (err = ERR_OK);
         (_, h) \<leftarrow> pbuf_free p h;
         Some (q, h)
       }
     }
   }"

section \<open>Access to single bytes\<close>

text \<open>The result is the byte as an int, or -1.\<close>

definition pbuf_try_get_at :: "nat option \<Rightarrow> u16 \<Rightarrow> pbuf_heap \<Rightarrow> int option" where
  "pbuf_try_get_at p offset h = do {
     (q, q_idx) \<leftarrow> pbuf_skip_const p offset h;
     (case q of
        None \<Rightarrow> Some (- 1)
      | Some a \<Rightarrow> do {
          b \<leftarrow> pbufs h a;
          if q_idx < len b then do { ds \<leftarrow> payload_read b (unat q_idx) 1; Some (uint (hd ds)) }
          else Some (- 1)
        })
   }"

definition pbuf_get_at :: "nat option \<Rightarrow> u16 \<Rightarrow> pbuf_heap \<Rightarrow> u8 option" where
  "pbuf_get_at p offset h = do {
     r \<leftarrow> pbuf_try_get_at p offset h;
     Some (if 0 \<le> r then word_of_int r else 0)
   }"

definition pbuf_put_at :: "nat option \<Rightarrow> u16 \<Rightarrow> u8 \<Rightarrow> pbuf_heap \<Rightarrow> pbuf_heap option" where
  "pbuf_put_at p offset d h = do {
     (q, q_idx) \<leftarrow> pbuf_skip p offset h;
     (case q of
        None \<Rightarrow> Some h
      | Some a \<Rightarrow> do {
          b \<leftarrow> pbufs h a;
          if q_idx < len b then do { b \<leftarrow> payload_write b (unat q_idx) [d]; Some (put a b h) }
          else Some h
        })
   }"

section \<open>Comparing and searching\<close>

function memcmp_loop :: "nat option \<Rightarrow> u16 \<Rightarrow> bytes \<Rightarrow> nat \<Rightarrow> nat \<Rightarrow> pbuf_heap \<Rightarrow> u16 option" where
  "memcmp_loop q start s2 n i h =
     (if i < n then do {
        a \<leftarrow> pbuf_get_at q (start + of_nat i) h;
        if i < length s2
        then (if a \<noteq> s2 ! i then Some (of_nat i + 1) else memcmp_loop q start s2 n (Suc i) h)
        else None
      }
      else Some 0)"
  by pat_completeness auto
termination
  by (relation "measure (\<lambda>(q, st, s2, n, i, h). n - i)") auto

declare memcmp_loop.simps [simp del]

definition pbuf_memcmp :: "nat option \<Rightarrow> u16 \<Rightarrow> bytes \<Rightarrow> u16 \<Rightarrow> pbuf_heap \<Rightarrow> u16 option" where
  "pbuf_memcmp p offset s2 n h = do {
     b \<leftarrow> deref h p;
     if unat (tot_len b) < unat offset + unat n then Some 0xffff
     else do {
       (q, start) \<leftarrow> pbuf_skip_const p offset h;
       memcmp_loop q start s2 (unat n) 0 h
     }
   }"

partial_function (option) memfind_loop ::
  "nat option \<Rightarrow> bytes \<Rightarrow> u16 \<Rightarrow> u16 \<Rightarrow> u16 \<Rightarrow> pbuf_heap \<Rightarrow> u16 option" where
  "memfind_loop p mem mem_len max_i i h =
     (if i \<le> max_i then do {
        plus \<leftarrow> pbuf_memcmp p i mem mem_len h;
        (if plus = 0 then Some i else memfind_loop p mem mem_len max_i (i + 1) h)
      }
      else Some 0xFFFF)"

declare memfind_loop.simps [code]

definition pbuf_memfind :: "nat option \<Rightarrow> bytes \<Rightarrow> u16 \<Rightarrow> u16 \<Rightarrow> pbuf_heap \<Rightarrow> u16 option" where
  "pbuf_memfind p mem mem_len start_offset h = do {
     b \<leftarrow> deref h p;
     let max_i = tot_len b - mem_len;
     if unat mem_len + unat start_offset \<le> unat (tot_len b)
     then memfind_loop p mem mem_len max_i start_offset h
     else Some 0xFFFF
   }"

text \<open>\<open>substr\<close> is the bytes of the C string without its terminator.\<close>

definition pbuf_strstr :: "nat option \<Rightarrow> bytes option \<Rightarrow> pbuf_heap \<Rightarrow> u16 option" where
  "pbuf_strstr p substr h =
     (case substr of
        None \<Rightarrow> Some 0xFFFF
      | Some s \<Rightarrow>
          if s = [] then Some 0xFFFF
          else do {
            b \<leftarrow> deref h p;
            if tot_len b = 0xFFFF then Some 0xFFFF
            else if 0xFFFF \<le> length s then Some 0xFFFF
            else pbuf_memfind p s (of_nat (length s)) 0 h
          })"

section \<open>Chains as lists\<close>

text \<open>The pbufs reached from a pointer, with their addresses.\<close>

fun chain :: "(nat \<rightharpoonup> pbuf) \<Rightarrow> nat option \<Rightarrow> (nat \<times> pbuf) list \<Rightarrow> bool" where
  "chain m p [] \<longleftrightarrow> p = None"
| "chain m p ((a, b) # xs) \<longleftrightarrow> p = Some a \<and> m a = Some b \<and> chain m (pnext b) xs"

text \<open>The payload of a pbuf lies inside its memory.\<close>

definition payload_ok :: "pbuf \<Rightarrow> bool" where
  "payload_ok b \<longleftrightarrow>
     len b = 0 \<or> (\<exists>off. payload b = Some off \<and> 0 \<le> off \<and> nat off + unat (len b) \<le> length (area b))"

definition pdata :: "pbuf \<Rightarrow> bytes" where
  "pdata b = (case payload b of None \<Rightarrow> [] | Some off \<Rightarrow> take (unat (len b)) (drop (nat off) (area b)))"

definition total_len :: "pbuf list \<Rightarrow> nat" where
  "total_len bs = sum_list (map (\<lambda>b. unat (len b)) bs)"

definition content :: "pbuf list \<Rightarrow> bytes" where
  "content bs = concat (map pdata bs)"

text \<open>One packet: payloads in their memory and the documented invariant of \<^verbatim>\<open>tot_len\<close>.\<close>

fun packet :: "pbuf list \<Rightarrow> bool" where
  "packet [] \<longleftrightarrow> True"
| "packet (b # bs) \<longleftrightarrow> payload_ok b \<and> unat (tot_len b) = unat (len b) + total_len bs \<and> packet bs"

lemma total_len_simps [simp]: "total_len [] = 0" "total_len (b # bs) = unat (len b) + total_len bs"
    "total_len (bs @ cs) = total_len bs + total_len cs"
  by (simp_all add: total_len_def)

lemma content_simps [simp]: "content [] = []" "content (b # bs) = pdata b @ content bs"
    "content (bs @ cs) = content bs @ content cs"
  by (simp_all add: content_def)

lemma length_pdata [simp]: "payload_ok b \<Longrightarrow> length (pdata b) = unat (len b)"
  by (auto simp: payload_ok_def pdata_def split: option.splits)

lemma length_content: "packet bs \<Longrightarrow> length (content bs) = total_len bs"
  by (induction bs) simp_all

lemma chain_fun_upd [simp]:
  "a \<notin> fst ` set xs \<Longrightarrow> chain (m(a := v)) p xs = chain m p xs"
  by (induction m p xs rule: chain.induct) auto

lemma chain_unique: "chain m p xs \<Longrightarrow> chain m p ys \<Longrightarrow> xs = ys"
proof (induction m p xs arbitrary: ys rule: chain.induct)
  case (1 m p)
  then show ?case by (cases ys) auto
next
  case (2 m p a b xs)
  then obtain ys' where ys: "ys = (a, b) # ys'" "chain m (pnext b) ys'" by (cases ys) auto
  from 2(1) [OF _ ys(2)] 2(2) ys(1) show ?case by (simp only: chain.simps)
qed

lemma chain_suffix: "chain m p (xs @ (a, b) # ys) \<Longrightarrow> chain m (Some a) ((a, b) # ys)"
  by (induction xs arbitrary: p) auto

lemma chain_distinct: "chain m p xs \<Longrightarrow> distinct (map fst xs)"
proof (induction m p xs rule: chain.induct)
  case (2 m p a b xs)
  have "a \<notin> fst ` set xs"
  proof
    assume "a \<in> fst ` set xs"
    then obtain b' where "(a, b') \<in> set xs" by auto
    then obtain us vs where xs: "xs = us @ (a, b') # vs" by (auto dest: split_list)
    then have "chain m (Some a) ((a, b') # vs)" using 2(2) by (auto dest: chain_suffix)
    moreover have "chain m (Some a) ((a, b) # xs)" using 2(2) by simp
    ultimately have "(a, b') # vs = (a, b) # xs" by (rule chain_unique)
    then show False using xs by simp
  qed
  then show ?case using 2 by simp
qed simp

lemma chain_lookup: "chain m p xs \<Longrightarrow> (a, b) \<in> set xs \<Longrightarrow> m a = Some b"
  by (induction m p xs rule: chain.induct) auto

lemma payload_read_eq:
  assumes "payload_ok b" "off + n \<le> unat (len b)"
  shows "payload_read b off n = Some (take n (drop off (pdata b)))"
proof (cases "n = 0")
  case False
  with assms obtain base where base: "payload b = Some base" "0 \<le> base" "nat base + unat (len b) \<le> length (area b)"
    by (auto simp: payload_ok_def)
  then have r: "base + int off + int n \<le> int (length (area b))" "nat (base + int off) = nat base + off"
    using assms(2) by linarith+
  have "take n (drop (nat base + off) (area b)) = take n (drop off (take (unat (len b)) (drop (nat base) (area b))))"
    using assms(2) by (simp add: drop_take min_def add.commute)
  then show ?thesis
    using False base r by (simp add: payload_read_def pdata_def Let_def)
qed (simp add: payload_read_def)

section \<open>Releasing chains\<close>

lemma pbufs_release [simp]: "pbufs (pbuf_release a b h) = (pbufs h)(a := None)"
  by (simp add: pbuf_release_def Let_def split: pbuf_type.splits)

definition release_all :: "(nat \<times> pbuf) list \<Rightarrow> pbuf_heap \<Rightarrow> pbuf_heap" where
  "release_all xs h = fold (\<lambda>(a, b). pbuf_release a b) xs h"

lemma release_all_simps [simp]: "release_all [] h = h"
    "release_all ((a, b) # xs) h = release_all xs (pbuf_release a b h)"
    "release_all (xs @ ys) h = release_all ys (release_all xs h)"
  by (simp_all add: release_all_def)

lemma pbufs_release_all: "pbufs (release_all xs h) a = (if a \<in> fst ` set xs then None else pbufs h a)"
proof (induction xs arbitrary: h)
  case (Cons x xs)
  obtain c b where x: "x = (c, b)" by (cases x)
  show ?case by (simp add: x Cons)
qed simp

text \<open>What dropping one reference to a chain does: the pbufs in front with one reference go, the
  first one with more keeps one less.\<close>

definition unref_chain :: "(nat \<times> pbuf) list \<Rightarrow> pbuf_heap \<Rightarrow> pbuf_heap" where
  "unref_chain xs h =
     (let h' = release_all (takeWhile (\<lambda>(a, b). ref b = 1) xs) h
      in case dropWhile (\<lambda>(a, b). ref b = 1) xs of
           [] \<Rightarrow> h'
         | (a, b) # _ \<Rightarrow> put a (b\<lparr>ref := ref b - 1\<rparr>) h')"

definition live_refs :: "(nat \<times> pbuf) list \<Rightarrow> bool" where
  "live_refs xs \<longleftrightarrow> (\<forall>(a, b) \<in> set xs. 0 < ref b)"

lemma live_refs_simps [simp]: "live_refs []" "live_refs ((a, b) # xs) \<longleftrightarrow> 0 < ref b \<and> live_refs xs"
    "live_refs (xs @ ys) \<longleftrightarrow> live_refs xs \<and> live_refs ys"
  by (auto simp: live_refs_def)

lemma pbuf_free_loop_eq:
  "chain (pbufs h) p xs \<Longrightarrow> live_refs xs \<Longrightarrow>
   pbuf_free_loop p c h = Some (c + of_nat (length (takeWhile (\<lambda>(a, b). ref b = 1) xs)), unref_chain xs h)"
proof (induction xs arbitrary: p c h)
  case Nil
  then show ?case by (subst pbuf_free_loop.simps) (simp add: unref_chain_def)
next
  case (Cons x xs)
  obtain a b where x: "x = (a, b)" by (cases x)
  have d: "a \<notin> fst ` set xs" using chain_distinct [OF Cons(2)] x by auto
  have r: "0 < ref b" using Cons(3) x by simp
  show ?case
  proof (cases "ref b = 1")
    case True
    have "chain (pbufs (pbuf_release a b h)) (pnext b) xs" using Cons(2) x d by simp
    from Cons(1) [OF this, of "c + 1"] have "pbuf_free_loop (pnext b) (c + 1) (pbuf_release a b h) =
        Some (c + 1 + of_nat (length (takeWhile (\<lambda>(a, b). ref b = 1) xs)), unref_chain xs (pbuf_release a b h))"
      using Cons(3) x by simp
    then show ?thesis
      using Cons(2) x True by (subst pbuf_free_loop.simps) (simp add: unref_chain_def add.assoc)
  next
    case False
    then show ?thesis
      using Cons(2) x r by (subst pbuf_free_loop.simps) (simp add: unref_chain_def)
  qed
qed

lemma pbuf_free_eq:
  assumes "chain (pbufs h) p xs" "xs \<noteq> []" "live_refs xs"
  shows "pbuf_free p h = Some (of_nat (length (takeWhile (\<lambda>(a, b). ref b = 1) xs)), unref_chain xs h)"
proof -
  obtain a b ys where "xs = (a, b) # ys" using assms(2) by (cases xs) auto
  then show ?thesis
    using assms pbuf_free_loop_eq [OF assms(1,3), of 0] by (simp add: pbuf_free_def deref_def)
qed

lemma unref_chain_all: "\<forall>(a, b) \<in> set xs. ref b = 1 \<Longrightarrow> unref_chain xs h = release_all xs h"
proof -
  assume "\<forall>(a, b) \<in> set xs. ref b = 1"
  then have "takeWhile (\<lambda>(a, b). ref b = 1) xs = xs" "dropWhile (\<lambda>(a, b). ref b = 1) xs = []"
    by (auto simp: takeWhile_eq_all_conv)
  then show ?thesis unfolding unref_chain_def Let_def by (simp only: list.case)
qed

lemma pbuf_clen_loop_eq:
  "chain (pbufs h) p xs \<Longrightarrow> pbuf_clen_loop p n h = Some (n + of_nat (length xs))"
proof (induction xs arbitrary: p n)
  case Nil
  then show ?case by (subst pbuf_clen_loop.simps) simp
next
  case (Cons x xs)
  obtain a b where x: "x = (a, b)" by (cases x)
  have "pbuf_clen_loop (pnext b) (n + 1) h = Some (n + 1 + of_nat (length xs))"
    using Cons(2) x by (intro Cons(1)) simp
  then show ?case using Cons(2) x by (subst pbuf_clen_loop.simps) (simp add: add.assoc)
qed

section \<open>Reading chains\<close>

lemma copy_partial_loop_eq:
  assumes "chain (pbufs h) p xs" "packet (map snd xs)" "unat left + unat n \<le> length dst"
     "unat left + unat n < 65536"
  shows "\<exists>ds. copy_partial_loop p dst left n offset h =
      Some (left + of_nat (length ds), take (unat left) dst @ ds @ drop (unat left + length ds) dst) \<and>
    ds = take (unat n) (drop (unat offset) (content (map snd xs)))"
  using assms
proof (induction xs arbitrary: p dst left n offset)
  case Nil
  then show ?case by (subst copy_partial_loop.simps) simp
next
  case (Cons x xs)
  obtain a b where x: "x = (a, b)" by (cases x)
  have p: "p = Some a" "pbufs h a = Some b" "chain (pbufs h) (pnext b) xs"
      "payload_ok b" "packet (map snd xs)"
    using Cons(2,3) x by simp_all
  show ?case
  proof (cases "n = 0")
    case True
    then show ?thesis using p by (subst copy_partial_loop.simps) simp
  next
    case n: False
    show ?thesis
    proof (cases "offset \<noteq> 0 \<and> len b \<le> offset")
      case True
      have "drop (unat (offset - len b)) (content (map snd xs)) = drop (unat offset) (content (map snd (x # xs)))"
        using True p x by (simp add: unat_sub word_le_nat_alt)
      with Cons(1) [OF p(3,5) Cons(4,5), of "offset - len b"] True p n
      show ?thesis by (subst copy_partial_loop.simps) simp
    next
      case False
      then have off: "unat offset \<le> unat (len b)" by (auto simp: word_le_nat_alt)
      define l where "l = min (len b - offset) n"
      have l: "unat l = min (unat (len b) - unat offset) (unat n)"
        using off by (simp add: l_def unat_min unat_minus)
      define d1 where "d1 = take (unat l) (drop (unat offset) (pdata b))"
      have rd: "payload_read b (unat offset) (unat l) = Some d1"
        unfolding d1_def using l off by (intro payload_read_eq [OF p(4)]) simp
      have ld: "length d1 = unat l" using l p(4) by (simp add: d1_def)
      have step: "copy_partial_loop p dst left n offset h = do {
           dst' \<leftarrow> splice_at dst (unat left) d1; copy_partial_loop (pnext b) dst' (left + l) (n - l) 0 h }"
        using p n False rd by (subst copy_partial_loop.simps) (auto simp: l_def [symmetric])
      define dst' where "dst' = take (unat left) dst @ d1 @ drop (unat left + length d1) dst"
      have u: "unat (left + l) = unat left + unat l" "unat (n - l) = unat n - unat l"
        using l Cons(5) by (simp_all add: unat_add_u16 unat_minus)
      have dst': "splice_at dst (unat left) d1 = Some dst'" "length dst' = length dst"
        using ld l Cons(4) by (simp_all add: splice_at_def dst'_def)
      let ?ds = "take (unat (n - l)) (content (map snd xs))"
      have ds: "d1 @ ?ds = take (unat n) (drop (unat offset) (content (map snd (x # xs))))"
        using off l u(2) p(4) x by (auto simp: d1_def min_def take_drop)
      have bounds: "unat (left + l) + unat (n - l) \<le> length dst'" "unat (left + l) + unat (n - l) < 65536"
        using Cons(4,5) l by (simp_all only: u dst'(2))
      from Cons(1) [OF p(3,5) bounds, of 0]
      have "copy_partial_loop (pnext b) dst' (left + l) (n - l) 0 h =
        Some (left + l + of_nat (length ?ds), take (unat (left + l)) dst' @ ?ds @ drop (unat (left + l) + length ?ds) dst')"
        by simp
      moreover have "take (unat (left + l)) dst' @ ?ds @ drop (unat (left + l) + length ?ds) dst' =
        take (unat left) dst @ (d1 @ ?ds) @ drop (unat left + length (d1 @ ?ds)) dst"
        using Cons(4) l ld overwrite_take_drop [of "unat left" d1 dst] by (simp add: u dst'_def add.assoc)
      moreover have "left + l + of_nat (length ?ds) = left + of_nat (length (d1 @ ?ds))"
        using ld by simp
      ultimately show ?thesis
        unfolding step dst'(1) ds [symmetric] by (simp only: Option.bind.bind_lunit) blast
    qed
  qed
qed

section \<open>Linked lists and the store\<close>

text \<open>The \<^verbatim>\<open>next\<close> pointers of a list of pbufs, from one pointer up to another.\<close>

fun linked :: "nat option \<Rightarrow> (nat \<times> pbuf) list \<Rightarrow> nat option \<Rightarrow> bool" where
  "linked p [] q \<longleftrightarrow> p = q"
| "linked p ((a, b) # xs) q \<longleftrightarrow> p = Some a \<and> linked (pnext b) xs q"

definition stored :: "(nat \<rightharpoonup> pbuf) \<Rightarrow> (nat \<times> pbuf) list \<Rightarrow> bool" where
  "stored m xs \<longleftrightarrow> (\<forall>(a, b) \<in> set xs. m a = Some b)"

text \<open>The store with every pbuf of a list written back.\<close>

definition put_all :: "(nat \<times> pbuf) list \<Rightarrow> pbuf_heap \<Rightarrow> pbuf_heap" where
  "put_all xs h = h\<lparr>pbufs := pbufs h ++ map_of xs\<rparr>"

lemma stored_simps [simp]: "stored m []" "stored m ((a, b) # xs) \<longleftrightarrow> m a = Some b \<and> stored m xs"
    "stored m (xs @ ys) \<longleftrightarrow> stored m xs \<and> stored m ys"
  by (auto simp: stored_def)

lemma chain_linked: "chain m p xs \<longleftrightarrow> linked p xs None \<and> stored m xs"
  by (induction m p xs rule: chain.induct) auto

lemma linked_append: "linked p (xs @ ys) q \<longleftrightarrow> (\<exists>r. linked p xs r \<and> linked r ys q)"
  by (induction p xs q rule: linked.induct) auto

lemma stored_put_all [simp]: "distinct (map fst xs) \<Longrightarrow> stored (pbufs (put_all xs h)) xs"
  by (auto simp: stored_def put_all_def map_add_Some_iff)

lemma pbufs_put_all_other: "a \<notin> fst ` set xs \<Longrightarrow> pbufs (put_all xs h) a = pbufs h a"
  by (simp add: put_all_def map_add_dom_app_simps dom_map_of_conv_image_fst)

lemma stored_put_all_other [simp]:
  "fst ` set xs \<inter> fst ` set ys = {} \<Longrightarrow> stored (pbufs (put_all xs h)) ys = stored (pbufs h) ys"
proof -
  assume "fst ` set xs \<inter> fst ` set ys = {}"
  then have "pbufs (put_all xs h) a = pbufs h a" if "(a, b) \<in> set ys" for a b
    using that by (intro pbufs_put_all_other) force
  then show ?thesis by (auto simp: stored_def)
qed

lemma put_put_all: "a \<notin> fst ` set xs \<Longrightarrow> put_all xs (put a b h) = put_all ((a, b) # xs) h"
  by (simp add: put_all_def map_add_upd_left dom_map_of_conv_image_fst)

lemma put_all_stored: "stored (pbufs h) xs \<Longrightarrow> put_all xs h = h"
proof -
  assume "stored (pbufs h) xs"
  then have "pbufs h a = Some b" if "map_of xs a = Some b" for a b using map_of_SomeD [OF that] by (auto simp: stored_def)
  then have "pbufs h ++ map_of xs = pbufs h" by (auto simp: map_add_def fun_eq_iff split: option.splits)
  then show ?thesis by (simp add: put_all_def)
qed

lemma put_all_single [simp]: "put_all [] h = h" "put_all [(a, b)] h = put a b h"
  by (simp_all add: put_all_def)

text \<open>A part of a packet that is followed by \<open>k\<close> more bytes.\<close>

fun packet_with :: "pbuf list \<Rightarrow> nat \<Rightarrow> bool" where
  "packet_with [] k \<longleftrightarrow> True"
| "packet_with (b # bs) k \<longleftrightarrow>
     payload_ok b \<and> unat (tot_len b) = unat (len b) + total_len bs + k \<and> packet_with bs k"

lemma packet_with_0: "packet bs = packet_with bs 0"
  by (induction bs) auto

lemma packet_with_append:
  "packet_with (bs @ cs) k \<longleftrightarrow> packet_with bs (total_len cs + k) \<and> packet_with cs k"
  by (induction bs) auto

lemma packet_append: "packet (bs @ cs) \<longleftrightarrow> packet_with bs (total_len cs) \<and> packet cs"
  by (simp add: packet_with_0 packet_with_append)

section \<open>Concatenation\<close>

text \<open>Adding \<open>k\<close> to \<^verbatim>\<open>tot_len\<close> in front of the last pbuf and linking the last to the tail.\<close>

fun link_tail :: "u16 \<Rightarrow> nat \<Rightarrow> (nat \<times> pbuf) list \<Rightarrow> (nat \<times> pbuf) list" where
  "link_tail k t [] = []"
| "link_tail k t [(a, b)] = [(a, b\<lparr>tot_len := tot_len b + k, pnext := Some t\<rparr>)]"
| "link_tail k t ((a, b) # xs) = (a, b\<lparr>tot_len := tot_len b + k\<rparr>) # link_tail k t xs"

lemma fst_link_tail [simp]: "map fst (link_tail k t xs) = map fst xs"
  by (induction k t xs rule: link_tail.induct) simp_all

lemma set_fst_link_tail [simp]: "fst ` set (link_tail k t xs) = fst ` set xs"
  by (metis fst_link_tail list.set_map)

lemma payload_ok_update [simp]:
  "payload_ok (b\<lparr>tot_len := x\<rparr>) = payload_ok b" "payload_ok (b\<lparr>pnext := y\<rparr>) = payload_ok b"
  "payload_ok (b\<lparr>ref := z\<rparr>) = payload_ok b"
  by (simp_all add: payload_ok_def)

lemma pdata_update [simp]:
  "pdata (b\<lparr>tot_len := x\<rparr>) = pdata b" "pdata (b\<lparr>pnext := y\<rparr>) = pdata b" "pdata (b\<lparr>ref := z\<rparr>) = pdata b"
  by (simp_all add: pdata_def split: option.split)

lemma content_link_tail [simp]: "content (map snd (link_tail k t xs)) = content (map snd xs)"
  by (induction k t xs rule: link_tail.induct) simp_all

lemma total_link_tail [simp]: "total_len (map snd (link_tail k t xs)) = total_len (map snd xs)"
  by (induction k t xs rule: link_tail.induct) simp_all

lemma packet_link_tail:
  "packet (map snd xs) \<Longrightarrow> total_len (map snd xs) + unat k < 65536 \<Longrightarrow>
   packet_with (map snd (link_tail k t xs)) (unat k)"
  by (induction k t xs rule: link_tail.induct) (simp_all add: unat_add_u16)

lemma linked_link_tail: "linked p xs None \<Longrightarrow> xs \<noteq> [] \<Longrightarrow> linked p (link_tail k t xs) (Some t)"
  by (induction k t xs arbitrary: p rule: link_tail.induct) auto

lemma cat_loop_eq:
  "chain (pbufs h) (Some a) xs \<Longrightarrow> packet (map snd xs) \<Longrightarrow>
   \<exists>l b h'. cat_loop a k h = Some (l, h') \<and> pbufs h' l = Some b \<and> tot_len b = len b \<and>
     put l (b\<lparr>tot_len := tot_len b + k, pnext := Some t\<rparr>) h' = put_all (link_tail k t xs) h"
proof (induction xs arbitrary: a h)
  case (Cons x xs)
  obtain b where x: "x = (a, b)" using Cons(2) by (cases x) simp
  show ?case
  proof (cases xs)
    case Nil
    then have "tot_len b = len b" using Cons(3) x by (simp add: word_unat_eq_iff)
    then show ?thesis using Cons(2) x Nil by (subst cat_loop.simps) auto
  next
    case (Cons y ys)
    obtain c d where y: "y = (c, d)" by (cases y)
    have dist: "a \<notin> fst ` set xs" using chain_distinct [OF Cons.prems(1)] x by auto
    have nx: "pnext b = Some c" "pbufs h a = Some b" "chain (pbufs h) (Some c) xs"
      using Cons.prems(1) x Cons y by simp_all
    let ?h = "put a (b\<lparr>tot_len := tot_len b + k\<rparr>) h"
    have "chain (pbufs ?h) (Some c) xs" using nx(3) dist by simp
    moreover have "packet (map snd xs)" using Cons.prems(2) x by simp
    ultimately obtain l b' h' where IH: "cat_loop c k ?h = Some (l, h')" "pbufs h' l = Some b'" "tot_len b' = len b'"
        "put l (b'\<lparr>tot_len := tot_len b' + k, pnext := Some t\<rparr>) h' = put_all (link_tail k t xs) ?h"
      using Cons.IH by blast
    have eq: "put_all (link_tail k t xs) ?h = put_all (link_tail k t (x # xs)) h"
      using dist x y Cons by (subst put_put_all) simp_all
    have "cat_loop a k h = Some (l, h')" using nx IH(1) by (subst cat_loop.simps) simp
    then show ?thesis using IH(2,3) IH(4) [unfolded eq] by blast
  qed
qed simp

lemma pbuf_cat_eq:
  assumes "chain (pbufs h) (Some a) xs" "packet (map snd xs)" "pbufs h t = Some tb"
  shows "pbuf_cat (Some a) (Some t) h = Some (put_all (link_tail (tot_len tb) t xs) h)"
proof -
  obtain l b h' where "cat_loop a (tot_len tb) h = Some (l, h')" "pbufs h' l = Some b" "tot_len b = len b"
     "put l (b\<lparr>tot_len := tot_len b + tot_len tb, pnext := Some t\<rparr>) h' = put_all (link_tail (tot_len tb) t xs) h"
    using cat_loop_eq [OF assms(1,2)] by blast
  then show ?thesis using assms(3) by (simp only: pbuf_cat_def Option.bind.bind_lunit prod.case) simp
qed

lemma chain_cat:
  assumes "chain (pbufs h) (Some a) xs" "chain (pbufs h) (Some t) ys" "fst ` set xs \<inter> fst ` set ys = {}"
  shows "chain (pbufs (put_all (link_tail k t xs) h)) (Some a) (link_tail k t xs @ ys)"
proof -
  have "xs \<noteq> []" using assms(1) by auto
  then have "linked (Some a) (link_tail k t xs @ ys) None"
    using assms(1,2) linked_link_tail [of "Some a" xs k t] by (auto simp: chain_linked linked_append)
  moreover have "distinct (map fst (link_tail k t xs))" using chain_distinct [OF assms(1)] by simp
  ultimately show ?thesis using assms(2,3) by (simp add: chain_linked)
qed

section \<open>Shrinking\<close>

definition bump :: "u16 \<Rightarrow> (nat \<times> pbuf) list \<Rightarrow> (nat \<times> pbuf) list" where
  "bump g = map (\<lambda>(a, b). (a, b\<lparr>tot_len := tot_len b + g\<rparr>))"

lemma bump_simps [simp]: "bump g [] = []" "bump g ((a, b) # xs) = (a, b\<lparr>tot_len := tot_len b + g\<rparr>) # bump g xs"
  by (simp_all add: bump_def)

lemma fst_bump [simp]: "map fst (bump g xs) = map fst xs" "fst ` set (bump g xs) = fst ` set xs"
  by (auto simp: bump_def image_image case_prod_beta)

lemma content_bump [simp]: "content (map snd (bump g xs)) = content (map snd xs)"
    "total_len (map snd (bump g xs)) = total_len (map snd xs)"
  by (induction xs) auto

lemma linked_bump [simp]: "linked p (bump g xs) q = linked p xs q"
  by (induction p xs q rule: linked.induct) auto

lemma packet_bump:
  "packet_with (map snd xs) (k + unat d) \<Longrightarrow> packet_with (map snd (bump (- d) xs)) k"
  by (induction xs) (auto simp: unat_minus)

lemma realloc_loop_eq:
  "chain (pbufs h) (Some a) xs \<Longrightarrow> unat rem_len \<le> total_len (map snd xs) \<Longrightarrow>
   \<exists>ys q qb zs rem'. xs = ys @ (q, qb) # zs \<and>
     realloc_loop a rem_len g h = Some (q, rem', put_all (bump g ys) h) \<and>
     unat rem_len = total_len (map snd ys) + unat rem' \<and> unat rem' \<le> unat (len qb) \<and> (rem_len \<noteq> 0 \<longrightarrow> rem' \<noteq> 0) \<and>
     (ys \<noteq> [] \<longrightarrow> rem' \<noteq> 0)"
proof (induction xs arbitrary: a h rem_len)
  case (Cons x xs)
  obtain b where x: "x = (a, b)" using Cons(2) by (cases x) simp
  have b: "pbufs h a = Some b" "chain (pbufs h) (pnext b) xs" using Cons(2) x by simp_all
  show ?case
  proof (cases "len b < rem_len")
    case False
    then have "realloc_loop a rem_len g h = Some (a, rem_len, h)" "unat rem_len \<le> unat (len b)"
      using b by (subst realloc_loop.simps, simp) (use False in \<open>simp add: word_less_nat_alt\<close>)
    then show ?thesis using x by (intro exI [of _ "[]"]) simp
  next
    case True
    then have lt: "unat (len b) < unat rem_len" by (simp add: word_less_nat_alt)
    then have "xs \<noteq> []" using Cons(3) x by auto
    then obtain c d xs' where xs: "xs = (c, d) # xs'" by (cases xs) auto
    have dist: "a \<notin> fst ` set xs" using chain_distinct [OF Cons.prems(1)] x by auto
    let ?h = "put a (b\<lparr>tot_len := tot_len b + g\<rparr>) h"
    have u: "unat (rem_len - len b) = unat rem_len - unat (len b)" using lt by (simp add: unat_minus)
    have "chain (pbufs ?h) (Some c) xs" using b xs dist by simp
    moreover have "unat (rem_len - len b) \<le> total_len (map snd xs)" using u Cons(3) x by simp
    ultimately obtain ys q qb zs rem' where IH: "xs = ys @ (q, qb) # zs"
        "realloc_loop c (rem_len - len b) g ?h = Some (q, rem', put_all (bump g ys) ?h)"
        "unat (rem_len - len b) = total_len (map snd ys) + unat rem'" "unat rem' \<le> unat (len qb)"
        "rem_len - len b \<noteq> 0 \<longrightarrow> rem' \<noteq> 0"
      using Cons.IH by blast
    have "a \<notin> fst ` set (bump g ys)" using dist IH(1) by (auto simp: image_Un)
    then have "put_all (bump g ys) ?h = put_all (bump g (x # ys)) h"
      using x by (subst put_put_all) simp_all
    moreover have "realloc_loop a rem_len g h = realloc_loop c (rem_len - len b) g ?h"
      using b True xs by (subst realloc_loop.simps) simp
    ultimately have "realloc_loop a rem_len g h = Some (q, rem', put_all (bump g (x # ys)) h)"
      using IH(2) by (simp only:)
    moreover have "unat rem_len = total_len (map snd (x # ys)) + unat rem'" using u IH(3) lt x by simp
    moreover have "x # xs = (x # ys) @ (q, qb) # zs" using IH(1) by simp
    moreover have "rem' \<noteq> 0" using IH(5) True by auto
    ultimately show ?thesis using IH(4) by blast
  qed
qed simp

lemma trim_ram_eq:
  assumes "payload_ok b" "unat n \<le> unat (len b)"
  shows "\<exists>b'. trim_ram b n = Some b' \<and> payload_ok (b'\<lparr>len := n, tot_len := n\<rparr>) \<and>
    pdata (b'\<lparr>len := n, tot_len := n\<rparr>) = take (unat n) (pdata b) \<and> pnext b' = pnext b \<and> ref b' = ref b"
proof (cases "ptype b = PBUF_RAM \<and> n \<noteq> len b \<and> flags b AND PBUF_FLAG_IS_CUSTOM = 0")
  case True
  then have "unat n < unat (len b)" using assms(2) by (metis le_neq_implies_less word_unat_eq_iff)
  then have "len b \<noteq> 0" by auto
  then obtain off where off: "payload b = Some off" "0 \<le> off" "nat off + unat (len b) \<le> length (area b)"
    using assms(1) by (auto simp: payload_ok_def)
  then have k: "0 \<le> off + int (unat n) \<and> off + int (unat n) \<le> int (length (area b))"
     "nat (off + int (unat n)) = nat off + unat n"
    using assms(2) by linarith+
  have "trim_ram b n = Some (b\<lparr>area := take (nat off + unat n) (area b)\<rparr>)"
    using True off k by (simp add: trim_ram_def Let_def)
  moreover have "pdata (b\<lparr>area := take (nat off + unat n) (area b), len := n, tot_len := n\<rparr>) = take (unat n) (pdata b)"
    using off assms(2) by (simp add: pdata_def drop_take min_def)
  ultimately show ?thesis using off assms(2) by (simp add: payload_ok_def)
next
  case False
  then have "trim_ram b n = Some b" by (auto simp: trim_ram_def)
  moreover have "payload_ok (b\<lparr>len := n, tot_len := n\<rparr>)"
    using assms by (auto simp: payload_ok_def unsigned_eq_0_iff)
  moreover have "pdata (b\<lparr>len := n, tot_len := n\<rparr>) = take (unat n) (pdata b)"
    using assms by (auto simp: pdata_def min_def split: option.splits)
  ultimately show ?thesis by simp
qed


lemma unref_chain_other:
  assumes "a \<notin> fst ` set xs"
  shows "pbufs (unref_chain xs h) a = pbufs h a"
proof -
  have "a \<notin> fst ` set (takeWhile (\<lambda>(a, b). ref b = 1) xs)"
  proof
    assume "a \<in> fst ` set (takeWhile (\<lambda>(a, b). ref b = 1) xs)"
    then obtain b where "(a, b) \<in> set (takeWhile (\<lambda>(a, b). ref b = 1) xs)" by auto
    then have "(a, b) \<in> set xs" by (blast dest: set_takeWhileD)
    then show False using assms by force
  qed
  moreover have "a \<noteq> c" if "dropWhile (\<lambda>(a, b). ref b = 1) xs = (c, d) # ys" for c d ys
  proof -
    have "(c, d) \<in> set xs" using that by (metis list.set_intros(1) set_dropWhileD)
    then show ?thesis using assms by force
  qed
  ultimately show ?thesis
    by (auto simp: unref_chain_def Let_def pbufs_release_all split: list.splits)
qed

lemma stored_unref_chain:
  "fst ` set xs \<inter> fst ` set ys = {} \<Longrightarrow> stored (pbufs (unref_chain ys h)) xs = stored (pbufs h) xs"
proof -
  assume d: "fst ` set xs \<inter> fst ` set ys = {}"
  then have "pbufs (unref_chain ys h) a = pbufs h a" if "(a, b) \<in> set xs" for a b
    using that by (intro unref_chain_other) force
  then show ?thesis by (auto simp: stored_def)
qed

lemma stored_fun_upd [simp]: "a \<notin> fst ` set xs \<Longrightarrow> stored (m(a := v)) xs = stored m xs"
  by (induction xs) auto

lemma length_content_with: "packet_with bs k \<Longrightarrow> length (content bs) = total_len bs"
  by (induction bs) simp_all

lemma map_add_drop: "map_of xs a = None \<Longrightarrow> m(a := None) ++ map_of xs = (m ++ map_of xs)(a := None)"
  by (auto simp: map_add_def fun_eq_iff split: option.splits)

lemma put_all_release:
  assumes "a \<notin> fst ` set xs"
  shows "pbuf_release a b (put_all xs h) = put_all xs (pbuf_release a b h)"
proof -
  have "map_of xs a = None" using assms by (simp add: map_of_eq_None_iff)
  note u = map_add_drop [OF this]
  show ?thesis by (cases "ptype b") (simp_all add: pbuf_release_def put_all_def Let_def u)
qed

lemma put_all_release_all:
  "fst ` set zs \<inter> fst ` set xs = {} \<Longrightarrow> release_all zs (put_all xs h) = put_all xs (release_all zs h)"
proof (induction zs arbitrary: h)
  case (Cons z zs)
  obtain a b where z: "z = (a, b)" by (cases z)
  then show ?case using Cons by (simp add: put_all_release)
qed simp

lemma put_all_put:
  assumes "a \<notin> fst ` set xs"
  shows "put a b (put_all xs h) = put_all xs (put a b h)"
proof -
  have "map_of xs a = None" using assms by (simp add: map_of_eq_None_iff)
  then have "(m ++ map_of xs)(a := v) = m(a := v) ++ map_of xs" for m v
    by (auto simp: map_add_def fun_eq_iff split: option.splits)
  then show ?thesis by (simp add: put_all_def)
qed

text \<open>Dropping a reference to a chain commutes with updates of other pbufs.\<close>

lemma unref_chain_put_all:
  assumes "fst ` set zs \<inter> fst ` set xs = {}"
  shows "unref_chain zs (put_all xs h) = put_all xs (unref_chain zs h)"
proof -
  let ?P = "\<lambda>(a :: nat, b). ref b = 1"
  have t: "fst ` set (takeWhile ?P zs) \<inter> fst ` set xs = {}" using assms by (auto dest: set_takeWhileD)
  show ?thesis
  proof (cases "dropWhile ?P zs")
    case Nil
    then show ?thesis unfolding unref_chain_def Let_def by (simp only: list.case put_all_release_all [OF t])
  next
    case (Cons z rest)
    obtain a b where z: "z = (a, b)" by (cases z)
    have "z \<in> set zs" using Cons by (metis list.set_intros(1) set_dropWhileD)
    then have "a \<notin> fst ` set xs" using assms z by force
    then show ?thesis
      unfolding unref_chain_def Let_def Cons z
      by (simp only: list.case prod.case put_all_release_all [OF t]) (rule put_all_put)
  qed
qed

lemma put_all_last: "q \<notin> fst ` set ys \<Longrightarrow> put q b (put_all ys h) = put_all (ys @ [(q, b)]) h"
proof -
  assume "q \<notin> fst ` set ys"
  note eq = put_all_put [OF this]
  have "m(q \<mapsto> b) ++ map_of ys = m ++ map_of (ys @ [(q, b)])" for m by (simp add: map_add_assoc)
  then show ?thesis unfolding eq unfolding put_all_def by simp
qed

lemma put_all_last_again:
  assumes "q \<notin> fst ` set ys"
  shows "put q b (put_all (ys @ [(q, c)]) h) = put_all (ys @ [(q, b)]) h"
  unfolding put_all_last [OF assms, symmetric] by simp

lemma pbuf_realloc_store:
  assumes ch: "chain (pbufs h) (Some a) (ys @ (q, qb) # zs)" and refs: "live_refs zs"
    and tot: "pbufs h a = Some b" "\<not> tot_len b \<le> n"
    and loop: "realloc_loop a n (n - tot_len b) h = Some (q, rem', put_all (bump g ys) h)"
    and trim: "trim_ram qb rem' = Some qb'" "pnext qb' = pnext qb"
  defines "xs' \<equiv> bump g ys @ [(q, qb'\<lparr>len := rem', tot_len := rem', pnext := None\<rparr>)]"
  shows "pbuf_realloc (Some a) n h = Some (put_all xs' (unref_chain zs h))"
    "chain (pbufs (put_all xs' (unref_chain zs h))) (Some a) xs'"
proof -
  let ?q2 = "qb'\<lparr>len := rem', tot_len := rem'\<rparr>"
  let ?q3 = "qb'\<lparr>len := rem', tot_len := rem', pnext := None\<rparr>"
  let ?xs2 = "bump g ys @ [(q, ?q2)]"
  have d: "distinct (map fst (ys @ (q, qb) # zs))" by (rule chain_distinct [OF ch])
  then have dd: "q \<notin> fst ` set ys" "q \<notin> fst ` set zs" "fst ` set ys \<inter> fst ` set zs = {}"
      "distinct (map fst ys)" by auto
  have lk: "linked (Some a) ys (Some q)" "linked (pnext qb) zs None" "pbufs h q = Some qb" "stored (pbufs h) zs"
    using ch by (auto simp: chain_linked linked_append)
  have q1: "pbufs (put_all (bump g ys) h) q = Some qb" using dd lk by (simp add: pbufs_put_all_other)
  have h2: "put q ?q2 (put_all (bump g ys) h) = put_all ?xs2 h" using dd by (intro put_all_last) simp
  have "linked (Some a) xs' None" using lk(1) by (auto simp: xs'_def linked_append)
  moreover have "distinct (map fst xs')" using dd by (simp add: xs'_def)
  ultimately show "chain (pbufs (put_all xs' (unref_chain zs h))) (Some a) xs'" by (simp add: chain_linked)
  show "pbuf_realloc (Some a) n h = Some (put_all xs' (unref_chain zs h))"
  proof (cases "pnext qb")
    case None
    then have "?q3 = ?q2" "zs = []" using trim(2) lk(2) by (cases zs; auto)+
    moreover have "pbuf_realloc (Some a) n h = Some (put q ?q2 (put_all (bump g ys) h))"
      unfolding pbuf_realloc_def using tot loop q1 trim None by simp
    ultimately show ?thesis using h2 by (simp add: xs'_def unref_chain_def)
  next
    case (Some c)
    have "zs \<noteq> []" using lk(2) Some by auto
    moreover have "chain (pbufs (put_all ?xs2 h)) (Some c) zs"
      using lk(2,4) Some dd by (subst chain_linked) (auto simp: stored_put_all_other image_Un)
    ultimately have fr: "pbuf_free (Some c) (put_all ?xs2 h) =
        Some (of_nat (length (takeWhile (\<lambda>(a, b). ref b = 1) zs)), unref_chain zs (put_all ?xs2 h))"
      using refs by (intro pbuf_free_eq) simp_all
    have u: "unref_chain zs (put_all ?xs2 h) = put_all ?xs2 (unref_chain zs h)"
      using dd by (intro unref_chain_put_all) (auto simp: image_Un)
    have q3: "pbufs (put_all ?xs2 (unref_chain zs h)) q = Some ?q2"
      using dd by (simp flip: put_all_last)
    have "pbuf_realloc (Some a) n h = Some (put q ?q3 (put_all ?xs2 (unref_chain zs h)))"
      unfolding pbuf_realloc_def using tot loop q1 trim Some fr q3 u h2 by simp
    also have "put q ?q3 (put_all ?xs2 (unref_chain zs h)) = put_all xs' (unref_chain zs h)"
      unfolding xs'_def using dd by (intro put_all_last_again) simp
    finally show ?thesis .
  qed
qed

lemma realloc_cut:
  assumes ch: "chain (pbufs h) (Some a) xs" and pk: "packet (map snd xs)" and refs: "live_refs xs"
    and n: "unat n \<le> total_len (map snd xs)" and tot: "pbufs h a = Some b" "\<not> tot_len b \<le> n"
  obtains h' ys q qb zs rem' qb' xs' where "pbuf_realloc (Some a) n h = Some h'" "xs = ys @ (q, qb) # zs" "trim_ram qb rem' = Some qb'"
    "ref qb' = ref qb" "xs' = bump (n - tot_len b) ys @ [(q, qb'\<lparr>len := rem', tot_len := rem', pnext := None\<rparr>)]"
    "chain (pbufs h') (Some a) xs'" "packet (map snd xs')" "content (map snd xs') = take (unat n) (content (map snd xs))"
    "n \<noteq> 0 \<longrightarrow> rem' \<noteq> 0" "unat n = total_len (map snd ys) + unat rem'" "unat rem' \<le> unat (len qb)"
    "\<And>c. c \<notin> fst ` set xs \<Longrightarrow> pbufs h' c = pbufs h c" "h' = put_all xs' (unref_chain zs h)" "ys \<noteq> [] \<longrightarrow> rem' \<noteq> 0"
proof -
  let ?d = "tot_len b - n"
  have tl: "unat (tot_len b) = total_len (map snd xs)" using pk ch tot(1) by (cases xs) auto
  have d: "unat ?d = total_len (map snd xs) - unat n" using n tl by (simp add: unat_minus)
  obtain ys q qb zs rem' where r: "xs = ys @ (q, qb) # zs"
    "realloc_loop a n (n - tot_len b) h = Some (q, rem', put_all (bump (n - tot_len b) ys) h)"
    "unat n = total_len (map snd ys) + unat rem'" "unat rem' \<le> unat (len qb)" "n \<noteq> 0 \<longrightarrow> rem' \<noteq> 0"
    "ys \<noteq> [] \<longrightarrow> rem' \<noteq> 0"
    using realloc_loop_eq [OF ch n] by blast
  have pkq: "payload_ok qb" "packet_with (map snd ys) (unat (len qb) + total_len (map snd zs))"
    using pk r(1) by (simp_all add: packet_append)
  obtain qb' where t: "trim_ram qb rem' = Some qb'" "payload_ok (qb'\<lparr>len := rem', tot_len := rem'\<rparr>)"
      "pdata (qb'\<lparr>len := rem', tot_len := rem'\<rparr>) = take (unat rem') (pdata qb)" "pnext qb' = pnext qb" "ref qb' = ref qb"
    using trim_ram_eq [OF pkq(1) r(4)] by blast
  let ?q = "qb'\<lparr>len := rem', tot_len := rem'\<rparr>" and ?xs' = "bump (n - tot_len b) ys @
     [(q, qb'\<lparr>len := rem', tot_len := rem', pnext := None\<rparr>)]"
  let ?h' = "put_all ?xs' (unref_chain zs h)"
  have "live_refs zs" using refs r(1) by simp
  note h' = pbuf_realloc_store [OF ch [unfolded r(1)] this tot r(2) t(1,4)]
  have other: "pbufs ?h' c = pbufs h c" if "c \<notin> fst ` set xs" for c
    using that r(1) by (auto simp: pbufs_put_all_other unref_chain_other image_Un)
  have "unat (len qb) + total_len (map snd zs) = unat rem' + unat ?d" using d r by simp
  then have "packet_with (map snd (bump (- ?d) ys)) (unat rem')" using pkq(2) by (intro packet_bump) simp
  moreover have "payload_ok (?q\<lparr>pnext := None\<rparr>)" using t(2) by (simp only: payload_ok_update)
  ultimately have pk': "packet (map snd ?xs')" by (simp add: packet_append)
  have "pdata (?q\<lparr>pnext := None\<rparr>) = take (unat rem') (pdata qb)" using t(3) by (simp only: pdata_update)
  then have "content (map snd ?xs') = content (map snd ys) @ take (unat rem') (pdata qb)" by simp
  also have "\<dots> = take (unat n) (content (map snd xs))"
    using length_content_with [OF pkq(2)] r pkq(1) by simp
  finally show thesis using that [OF h'(1) r(1) t(1,5) refl h'(2) pk' _ r(5,3,4) other refl r(6)] by blast
qed

text \<open>C14: \<^verbatim>\<open>pbuf_realloc\<close> cuts the packet to its first \<open>new_len\<close> bytes: it ends, and the
  chain it leaves at the same head satisfies the \<^verbatim>\<open>tot_len\<close> invariant again and holds exactly
  that prefix of the data. Of the pbufs \<open>ys @ zs\<close> of the packet it keeps \<open>ys\<close>, no more than the
  data needs, and drops the packet's reference to the rest \<open>zs\<close>: the store is the one after
  \<^verbatim>\<open>pbuf_free\<close> of \<open>zs\<close> with the kept pbufs updated, so nothing leaks and no other pbuf changes.\<close>

theorem pbuf_realloc_truncates:
  assumes ch: "chain (pbufs h) (Some a) xs" and pk: "packet (map snd xs)" and refs: "live_refs xs"
    and n: "unat n \<le> total_len (map snd xs)"
  shows "\<exists>h' ys xs' zs. pbuf_realloc (Some a) n h = Some h' \<and> chain (pbufs h') (Some a) xs' \<and>
    packet (map snd xs') \<and> content (map snd xs') = take (unat n) (content (map snd xs)) \<and>
    xs = ys @ zs \<and> map fst xs' = map fst ys \<and> h' = put_all xs' (unref_chain zs h) \<and>
    (unat n < total_len (map snd xs) \<longrightarrow> length ys = 1 \<or> total_len (map snd (butlast ys)) < unat n)"
proof -
  obtain b xs1 where xs: "xs = (a, b) # xs1" using ch by (cases xs) auto
  have tot: "unat (tot_len b) = total_len (map snd xs)" "pbufs h a = Some b" using pk ch xs by simp_all
  show ?thesis
  proof (cases "tot_len b \<le> n")
    case True
    then have "pbuf_realloc (Some a) n h = Some h" using tot by (simp add: pbuf_realloc_def)
    moreover have "take (unat n) (content (map snd xs)) = content (map snd xs)"
      using True tot length_content [OF pk] by (simp add: word_le_nat_alt)
    moreover have "h = put_all xs (unref_chain [] h)" using ch by (simp add: chain_linked put_all_stored unref_chain_def)
    moreover have "\<not> unat n < total_len (map snd xs)" using True tot by (simp add: word_le_nat_alt)
    ultimately show ?thesis using ch pk by (intro exI [of _ h] exI [of _ xs] exI [of _ "[]"]) simp
  next
    case False
    obtain h' ys q qb zs rem' qb' xs' where c: "pbuf_realloc (Some a) n h = Some h'" "xs = ys @ (q, qb) # zs"
      "xs' = bump (n - tot_len b) ys @ [(q, qb'\<lparr>len := rem', tot_len := rem', pnext := None\<rparr>)]"
      "chain (pbufs h') (Some a) xs'" "packet (map snd xs')" "content (map snd xs') = take (unat n) (content (map snd xs))"
      "h' = put_all xs' (unref_chain zs h)" "ys \<noteq> [] \<longrightarrow> rem' \<noteq> 0" "unat n = total_len (map snd ys) + unat rem'"
      by (rule realloc_cut [OF ch pk refs n tot(2) False]) blast
    let ?ys = "ys @ [(q, qb)]"
    have "length ?ys = 1 \<or> total_len (map snd (butlast ?ys)) < unat n"
      using c(8,9) by (cases "ys = []") (simp_all add: unat_gt_0)
    moreover have "map fst xs' = map fst ?ys" "xs = ?ys @ zs" using c(2,3) by simp_all
    ultimately show ?thesis using c(1,4-7) by blast
  qed
qed

text \<open>A packet of two pool pbufs, for examples.\<close>

definition example_pbuf :: "nat option \<Rightarrow> u16 \<Rightarrow> bytes \<Rightarrow> pbuf" where
  "example_pbuf n tot ds =
     \<lparr>pnext = n, payload = Some 0, tot_len = tot, len = of_nat (length ds), ptype = PBUF_POOL, flags = 0,
      ref = 1, area = ds\<rparr>"

definition example_heap :: pbuf_heap where
  "example_heap =
     \<lparr>pbufs = [1 \<mapsto> example_pbuf (Some 2) 5 [10, 11, 12], 2 \<mapsto> example_pbuf None 2 [13, 14],
               3 \<mapsto> example_pbuf None 1 [15]],
      pool_free = [7, 8], ref_free = [9], ooseq_pending = False, custom_freed = [], stale = (\<lambda>_ _. 0)\<rparr>"

definition example_xs :: "(nat \<times> pbuf) list" where
  "example_xs = [(1, example_pbuf (Some 2) 5 [10, 11, 12]), (2, example_pbuf None 2 [13, 14])]"

lemma example_chain:
  "chain (pbufs example_heap) (Some 1) example_xs" "packet (map snd example_xs)" "live_refs example_xs"
  "total_len (map snd example_xs) = 5" "content (map snd example_xs) = [10, 11, 12, 13, 14]"
  by (simp_all add: example_heap_def example_xs_def example_pbuf_def payload_ok_def pdata_def)

theorem pbuf_realloc_truncates_witness:
  "\<exists>h' xs'. pbuf_realloc (Some 1) 3 example_heap = Some h' \<and> chain (pbufs h') (Some 1) xs' \<and>
    packet (map snd xs') \<and> content (map snd xs') = [10, 11, 12] \<and> pbufs h' 2 = None \<and> pool_free h' = [2, 7, 8]"
proof -
  obtain h' ys xs' zs where r: "pbuf_realloc (Some 1) 3 example_heap = Some h'" "chain (pbufs h') (Some 1) xs'"
    "packet (map snd xs')" "content (map snd xs') = [10, 11, 12]" "example_xs = ys @ zs" "map fst xs' = map fst ys"
    "h' = put_all xs' (unref_chain zs example_heap)" "length ys = 1 \<or> total_len (map snd (butlast ys)) < 3"
    using pbuf_realloc_truncates [OF example_chain(1-3), of 3] example_chain(4,5) by auto
  have "ys \<noteq> []" using r(2,6) by (cases ys) auto
  then have e: "ys = [(1, example_pbuf (Some 2) 5 [10, 11, 12])]" "zs = [(2, example_pbuf None 2 [13, 14])]"
    using r(5,8) by (auto simp: example_xs_def example_pbuf_def Cons_eq_append_conv append_eq_Cons_conv)
  then have "2 \<notin> fst ` set xs'" using r(6) by auto
  then have "pbufs h' 2 = None" "pool_free h' = [2, 7, 8]"
    using r(7) e(2) by (simp_all add: unref_chain_def example_pbuf_def pbuf_release_def example_heap_def put_all_def map_of_eq_None_iff)
  then show ?thesis using r(1-4) by blast
qed

section \<open>Allocation from the pool\<close>

text \<open>
  The state while a chain for \<open>n\<close> bytes is built from the free list of \<open>h0\<close>: \<open>xs\<close> is the chain
  so far.
\<close>

definition pool_inv :: "pbuf_heap \<Rightarrow> nat \<Rightarrow> pbuf_heap \<Rightarrow> (nat \<times> pbuf) list \<Rightarrow> bool" where
  "pool_inv h0 n h xs \<longleftrightarrow>
     xs \<noteq> [] \<and> chain (pbufs h) (Some (fst (hd xs))) xs \<and> pool_free h0 = map fst xs @ pool_free h \<and>
     (\<forall>a. a \<notin> fst ` set xs \<longrightarrow> pbufs h a = pbufs h0 a) \<and>
     (\<forall>(a, b) \<in> set xs. ref b = 1 \<and> ptype b = PBUF_POOL \<and> flags b = 0 \<and> pool_fits b) \<and>
     (0 < n \<longrightarrow> 0 < total_len (map snd xs)) \<and> total_len (map snd xs) \<le> n \<and> packet_with (map snd xs) (n - total_len (map snd xs))"

definition pool_ok :: "pbuf_heap \<Rightarrow> bool" where
  "pool_ok h \<longleftrightarrow> distinct (pool_free h) \<and> (\<forall>a \<in> set (pool_free h). pbufs h a = None)"

lemma pool_pbuf_ok:
  assumes "off < PBUF_POOL_BUFSIZE_ALIGNED" "n < 65536"
  shows "payload_ok (pool_pbuf h a off n)" "pool_fits (pool_pbuf h a off n)"
    "unat (len (pool_pbuf h a off n)) = min n (PBUF_POOL_BUFSIZE_ALIGNED - off)"
    "unat (tot_len (pool_pbuf h a off n)) = n" "pnext (pool_pbuf h a off n) = None"
    "ref (pool_pbuf h a off n) = 1" "ptype (pool_pbuf h a off n) = PBUF_POOL" "flags (pool_pbuf h a off n) = 0"
  using assms
  by (auto simp: pool_pbuf_def payload_ok_def pool_fits_def PBUF_POOL_BUFSIZE_ALIGNED_def unat_of_nat_u16 min_def)

text \<open>One more pbuf at the end of the chain.\<close>

definition extend_chain :: "(nat \<times> pbuf) list \<Rightarrow> nat \<Rightarrow> pbuf \<Rightarrow> (nat \<times> pbuf) list" where
  "extend_chain xs q qb = butlast xs @ [(fst (last xs), (snd (last xs))\<lparr>pnext := Some q\<rparr>), (q, qb)]"

lemma pool_inv_step:
  assumes inv: "pool_inv h0 n h xs" and pool: "pool_free h = q # rest" and ok: "pool_ok h0"
    and less: "total_len (map snd xs) < n" and n: "n < 65536"
    and qb: "qb = pool_pbuf h q 0 (n - total_len (map snd xs))"
    and h': "h' = put q qb (put (fst (last xs)) ((snd (last xs))\<lparr>pnext := Some q\<rparr>) (h\<lparr>pool_free := rest\<rparr>))"
  shows "pool_inv h0 n h' (extend_chain xs q qb)"
proof -
  obtain ys r rb where xs: "xs = ys @ [(r, rb)]"
    using inv by (metis append_butlast_last_id pool_inv_def surj_pair)
  let ?rb = "rb\<lparr>pnext := Some q\<rparr>" and ?k = "n - total_len (map snd xs)"
  have ch: "chain (pbufs h) (Some (fst (hd xs))) (ys @ [(r, rb)])" and
    free: "pool_free h0 = map fst ys @ r # q # rest" and
    other: "\<And>a. a \<notin> fst ` set xs \<Longrightarrow> pbufs h a = pbufs h0 a" and
    props: "\<forall>(a, b) \<in> set xs. ref b = 1 \<and> ptype b = PBUF_POOL \<and> flags b = 0 \<and> pool_fits b" and
    pk: "packet_with (map snd xs) ?k"
    using inv pool by (auto simp: pool_inv_def xs)
  have d: "distinct (map fst ys @ r # q # rest)" using ok free by (simp add: pool_ok_def)
  have q: "payload_ok qb" "pool_fits qb" "unat (len qb) = min ?k PBUF_POOL_BUFSIZE_ALIGNED"
      "unat (tot_len qb) = ?k" "pnext qb = None" "ref qb = 1" "ptype qb = PBUF_POOL" "flags qb = 0"
    using pool_pbuf_ok [of 0 ?k h q] n unfolding qb by (simp_all add: PBUF_POOL_BUFSIZE_ALIGNED_def)
  have ext: "extend_chain xs q qb = ys @ [(r, ?rb), (q, qb)]" by (simp add: extend_chain_def xs)
  have "linked (Some (fst (hd xs))) (ys @ [(r, ?rb), (q, qb)]) None"
    using ch q(5) by (auto simp: chain_linked linked_append)
  moreover have hh: "h' = put q qb (put r ?rb (h\<lparr>pool_free := rest\<rparr>))" unfolding h' xs by simp
  have "stored (pbufs h') (ys @ [(r, ?rb), (q, qb)])"
    using ch d by (auto simp: hh chain_linked)
  moreover have "fst (hd (extend_chain xs q qb)) = fst (hd xs)"
    unfolding ext by (cases ys) (simp_all add: xs)
  ultimately have "chain (pbufs h') (Some (fst (hd (extend_chain xs q qb)))) (extend_chain xs q qb)"
    by (simp only: ext chain_linked)
  moreover have "pool_fits ?rb = pool_fits rb" by (simp add: pool_fits_def split: option.split)
  then have "\<forall>(a, b) \<in> set (extend_chain xs q qb). ref b = 1 \<and> ptype b = PBUF_POOL \<and> flags b = 0 \<and> pool_fits b"
    unfolding ext using props q xs by auto
  moreover have "total_len (map snd (extend_chain xs q qb)) = total_len (map snd xs) + unat (len qb)"
    unfolding ext by (simp add: xs)
  moreover have "packet_with (map snd (extend_chain xs q qb)) (?k - unat (len qb))"
  proof -
    have e: "unat (len qb) + (?k - unat (len qb)) = ?k" using q(3) by simp
    have "packet_with (map snd ys) (unat (len rb) + ?k) \<and> payload_ok rb \<and> unat (tot_len rb) = unat (len rb) + ?k"
      using pk by (simp add: xs packet_with_append)
    then show ?thesis unfolding ext using q(1,4) e by (simp add: packet_with_append add.assoc)
  qed
  moreover have "map fst (extend_chain xs q qb) @ pool_free h' = pool_free h0"
    unfolding ext by (simp add: hh free)
  moreover have "\<forall>a. a \<notin> fst ` set (extend_chain xs q qb) \<longrightarrow> pbufs h' a = pbufs h0 a"
    unfolding ext using other by (auto simp: hh xs)
  moreover have "extend_chain xs q qb \<noteq> []" by (simp add: ext)
  ultimately show ?thesis
    using q(3) less inv unfolding pool_inv_def by simp
qed


lemma release_pool:
  "\<forall>(a, b) \<in> set xs. ptype b = PBUF_POOL \<and> flags b = 0 \<Longrightarrow>
   pool_free (release_all xs h) = rev (map fst xs) @ pool_free h \<and>
   ooseq_pending (release_all xs h) = ooseq_pending h \<and> ref_free (release_all xs h) = ref_free h"
  by (induction xs arbitrary: h) (auto simp: pbuf_release_def Let_def)

lemma pool_tail_failure:
  assumes inv: "pool_inv h0 n h xs" and ok: "pool_ok h0" and empty: "pool_free h = []"
  shows "\<exists>c h'. pbuf_free (Some (fst (hd xs))) (pbuf_pool_is_empty h) = Some (c, h') \<and>
    mset (pool_free h') = mset (pool_free h0) \<and> pbufs h' = pbufs h0 \<and> ooseq_pending h'"
proof -
  let ?h = "pbuf_pool_is_empty h"
  have xs: "xs \<noteq> []" "chain (pbufs ?h) (Some (fst (hd xs))) xs" "pool_free h0 = map fst xs"
      "\<forall>(a, b) \<in> set xs. ref b = 1" "\<forall>(a, b) \<in> set xs. ptype b = PBUF_POOL \<and> flags b = 0"
      "\<forall>a. a \<notin> fst ` set xs \<longrightarrow> pbufs h a = pbufs h0 a"
    using inv empty by (auto simp: pool_inv_def pbuf_pool_is_empty_def)
  then have "live_refs xs" by (auto simp: live_refs_def)
  with xs have fr: "pbuf_free (Some (fst (hd xs))) ?h =
      Some (of_nat (length (takeWhile (\<lambda>(a, b). ref b = 1) xs)), release_all xs ?h)"
    by (subst pbuf_free_eq [of _ _ xs]) (simp_all only: unref_chain_all simp_thms)
  have "pbufs (release_all xs ?h) a = pbufs h0 a" for a
    using xs(3,6) ok by (force simp: pbufs_release_all pool_ok_def pbuf_pool_is_empty_def)
  then have "pbufs (release_all xs ?h) = pbufs h0" by blast
  moreover have "pool_free (release_all xs ?h) = rev (map fst xs)" "ooseq_pending (release_all xs ?h)"
    using release_pool [OF xs(5), of ?h] empty by (simp_all add: pbuf_pool_is_empty_def)
  ultimately show ?thesis using fr xs(3) by simp
qed

lemma pool_tail_eq:
  assumes "pool_inv h0 n h xs" "pool_ok h0" "n < 65536"
  shows "\<exists>r h'. pool_tail (fst (hd xs)) (fst (last xs)) (n - total_len (map snd xs)) h = Some (r, h') \<and>
    (case r of
       Some p \<Rightarrow> \<exists>ys. p = fst (hd ys) \<and> pool_inv h0 n h' ys \<and> total_len (map snd ys) = n
     | None \<Rightarrow> mset (pool_free h') = mset (pool_free h0) \<and> pbufs h' = pbufs h0 \<and> ooseq_pending h')"
  using assms
proof (induction "n - total_len (map snd xs)" arbitrary: h xs rule: less_induct)
  case less
  let ?k = "n - total_len (map snd xs)"
  note tail = pool_tail.simps [of "fst (hd xs)" "fst (last xs)" ?k h]
  show ?case
  proof (cases "?k = 0")
    case True
    then have "total_len (map snd xs) = n" using less(2) by (simp add: pool_inv_def)
    then show ?thesis using True less(2) tail by auto
  next
    case k: False
    show ?thesis
    proof (cases "pool_free h")
      case Nil
      then show ?thesis
        using tail k pool_tail_failure [OF less(2,3) Nil] by auto
    next
      case (Cons q rest)
      define qb where "qb = pool_pbuf h q 0 ?k"
      define h' where "h' = put q qb (put (fst (last xs)) ((snd (last xs))\<lparr>pnext := Some q\<rparr>) (h\<lparr>pool_free := rest\<rparr>))"
      define ys where "ys = extend_chain xs q qb"
      have inv: "pool_inv h0 n h' ys"
        unfolding ys_def using k less(4)
        by (intro pool_inv_step [OF less(2) Cons less(3) _ _ qb_def h'_def]) simp_all
      have "xs \<noteq> []" using less(2) by (simp add: pool_inv_def)
      then have hd: "fst (hd ys) = fst (hd xs)" "fst (last ys) = q"
        by (cases xs; simp add: ys_def extend_chain_def)+
      have lenq: "unat (len qb) = min ?k PBUF_POOL_BUFSIZE_ALIGNED"
        unfolding qb_def using less(4) by (subst pool_pbuf_ok(3)) (simp_all add: PBUF_POOL_BUFSIZE_ALIGNED_def)
      have "total_len (map snd ys) = total_len (map snd xs) + unat (len qb)"
        using \<open>xs \<noteq> []\<close> by (cases xs rule: rev_cases) (auto simp: ys_def extend_chain_def)
      then have tot: "n - total_len (map snd ys) = ?k - min ?k PBUF_POOL_BUFSIZE_ALIGNED" using lenq by simp
      have "last xs \<in> set xs" "chain (pbufs h) (Some (fst (hd xs))) xs"
        using \<open>xs \<noteq> []\<close> less(2) by (simp_all add: pool_inv_def)
      then have last: "pbufs h (fst (last xs)) = Some (snd (last xs))" by (auto intro: chain_lookup)
      have "ys \<noteq> []" "chain (pbufs h') (Some (fst (hd ys))) ys"
          "\<forall>(a, b) \<in> set ys. pool_fits b"
        using inv by (auto simp: pool_inv_def)
      then obtain pb where pb: "pbufs h' (fst (hd xs)) = Some pb" "pool_fits pb"
        using hd(1) by (cases ys) auto
      have small: "?k < 0xffff" using less(2,4) k by (auto simp: pool_inv_def)
      have "pool_tail (fst (hd xs)) (fst (last xs)) ?k h =
          pool_tail (fst (hd ys)) (fst (last ys)) (n - total_len (map snd ys)) h'"
        by (subst tail) (simp only: k if_False Cons list.case last Option.bind.bind_lunit Let_def
            qb_def [symmetric] h'_def [symmetric] pb small lwip_assert_True hd tot)
      then show ?thesis
        using less(1) [OF _ inv less(3,4)] k tot by (simp add: PBUF_POOL_BUFSIZE_ALIGNED_def)
    qed
  qed
qed

lemma layer_offset_less: "layer_offset layer < PBUF_POOL_BUFSIZE_ALIGNED"
  by (cases layer) (simp_all add: PBUF_POOL_BUFSIZE_ALIGNED_def PBUF_LINK_ENCAPSULATION_HLEN_def
      PBUF_LINK_HLEN_def PBUF_IP_HLEN_def PBUF_TRANSPORT_HLEN_def)

lemma pool_inv_start:
  assumes ok: "pool_ok h" and pool: "pool_free h = p # rest" and off: "off < PBUF_POOL_BUFSIZE_ALIGNED"
  shows "pool_inv h (unat (n :: u16)) (put p (pool_pbuf h p off (unat n)) (h\<lparr>pool_free := rest\<rparr>))
    [(p, pool_pbuf h p off (unat n))]"
  using pool pool_pbuf_ok [OF off, of "unat n" h p] off by (simp add: pool_inv_def min_def)

text \<open>The loop over the tail fails exactly when the free elements cannot hold the rest.\<close>

lemma pool_tail_null:
  "pool_tail p r k h = Some (res, h') \<Longrightarrow> res = None \<longleftrightarrow> PBUF_POOL_BUFSIZE_ALIGNED * length (pool_free h) < k"
proof (induction p r k h rule: pool_tail.induct)
  case (1 p r k h)
  note eq = pool_tail.simps [of p r k h]
  show ?case
  proof (cases "k = 0")
    case True
    then show ?thesis using 1(2) eq by auto
  next
    case k: False
    show ?thesis
    proof (cases "pool_free h")
      case Nil
      then show ?thesis using 1(2) eq k by (auto split: bind_splits)
    next
      case (Cons q rest)
      obtain rb where rb: "pbufs h r = Some rb" "k < 0xffff"
        using 1(2) eq k Cons by (auto simp: lwip_assert_def split: bind_splits if_splits)
      let ?h = "put q (pool_pbuf h q 0 k) (put r (rb\<lparr>pnext := Some q\<rparr>) (h\<lparr>pool_free := rest\<rparr>))"
      obtain pb where pb: "pbufs ?h p = Some pb" "pool_fits pb"
        using 1(2) eq k Cons rb by (auto simp: lwip_assert_def Let_def split: bind_splits if_splits)
      have "pool_tail p q (k - min k PBUF_POOL_BUFSIZE_ALIGNED) ?h = Some (res, h')"
        using 1(2) eq k Cons rb pb by (simp add: Let_def)
      then have "res = None \<longleftrightarrow> PBUF_POOL_BUFSIZE_ALIGNED * length (pool_free ?h) < k - min k PBUF_POOL_BUFSIZE_ALIGNED"
        using 1(1) [OF k Cons rb(1) _ refl refl pb(1)] rb(2) pb(2) by simp
      then show ?thesis using Cons by (auto simp: min_def)
    qed
  qed
qed

text \<open>C12: allocating from the pool ends with one of two results. Either a chain of fresh pool
  elements, each with one reference, that satisfies the \<^verbatim>\<open>tot_len\<close> invariant and has exactly
  the length asked for; or NULL, and then every element taken is back in the pool and no pbuf has
  changed. NULL is returned exactly when the free elements of the pool cannot hold the headers and
  the data.\<close>

theorem pbuf_alloc_pool:
  assumes "pool_ok h"
  shows "\<exists>r h'. pbuf_alloc malloc layer n PBUF_POOL h = Some (r, h') \<and>
    (r = None \<longleftrightarrow> pool_free h = [] \<or> PBUF_POOL_BUFSIZE_ALIGNED * length (pool_free h) < layer_offset layer + unat n) \<and>
    (case r of
       Some p \<Rightarrow> \<exists>xs. chain (pbufs h') (Some p) xs \<and> packet (map snd xs) \<and>
         total_len (map snd xs) = unat n \<and> (\<forall>(a, b) \<in> set xs. ref b = 1 \<and> ptype b = PBUF_POOL \<and> flags b = 0) \<and>
         pool_free h = map fst xs @ pool_free h' \<and> (\<forall>a. a \<notin> fst ` set xs \<longrightarrow> pbufs h' a = pbufs h a)
     | None \<Rightarrow> mset (pool_free h') = mset (pool_free h) \<and> pbufs h' = pbufs h \<and> ooseq_pending h')"
proof (cases "pool_free h")
  case Nil
  then show ?thesis by (simp add: pbuf_alloc_def pbuf_pool_is_empty_def)
next
  case (Cons p rest)
  let ?off = "layer_offset layer"
  let ?b = "pool_pbuf h p ?off (unat n)"
  let ?h = "put p ?b (h\<lparr>pool_free := rest\<rparr>)"
  note off = layer_offset_less [of layer]
  have inv: "pool_inv h (unat n) ?h [(p, ?b)]" by (rule pool_inv_start [OF assms Cons off])
  have "pool_fits ?b" using pool_pbuf_ok(2) [OF off] by simp
  then have "pbuf_alloc malloc layer n PBUF_POOL h = pool_tail p p (unat n - unat (len ?b)) ?h"
    using Cons off by (simp add: pbuf_alloc_def Let_def)
  moreover obtain r h' where t: "pool_tail p p (unat n - unat (len ?b)) ?h = Some (r, h')"
    and r: "case r of
       Some p \<Rightarrow> \<exists>ys. p = fst (hd ys) \<and> pool_inv h (unat n) h' ys \<and> total_len (map snd ys) = unat n
     | None \<Rightarrow> mset (pool_free h') = mset (pool_free h) \<and> pbufs h' = pbufs h \<and> ooseq_pending h'"
    using pool_tail_eq [OF inv assms] by auto
  moreover have "r = None \<longleftrightarrow> PBUF_POOL_BUFSIZE_ALIGNED * length (pool_free h) < ?off + unat n"
    using pool_tail_null [OF t] pool_pbuf_ok(3) [OF off, of "unat n" h p] off Cons by (auto simp: min_def)
  moreover have "\<exists>xs. chain (pbufs h') (Some q) xs \<and> packet (map snd xs) \<and>
         total_len (map snd xs) = unat n \<and> (\<forall>(a, b) \<in> set xs. ref b = 1 \<and> ptype b = PBUF_POOL \<and> flags b = 0) \<and>
         pool_free h = map fst xs @ pool_free h' \<and> (\<forall>a. a \<notin> fst ` set xs \<longrightarrow> pbufs h' a = pbufs h a)"
    if "r = Some q" for q
    using r that by (auto simp: pool_inv_def packet_with_0)
  ultimately show ?thesis using Cons by (cases r) auto
qed

lemma example_pool_ok: "pool_ok example_heap"
  by (simp add: pool_ok_def example_heap_def)

theorem pbuf_alloc_pool_witness:
  "(\<exists>p h' xs. pbuf_alloc (\<lambda>_. None) PBUF_RAW 700 PBUF_POOL example_heap = Some (Some p, h') \<and>
     chain (pbufs h') (Some p) xs \<and> total_len (map snd xs) = 700) \<and>
   (\<exists>h'. pbuf_alloc (\<lambda>_. None) PBUF_RAW 2000 PBUF_POOL example_heap = Some (None, h') \<and> pbufs h' = pbufs example_heap)"
proof -
  have f: "length (pool_free example_heap) = 2" "pool_free example_heap \<noteq> []" by (simp_all add: example_heap_def)
  have "\<exists>p h' xs. pbuf_alloc (\<lambda>_. None) PBUF_RAW 700 PBUF_POOL example_heap = Some (Some p, h') \<and>
     chain (pbufs h') (Some p) xs \<and> total_len (map snd xs) = 700"
    using pbuf_alloc_pool [OF example_pool_ok, of "\<lambda>_. None" PBUF_RAW 700] f
    by (auto simp: PBUF_POOL_BUFSIZE_ALIGNED_def split: option.splits)
  moreover have "\<exists>h'. pbuf_alloc (\<lambda>_. None) PBUF_RAW 2000 PBUF_POOL example_heap = Some (None, h') \<and> pbufs h' = pbufs example_heap"
    using pbuf_alloc_pool [OF example_pool_ok, of "\<lambda>_. None" PBUF_RAW 2000] f
    by (auto simp: PBUF_POOL_BUFSIZE_ALIGNED_def split: option.splits)
  ultimately show ?thesis ..
qed

text \<open>C13: a \<^verbatim>\<open>PBUF_RAM\<close> pbuf is a well-formed packet of the length asked for exactly when the size
  of structure, headers and data fits 16 bits; for larger lengths the size given to \<^verbatim>\<open>mem_malloc\<close>
  wraps around and the payload extends past the block.\<close>

theorem pbuf_alloc_ram_iff:
  assumes "malloc (ram_size (layer_offset layer) n) = Some p"
  shows "\<exists>b. pbuf_alloc malloc layer n PBUF_RAM h = Some (Some p, put p b h) \<and> pnext b = None \<and> len b = n \<and>
    (packet [b] \<longleftrightarrow> n = 0 \<or> SIZEOF_STRUCT_PBUF + layer_offset layer + unat n < 65536)"
proof -
  let ?s = "SIZEOF_STRUCT_PBUF + layer_offset layer + unat n"
  let ?b = "\<lparr>pnext = None, payload = Some (int (layer_offset layer)), tot_len = n, len = n,
     ptype = PBUF_RAM, flags = 0, ref = 1,
     area = map (stale h p) [0..<unat (ram_size (layer_offset layer) n) - SIZEOF_STRUCT_PBUF]\<rparr>"
  have off: "layer_offset layer < 592" using layer_offset_less [of layer] by (simp add: PBUF_POOL_BUFSIZE_ALIGNED_def)
  have s: "unat (ram_size (layer_offset layer) n) = (if ?s < 65536 then ?s else ?s - 65536)"
  proof -
    have "?s < 2 * 65536" using off unat_u16_less [of n] unfolding SIZEOF_STRUCT_PBUF_def by linarith
    then have "?s mod 65536 = (if ?s < 65536 then ?s else ?s - 65536)"
      by (simp add: mod_if)
    moreover have "unat (ram_size (layer_offset layer) n) = ?s mod 65536"
      unfolding ram_size_def by (subst unat_of_nat) simp
    ultimately show ?thesis by simp
  qed
  have "packet [?b] \<longleftrightarrow> n = 0 \<or> ?s < 65536"
    using off unat_u16_less [of n] by (auto simp: payload_ok_def s SIZEOF_STRUCT_PBUF_def)
  moreover have "pbuf_alloc malloc layer n PBUF_RAM h = Some (Some p, put p ?b h)"
    using assms by (simp add: pbuf_alloc_def Let_def)
  ultimately show ?thesis by (intro exI [of _ ?b]) simp
qed

theorem pbuf_alloc_ram_iff_witness:
  "\<exists>b. pbuf_alloc (\<lambda>_. Some 40) PBUF_RAW 65535 PBUF_RAM example_heap = Some (Some 40, put 40 b example_heap) \<and>
    pnext b = None \<and> len b = 65535 \<and> \<not> packet [b]"
  using pbuf_alloc_ram_iff [of "\<lambda>_. Some 40" PBUF_RAW 65535 40 example_heap]
  by (auto simp: SIZEOF_STRUCT_PBUF_def simp del: packet.simps)

text \<open>C15: concatenating two packets whose lengths add up to at most 65535 gives one packet at the
  head of the first, with the data of the second after the data of the first.\<close>

theorem pbuf_cat_appends:
  assumes "chain (pbufs h) (Some a) xs" "packet (map snd xs)"
    and "chain (pbufs h) (Some t) ys" "packet (map snd ys)"
    and "fst ` set xs \<inter> fst ` set ys = {}" "total_len (map snd xs) + total_len (map snd ys) < 65536"
  shows "\<exists>h' zs. pbuf_cat (Some a) (Some t) h = Some h' \<and> chain (pbufs h') (Some a) zs \<and>
    packet (map snd zs) \<and> content (map snd zs) = content (map snd xs) @ content (map snd ys) \<and>
    map fst zs = map fst xs @ map fst ys"
proof -
  obtain tb ys' where ys: "ys = (t, tb) # ys'" using assms(3) by (cases ys) auto
  let ?k = "tot_len tb"
  have tb: "pbufs h t = Some tb" "unat ?k = total_len (map snd ys)" using assms(3,4) ys by simp_all
  let ?zs = "link_tail ?k t xs @ ys"
  have "packet_with (map snd (link_tail ?k t xs)) (total_len (map snd ys))"
    using packet_link_tail [OF assms(2), of ?k t] assms(6) tb(2) by simp
  then have "packet (map snd ?zs)" using assms(4) by (simp add: packet_append)
  moreover have "map fst ?zs = map fst xs @ map fst ys" by simp
  ultimately show ?thesis
    using pbuf_cat_eq [OF assms(1,2) tb(1)] chain_cat [OF assms(1,3,5), of ?k]
    by (intro exI [of _ "put_all (link_tail ?k t xs) h"] exI [of _ ?zs]) simp
qed

theorem pbuf_cat_appends_witness:
  "\<exists>h' zs. pbuf_cat (Some 1) (Some 3) example_heap = Some h' \<and> chain (pbufs h') (Some 1) zs \<and>
    packet (map snd zs) \<and> content (map snd zs) = [10, 11, 12, 13, 14] @ [15] \<and> map fst zs = [1, 2, 3]"
proof -
  let ?ys = "[(3 :: nat, example_pbuf None 1 [15])]"
  have ys: "chain (pbufs example_heap) (Some 3) ?ys" "packet (map snd ?ys)"
      "content (map snd ?ys) = [15]" "total_len (map snd ?ys) = 1"
    by (simp_all add: example_heap_def example_pbuf_def payload_ok_def pdata_def)
  have "fst ` set example_xs \<inter> fst ` set ?ys = {}" "map fst example_xs = [1, 2]"
    by (simp_all add: example_xs_def)
  then show ?thesis
    using pbuf_cat_appends [OF example_chain(1,2) ys(1,2)] example_chain(4,5) ys(3,4) by simp
qed

text \<open>C11: dropping a reference to a chain releases exactly the pbufs in front that had one
  reference, takes one reference from the first pbuf with more, returns the number released (modulo
  256) and leaves every other pbuf alone.\<close>

theorem pbuf_free_spec:
  assumes "chain (pbufs h) p xs" "xs \<noteq> []" "live_refs xs"
  defines "gone \<equiv> takeWhile (\<lambda>(a, b). ref b = 1) xs" and "kept \<equiv> dropWhile (\<lambda>(a, b). ref b = 1) xs"
  shows "\<exists>h'. pbuf_free p h = Some (of_nat (length gone), h') \<and>
    (\<forall>a. pbufs h' a =
       (if a \<in> fst ` set gone then None
        else case kept of
            [] \<Rightarrow> pbufs h a
          | (c, b) # _ \<Rightarrow> if a = c then Some (b\<lparr>ref := ref b - 1\<rparr>) else pbufs h a))"
proof -
  have "pbufs (unref_chain xs h) a =
       (if a \<in> fst ` set gone then None
        else case kept of
            [] \<Rightarrow> pbufs h a
          | (c, b) # _ \<Rightarrow> if a = c then Some (b\<lparr>ref := ref b - 1\<rparr>) else pbufs h a)" for a
  proof (cases kept)
    case Nil
    then have k: "dropWhile (\<lambda>(a, b). ref b = 1) xs = []" by (simp only: kept_def)
    show ?thesis unfolding unref_chain_def Let_def k Nil list.case pbufs_release_all gone_def ..
  next
    case (Cons x ys)
    obtain c b where x: "x = (c, b)" by (cases x)
    have k: "dropWhile (\<lambda>(a, b). ref b = 1) xs = (c, b) # ys" using Cons x by (simp only: kept_def)
    have xs: "xs = gone @ (c, b) # ys" unfolding gone_def k [symmetric] by simp
    have "c \<notin> fst ` set gone" using chain_distinct [OF assms(1)] unfolding xs by simp
    then show ?thesis
      unfolding unref_chain_def Let_def k Cons x list.case gone_def [symmetric]
      by (simp add: pbufs_release_all)
  qed
  then show ?thesis using pbuf_free_eq [OF assms(1-3)] unfolding gone_def by blast
qed

theorem pbuf_free_spec_witness:
  "\<exists>h'. pbuf_free (Some 1) example_heap = Some (2, h') \<and> pbufs h' 1 = None \<and> pbufs h' 2 = None \<and>
     pbufs h' 3 = pbufs example_heap 3"
proof -
  have e: "takeWhile (\<lambda>(a, b). ref b = 1) example_xs = example_xs" "dropWhile (\<lambda>(a, b). ref b = 1) example_xs = []"
      "example_xs \<noteq> []" "fst ` set example_xs = {1, 2}" "length example_xs = 2"
    by (auto simp: example_xs_def example_pbuf_def)
  show ?thesis using pbuf_free_spec [OF example_chain(1) e(3) example_chain(3)] by (auto simp: e)
qed

text \<open>C16: \<^verbatim>\<open>pbuf_copy_partial\<close> copies exactly the bytes of the packet from the offset on, as many
  as there are up to the length asked for, writes nothing else of the destination and returns
  their number.\<close>

theorem pbuf_copy_partial_correct:
  fixes offset :: u16
  assumes "chain (pbufs h) (Some a) xs" "packet (map snd xs)" "unat n \<le> length dst"
  defines "ds \<equiv> take (unat n) (drop (unat offset) (content (map snd xs)))"
  shows "pbuf_copy_partial (Some a) (Some dst) n offset h =
    Some (of_nat (length ds), ds @ drop (length ds) dst)"
  using copy_partial_loop_eq [OF assms(1,2), of 0 n dst offset] assms(3)
  unfolding ds_def by (simp add: pbuf_copy_partial_def)

theorem pbuf_copy_partial_correct_witness:
  "pbuf_copy_partial (Some 1) (Some [0, 0, 0, 0]) 3 1 example_heap = Some (3, [11, 12, 13, 0])"
proof -
  have "unat (3 :: u16) \<le> length [0, 0, 0, 0 :: u8]" by simp
  from pbuf_copy_partial_correct [OF example_chain(1,2) this, of 1]
  show ?thesis unfolding example_chain(5) by simp
qed

section \<open>Single bytes\<close>

lemma pbuf_skip_eq:
  "chain (pbufs h) p xs \<Longrightarrow> unat off < total_len (map snd xs) \<Longrightarrow>
   \<exists>ys a b zs i. xs = ys @ (a, b) # zs \<and> pbuf_skip_const p off h = Some (Some a, i) \<and>
     pbufs h a = Some b \<and> i < len b \<and> unat off = total_len (map snd ys) + unat i"
proof (induction xs arbitrary: p off)
  case (Cons x xs)
  obtain a b where x: "x = (a, b)" by (cases x)
  have c: "p = Some a" "pbufs h a = Some b" "chain (pbufs h) (pnext b) xs" using Cons(2) x by simp_all
  show ?case
  proof (cases "len b \<le> off")
    case True
    then have u: "unat (off - len b) = unat off - unat (len b)" "unat (len b) \<le> unat off"
      by (simp_all add: unat_minus word_le_nat_alt)
    then have "unat (off - len b) < total_len (map snd xs)" using Cons(3) x by simp
    from Cons(1) [OF c(3) this]
    obtain ys a' b' zs i where IH: "xs = ys @ (a', b') # zs" "pbuf_skip_const (pnext b) (off - len b) h = Some (Some a', i)"
      "pbufs h a' = Some b'" "i < len b'" "unat (off - len b) = total_len (map snd ys) + unat i" by blast
    have "pbuf_skip_const p off h = Some (Some a', i)"
      using True c IH(2) by (subst pbuf_skip_const.simps) simp
    moreover have "x # xs = (x # ys) @ (a', b') # zs" using IH(1) by simp
    moreover have "unat off = total_len (map snd (x # ys)) + unat i" using u IH(5) x by simp
    ultimately show ?thesis using IH(3,4) by blast
  next
    case False
    then have "pbuf_skip_const p off h = Some (Some a, off)"
      using c by (subst pbuf_skip_const.simps) simp
    then show ?thesis using x c False by (intro exI [of _ "[]"]) auto
  qed
qed simp

lemma pbuf_skip_none:
  "chain (pbufs h) p xs \<Longrightarrow> total_len (map snd xs) \<le> unat off \<Longrightarrow>
   \<exists>i. pbuf_skip_const p off h = Some (None, i)"
proof (induction xs arbitrary: p off)
  case Nil
  then show ?case by (subst pbuf_skip_const.simps) simp
next
  case (Cons x xs)
  obtain a b where x: "x = (a, b)" by (cases x)
  have c: "p = Some a" "pbufs h a = Some b" "chain (pbufs h) (pnext b) xs" using Cons(2) x by simp_all
  have le: "unat (len b) \<le> unat off" using Cons(3) x by simp
  then have "total_len (map snd xs) \<le> unat (off - len b)" using Cons(3) x by (simp add: unat_minus)
  from Cons(1) [OF c(3) this] show ?case
    using c le by (subst pbuf_skip_const.simps) (simp add: word_le_nat_alt)
qed

lemma nth_content_split:
  assumes "packet (map snd (ys @ (a, b) # zs))" "i < unat (len b)"
  shows "content (map snd (ys @ (a, b) # zs)) ! (total_len (map snd ys) + i) = pdata b ! i"
proof -
  have "length (content (map snd ys)) = total_len (map snd ys)" "payload_ok b"
    using assms(1) by (auto simp: packet_append intro: length_content_with)
  then show ?thesis using assms(2) by (simp add: nth_append)
qed

lemma pbuf_try_get_at_eq:
  assumes "chain (pbufs h) p xs" "packet (map snd xs)"
  shows "pbuf_try_get_at p off h =
    Some (if unat off < total_len (map snd xs) then uint (content (map snd xs) ! unat off) else - 1)"
proof (cases "unat off < total_len (map snd xs)")
  case True
  from pbuf_skip_eq [OF assms(1) True]
  obtain ys a b zs i where s: "xs = ys @ (a, b) # zs" "pbuf_skip_const p off h = Some (Some a, i)"
     "pbufs h a = Some b" "i < len b" "unat off = total_len (map snd ys) + unat i" by blast
  have i: "unat i < unat (len b)" using s(4) by (simp add: word_less_nat_alt)
  have ok: "payload_ok b" using assms(2) s(1) by (simp add: packet_append)
  have "payload_read b (unat i) 1 = Some [pdata b ! unat i]"
    using payload_read_eq [OF ok, of "unat i" 1] i ok by (simp add: take_Suc_conv_app_nth hd_drop_conv_nth take_Suc)
  then show ?thesis
    using True s nth_content_split [of ys a b zs "unat i"] assms(2) i by (simp add: pbuf_try_get_at_def)
next
  case False
  then show ?thesis
    using pbuf_skip_none [OF assms(1), of off] by (auto simp: pbuf_try_get_at_def)
qed

lemma pbuf_get_at_eq:
  assumes "chain (pbufs h) p xs" "packet (map snd xs)"
  shows "pbuf_get_at p off h =
    Some (if unat off < total_len (map snd xs) then content (map snd xs) ! unat off else 0)"
  using pbuf_try_get_at_eq [OF assms, of off] by (simp add: pbuf_get_at_def)

section \<open>Searching\<close>

lemma nth_eq_take_drop:
  "i + n \<le> length xs \<Longrightarrow> n \<le> length ys \<Longrightarrow>
   (\<forall>j<n. xs ! (i + j) = ys ! j) \<longleftrightarrow> take n (drop i xs) = take n ys"
  by (auto simp: list_eq_iff_nth_eq)

lemma memcmp_loop_eq:
  assumes ch: "chain (pbufs h) q xs" "packet (map snd xs)"
    and n: "unat start + n \<le> total_len (map snd xs)" "unat start + n < 65536" "n \<le> length s2" "n < 65536"
  shows "\<exists>r. memcmp_loop q start s2 n i h = Some r \<and>
    (r = 0 \<longleftrightarrow> (\<forall>j. i \<le> j \<and> j < n \<longrightarrow> content (map snd xs) ! (unat start + j) = s2 ! j))"
proof (induction "n - i" arbitrary: i)
  case 0
  then show ?case by (subst memcmp_loop.simps) auto
next
  case (Suc k)
  then have i: "i < n" by simp
  have u: "unat (start + of_nat i) = unat start + i"
    using i n by (subst unat_add_u16) (simp_all add: unat_of_nat_u16)
  have g: "pbuf_get_at q (start + of_nat i) h = Some (content (map snd xs) ! (unat start + i))"
    using pbuf_get_at_eq [OF ch, of "start + of_nat i"] u i n by simp
  have nz: "(of_nat i + 1 :: u16) \<noteq> 0"
  proof -
    have "unat (of_nat (Suc i) :: u16) = Suc i" using i n by (intro unat_of_nat_u16) simp
    then show ?thesis by (metis Suc_neq_Zero add.commute of_nat_Suc unat_0)
  qed
  have all: "(\<forall>j. i \<le> j \<and> j < n \<longrightarrow> P j) \<longleftrightarrow> P i \<and> (\<forall>j. Suc i \<le> j \<and> j < n \<longrightarrow> P j)" for P
    using i by (metis Suc_leD Suc_le_eq le_neq_implies_less order_refl)
  have k: "k = n - Suc i" using Suc(2) by simp
  obtain r where IH: "memcmp_loop q start s2 n (Suc i) h = Some r"
    "r = 0 \<longleftrightarrow> (\<forall>j. Suc i \<le> j \<and> j < n \<longrightarrow> content (map snd xs) ! (unat start + j) = s2 ! j)"
    using Suc(1) [OF k] by blast
  show ?case
    unfolding all [of "\<lambda>j. content (map snd xs) ! (unat start + j) = s2 ! j"]
    using i g nz n(3) IH by (subst memcmp_loop.simps) auto
qed

lemma pbuf_memcmp_eq:
  assumes ch: "chain (pbufs h) (Some a) xs" "packet (map snd xs)"
    and n: "unat off + unat n \<le> total_len (map snd xs)" "unat n \<le> length s2"
  shows "\<exists>r. pbuf_memcmp (Some a) off s2 n h = Some r \<and>
    (r = 0 \<longleftrightarrow> take (unat n) (drop (unat off) (content (map snd xs))) = take (unat n) s2)"
proof -
  obtain b xs' where xs: "xs = (a, b) # xs'" using ch(1) by (cases xs) auto
  have tot: "pbufs h a = Some b" "unat (tot_len b) = total_len (map snd xs)" using ch xs by simp_all
  have lc: "length (content (map snd xs)) = total_len (map snd xs)" using length_content [OF ch(2)] .
  have big: "total_len (map snd xs) < 65536" using tot(2) unat_u16_less [of "tot_len b"] by linarith
  show ?thesis
  proof (cases "n = 0")
    case True
    obtain q i where "pbuf_skip_const (Some a) off h = Some (q, i)"
      using pbuf_skip_eq [OF ch(1), of off] pbuf_skip_none [OF ch(1), of off] by (metis not_le_imp_less)
    moreover have "memcmp_loop q i s2 0 0 h = Some 0" for q i by (subst memcmp_loop.simps) simp
    ultimately show ?thesis using True tot n by (simp add: pbuf_memcmp_def deref_def)
  next
    case False
    then have "0 < unat n" by (simp add: unat_gt_0)
    then have "unat off < total_len (map snd xs)" using n by linarith
    from pbuf_skip_eq [OF ch(1) this]
    obtain ys c d zs i where s: "xs = ys @ (c, d) # zs" "pbuf_skip_const (Some a) off h = Some (Some c, i)"
      "pbufs h c = Some d" "i < len d" "unat off = total_len (map snd ys) + unat i" by blast
    let ?zs = "(c, d) # zs"
    have z: "chain (pbufs h) (Some c) ?zs" "packet (map snd ?zs)"
      using ch s(1) by (auto dest: chain_suffix simp: packet_append)
    have cs: "drop (unat off) (content (map snd xs)) = drop (unat i) (content (map snd ?zs))"
    proof -
      have "length (content (map snd ys)) = total_len (map snd ys)"
        using ch(2) s(1) by (auto simp: packet_append intro: length_content_with)
      then show ?thesis using s(1,5) by simp
    qed
    have tz: "unat i + unat n \<le> total_len (map snd ?zs)" using n(1) s(1,5) by simp
    moreover have "total_len (map snd ?zs) \<le> total_len (map snd xs)" using s(1) by simp
    ultimately have "unat i + unat n < 65536" using big by linarith
    from memcmp_loop_eq [OF z tz this n(2), of 0]
    obtain r where r: "memcmp_loop (Some c) i s2 (unat n) 0 h = Some r"
      "r = 0 \<longleftrightarrow> (\<forall>j < unat n. content (map snd ?zs) ! (unat i + j) = s2 ! j)" by auto
    have lz: "length (content (map snd ?zs)) = total_len (map snd ?zs)" using length_content [OF z(2)] .
    have "(\<forall>j < unat n. content (map snd ?zs) ! (unat i + j) = s2 ! j) \<longleftrightarrow>
        take (unat n) (drop (unat i) (content (map snd ?zs))) = take (unat n) s2"
      using tz n(2) lz by (intro nth_eq_take_drop) simp_all
    with r s(2) tot n(1) cs show ?thesis by (simp add: pbuf_memcmp_def deref_def)
  qed
qed

lemma memfind_loop_eq:
  assumes ch: "chain (pbufs h) (Some a) xs" "packet (map snd xs)"
    and mem: "length mem = unat m" "unat m \<le> total_len (map snd xs)" "unat last_i = total_len (map snd xs) - unat m"
  defines "hit \<equiv> \<lambda>j. take (unat m) (drop j (content (map snd xs))) = mem"
  shows "unat i \<le> Suc (unat last_i) \<Longrightarrow> \<exists>r. memfind_loop (Some a) mem m last_i i h = Some r \<and>
    (unat i \<le> unat r \<and> unat r \<le> unat last_i \<and> hit (unat r) \<and> (\<forall>j. unat i \<le> j \<and> j < unat r \<longrightarrow> \<not> hit j) \<or>
     r = 0xFFFF \<and> (\<forall>j. unat i \<le> j \<and> j \<le> unat last_i \<longrightarrow> \<not> hit j))"
proof (induction "Suc (unat last_i) - unat i" arbitrary: i)
  case 0
  then have "\<not> i \<le> last_i" by (simp add: word_le_nat_alt)
  then show ?case using 0 by (subst memfind_loop.simps) auto
next
  case (Suc k)
  then have le: "unat i \<le> unat last_i" by simp
  then have "unat i + unat m \<le> total_len (map snd xs)" using mem by simp
  from pbuf_memcmp_eq [OF ch this, of mem] mem(1)
  obtain r where r: "pbuf_memcmp (Some a) i mem m h = Some r" "r = 0 \<longleftrightarrow> hit (unat i)"
    by (auto simp: hit_def)
  show ?case
  proof (cases "hit (unat i)")
    case True
    then have "memfind_loop (Some a) mem m last_i i h = Some i"
      using r le by (subst memfind_loop.simps) (simp add: word_le_nat_alt)
    then show ?thesis using True le by auto
  next
    case False
    have step: "memfind_loop (Some a) mem m last_i i h = memfind_loop (Some a) mem m last_i (i + 1) h"
      using r le False by (subst memfind_loop.simps) (simp add: word_le_nat_alt)
    have "unat i < 65535"
    proof (rule ccontr)
      assume "\<not> unat i < 65535"
      then have "unat i = 65535" using unat_u16_less [of i] by linarith
      then have "unat last_i = 65535" using le unat_u16_less [of last_i] by linarith
      obtain b xs' where "xs = (a, b) # xs'" using ch(1) by (cases xs) auto
      then have "total_len (map snd xs) < 65536" using ch(2) unat_u16_less [of "tot_len b"] by (simp only: packet.simps list.map snd_conv total_len_simps)
      then have "unat m = 0" using \<open>unat last_i = 65535\<close> mem by linarith
      then show False using False mem(1) by (simp add: hit_def)
    qed
    then have u: "unat (i + 1) = Suc (unat i)" by (subst unat_add_u16) simp_all
    then have "k = Suc (unat last_i) - unat (i + 1)" "unat (i + 1) \<le> Suc (unat last_i)" using Suc(2) le by simp_all
    from Suc(1) [OF this] obtain r' where r': "memfind_loop (Some a) mem m last_i (i + 1) h = Some r'"
      "Suc (unat i) \<le> unat r' \<and> unat r' \<le> unat last_i \<and> hit (unat r') \<and> (\<forall>j. Suc (unat i) \<le> j \<and> j < unat r' \<longrightarrow> \<not> hit j) \<or>
       r' = 0xFFFF \<and> (\<forall>j. Suc (unat i) \<le> j \<and> j \<le> unat last_i \<longrightarrow> \<not> hit j)"
      unfolding u by blast
    have ext: "\<not> hit j" if "unat i \<le> j" "Suc (unat i) \<le> j \<longrightarrow> \<not> hit j" for j
      using that False by (cases "j = unat i") auto
    have "unat i \<le> unat r' \<and> unat r' \<le> unat last_i \<and> hit (unat r') \<and> (\<forall>j. unat i \<le> j \<and> j < unat r' \<longrightarrow> \<not> hit j) \<or>
       r' = 0xFFFF \<and> (\<forall>j. unat i \<le> j \<and> j \<le> unat last_i \<longrightarrow> \<not> hit j)"
      using r'(2) ext by (meson Suc_leD)
    then show ?thesis unfolding step r'(1) by blast
  qed
qed

text \<open>C18: \<^verbatim>\<open>pbuf_memfind\<close> ends and returns the first position from the start offset on at which
  the bytes occur in the packet, across the borders of its pbufs, and \<^verbatim>\<open>0xFFFF\<close> when there is
  none.\<close>

theorem pbuf_memfind_first:
  assumes "chain (pbufs h) (Some a) xs" "packet (map snd xs)" "length mem = unat m"
  defines "hit \<equiv> \<lambda>j. j + unat m \<le> total_len (map snd xs) \<and>
     take (unat m) (drop j (content (map snd xs))) = mem"
  shows "\<exists>r. pbuf_memfind (Some a) mem m start h = Some r \<and>
    (unat start \<le> unat r \<and> hit (unat r) \<and> (\<forall>j. unat start \<le> j \<and> j < unat r \<longrightarrow> \<not> hit j) \<or>
     r = 0xFFFF \<and> (\<forall>j \<ge> unat start. \<not> hit j))"
proof -
  obtain b xs' where xs: "xs = (a, b) # xs'" using assms(1) by (cases xs) auto
  have tot: "pbufs h a = Some b" "unat (tot_len b) = total_len (map snd xs)" using assms(1,2) xs by simp_all
  show ?thesis
  proof (cases "unat m + unat start \<le> unat (tot_len b)")
    case True
    then have m: "unat m \<le> total_len (map snd xs)" "unat (tot_len b - m) = total_len (map snd xs) - unat m"
      using tot by (simp_all add: unat_minus)
    have "unat start \<le> Suc (unat (tot_len b - m))" using True tot m by simp
    from memfind_loop_eq [OF assms(1-3) m this]
    obtain r where r: "memfind_loop (Some a) mem m (tot_len b - m) start h = Some r"
      and c: "unat start \<le> unat r \<and> unat r \<le> unat (tot_len b - m) \<and>
         take (unat m) (drop (unat r) (content (map snd xs))) = mem \<and>
         (\<forall>j. unat start \<le> j \<and> j < unat r \<longrightarrow> take (unat m) (drop j (content (map snd xs))) \<noteq> mem) \<or>
       r = 0xFFFF \<and> (\<forall>j. unat start \<le> j \<and> j \<le> unat (tot_len b - m) \<longrightarrow>
          take (unat m) (drop j (content (map snd xs))) \<noteq> mem)"
      by blast
    have "pbuf_memfind (Some a) mem m start h = Some r"
      using True tot r by (simp add: pbuf_memfind_def deref_def Let_def)
    moreover have "j \<le> unat (tot_len b - m) \<longleftrightarrow> j + unat m \<le> total_len (map snd xs)" for j
      using m by linarith
    ultimately show ?thesis using c unfolding hit_def by auto
  next
    case False
    then have "pbuf_memfind (Some a) mem m start h = Some 0xFFFF"
      using tot by (simp add: pbuf_memfind_def deref_def Let_def)
    moreover have "\<not> hit j" if "unat start \<le> j" for j using False tot that by (simp add: hit_def)
    ultimately show ?thesis by blast
  qed
qed


theorem pbuf_memfind_first_witness: "pbuf_memfind (Some 1) [12, 13] 2 0 example_heap = Some 2"
proof -
  let ?hit = "\<lambda>j. j + 2 \<le> 5 \<and> take 2 (drop j [10, 11, 12, 13, 14 :: u8]) = [12, 13]"
  have hit: "?hit j \<longleftrightarrow> j = 2" for j
  proof -
    consider "j = 0" | "j = 1" | "j = 2" | "j = 3" | "4 \<le> j" by linarith
    then show ?thesis by cases simp_all
  qed
  have "length [12, 13 :: u8] = unat (2 :: u16)" by simp
  from pbuf_memfind_first [OF example_chain(1,2) this, of 0]
  obtain r where r: "pbuf_memfind (Some 1) [12, 13] 2 0 example_heap = Some r"
    "?hit (unat r) \<or> (\<forall>j. \<not> ?hit j)"
    unfolding example_chain(4,5) by auto
  from r(2) have "unat r = unat (2 :: u16)" unfolding hit by simp
  then have "r = 2" by (simp only: word_unat_eq_iff)
  then show ?thesis using r(1) by simp
qed

end
