(* ===== verification/InetChksum.thy ===== *)
theory InetChksum
  imports Pbuf Lwip_Def
begin

text \<open>
  The Internet checksum: \<^verbatim>\<open>lwip/src/core/inet_chksum.c\<close> with its three algorithms (this build
  compiles number 2) and the functions over pbuf chains. A buffer is the list of its bytes; what
  the code reads of its address is a parameter: whether it is odd, and whether the first aligned
  16-bit word starts at a multiple of four. The host is little-endian.
\<close>

section \<open>Definitions\<close>

definition FOLD_U32T :: "u32 \<Rightarrow> u32" where
  "FOLD_U32T u = drop_bit 16 u + (u AND 0x0000ffff)"

definition SWAP_BYTES_IN_WORD :: "u32 \<Rightarrow> u32" where
  "SWAP_BYTES_IN_WORD w = push_bit 8 (w AND 0xff) OR drop_bit 8 (w AND 0xff00)"

text \<open>Algorithm 1: big-endian words, then a byte swap.\<close>

fun chksum1_loop :: "bytes \<Rightarrow> u32 \<Rightarrow> u32" where
  "chksum1_loop (a # b # bs) acc = chksum1_loop bs (acc + (push_bit 8 (ucast a) OR ucast b))"
| "chksum1_loop [a] acc = acc + push_bit 8 (ucast a)"
| "chksum1_loop [] acc = acc"

definition lwip_standard_chksum1 :: "bytes \<Rightarrow> u16" where
  "lwip_standard_chksum1 bs =
     (let acc = chksum1_loop bs 0;
          acc = drop_bit 16 acc + (acc AND 0x0000ffff);
          acc = (if acc AND 0xffff0000 \<noteq> 0 then drop_bit 16 acc + (acc AND 0x0000ffff) else acc)
      in lwip_htons (ucast acc))"

text \<open>
  The loop over aligned 16-bit words that algorithms 2 and 3 share: the sum and the bytes left.
\<close>

fun sum16_loop :: "bytes \<Rightarrow> u32 \<Rightarrow> u32 \<times> bytes" where
  "sum16_loop (a # b # bs) acc = sum16_loop bs (acc + ucast (le16_of_bytes a b))"
| "sum16_loop bs acc = (acc, bs)"

text \<open>Setting byte 0 and byte 1 of the variable \<^verbatim>\<open>t\<close> (0 when there is no such byte).\<close>

definition end_bytes :: "u8 \<Rightarrow> bytes \<Rightarrow> u16" where
  "end_bytes t1 rest = le16_of_bytes (case rest of [] \<Rightarrow> 0 | c # _ \<Rightarrow> c) t1"

definition chksum_tail :: "bool \<Rightarrow> u8 \<Rightarrow> u32 \<Rightarrow> bytes \<Rightarrow> u16" where
  "chksum_tail od t1 acc bs =
     (let (acc, rest) = sum16_loop bs acc;
          acc = acc + ucast (end_bytes t1 rest);
          acc = FOLD_U32T acc;
          acc = FOLD_U32T acc;
          acc = (if od then SWAP_BYTES_IN_WORD acc else acc)
      in ucast acc)"

text \<open>The byte that is read first when the address is odd.\<close>

definition odd_start :: "bool \<Rightarrow> bytes \<Rightarrow> u8 \<times> bytes" where
  "odd_start od bs = (case bs of [] \<Rightarrow> (0, []) | b # bs' \<Rightarrow> if od then (b, bs') else (0, bs))"

text \<open>Algorithm 2.\<close>

definition lwip_standard_chksum2 :: "bool \<Rightarrow> bytes \<Rightarrow> u16" where
  "lwip_standard_chksum2 od bs =
     (let (t1, bs) = odd_start od bs in chksum_tail od t1 0 bs)"

text \<open>Algorithm 3: eight bytes at a time, with the carry of the 32-bit sum added back.\<close>

definition add_carry :: "u32 \<Rightarrow> u32 \<Rightarrow> u32" where
  "add_carry acc x = (let tmp = acc + x in if tmp < acc then tmp + 1 else tmp)"

fun sum32_loop :: "bytes \<Rightarrow> u32 \<Rightarrow> u32 \<times> bytes" where
  "sum32_loop (a # b # c # d # e # f # g # h # bs) acc =
     sum32_loop bs (add_carry (add_carry acc (le32_of_bytes a b c d)) (le32_of_bytes e f g h))"
| "sum32_loop bs acc = (acc, bs)"

definition lwip_standard_chksum3 :: "bool \<Rightarrow> bool \<Rightarrow> bytes \<Rightarrow> u16" where
  "lwip_standard_chksum3 od aligned4 bs =
     (let (t1, bs) = odd_start od bs;
          (acc, bs) = (case bs of
              a # b # bs' \<Rightarrow> if \<not> aligned4 then (ucast (le16_of_bytes a b), bs') else (0, bs)
            | _ \<Rightarrow> (0, bs));
          (acc, bs) = sum32_loop bs acc;
          acc = FOLD_U32T acc
      in chksum_tail od t1 acc bs)"

text \<open>The algorithm of this build.\<close>

abbreviation LWIP_CHKSUM :: "bool \<Rightarrow> bytes \<Rightarrow> u16" where
  "LWIP_CHKSUM \<equiv> lwip_standard_chksum2"

definition inet_chksum :: "bool \<Rightarrow> bytes \<Rightarrow> u16" where
  "inet_chksum od bs = NOT (LWIP_CHKSUM od bs)"

text \<open>
  The loop over a chain; \<open>od a\<close> is the parity of the payload address of the pbuf at \<open>a\<close>. The
  result is the sum and \<^verbatim>\<open>swapped\<close>.
\<close>

partial_function (option) chain_sum ::
  "(nat \<Rightarrow> bool) \<Rightarrow> nat option \<Rightarrow> pbuf_heap \<Rightarrow> u32 \<Rightarrow> bool \<Rightarrow> (u32 \<times> bool) option" where
  "chain_sum od q h acc swapped =
     (case q of
        None \<Rightarrow> Some (acc, swapped)
      | Some a \<Rightarrow> do {
          b \<leftarrow> pbufs h a;
          ds \<leftarrow> payload_read b 0 (unat (len b));
          let acc = FOLD_U32T (acc + ucast (LWIP_CHKSUM (od a) ds));
          (if len b mod 2 \<noteq> 0 then chain_sum od (pnext b) h (SWAP_BYTES_IN_WORD acc) (\<not> swapped)
           else chain_sum od (pnext b) h acc swapped)
        })"

declare chain_sum.simps [code]

definition inet_chksum_pbuf :: "(nat \<Rightarrow> bool) \<Rightarrow> nat option \<Rightarrow> pbuf_heap \<Rightarrow> u16 option" where
  "inet_chksum_pbuf od p h = do {
     (acc, swapped) \<leftarrow> chain_sum od p h 0 False;
     let acc = (if swapped then SWAP_BYTES_IN_WORD acc else acc);
     Some (ucast (NOT (acc AND 0xffff)))
   }"

text \<open>The common end of the pseudo header checksums.\<close>

definition pseudo_end :: "u8 \<Rightarrow> u16 \<Rightarrow> u32 \<Rightarrow> bool \<Rightarrow> u16" where
  "pseudo_end proto proto_len acc swapped =
     (let acc = (if swapped then SWAP_BYTES_IN_WORD acc else acc);
          acc = acc + ucast (lwip_htons (ucast proto));
          acc = acc + ucast (lwip_htons proto_len);
          acc = FOLD_U32T acc;
          acc = FOLD_U32T acc
      in ucast (NOT (acc AND 0xffff)))"

definition inet_cksum_pseudo_base ::
  "(nat \<Rightarrow> bool) \<Rightarrow> nat option \<Rightarrow> u8 \<Rightarrow> u16 \<Rightarrow> u32 \<Rightarrow> pbuf_heap \<Rightarrow> u16 option" where
  "inet_cksum_pseudo_base od p proto proto_len acc h = do {
     (acc, swapped) \<leftarrow> chain_sum od p h acc False;
     Some (pseudo_end proto proto_len acc swapped)
   }"

text \<open>The sum of the two IPv4 addresses (as stored, in network order), folded.\<close>

definition addr_sum :: "u32 \<Rightarrow> u32 \<Rightarrow> u32" where
  "addr_sum src dest =
     (let acc = src AND 0xffff;
          acc = acc + (drop_bit 16 src AND 0xffff);
          acc = acc + (dest AND 0xffff);
          acc = acc + (drop_bit 16 dest AND 0xffff)
      in FOLD_U32T (FOLD_U32T acc))"

definition inet_chksum_pseudo ::
  "(nat \<Rightarrow> bool) \<Rightarrow> nat option \<Rightarrow> u8 \<Rightarrow> u16 \<Rightarrow> u32 \<Rightarrow> u32 \<Rightarrow> pbuf_heap \<Rightarrow> u16 option" where
  "inet_chksum_pseudo od p proto proto_len src dest h =
     inet_cksum_pseudo_base od p proto proto_len (addr_sum src dest) h"

definition ip_chksum_pseudo ::
  "(nat \<Rightarrow> bool) \<Rightarrow> nat option \<Rightarrow> u8 \<Rightarrow> u16 \<Rightarrow> u32 \<Rightarrow> u32 \<Rightarrow> pbuf_heap \<Rightarrow> u16 option" where
  "ip_chksum_pseudo od p proto proto_len src dest h =
     inet_chksum_pseudo od p proto proto_len src dest h"

text \<open>The variant that sums only the first \<open>chksum_len\<close> bytes.\<close>

partial_function (option) chain_sum_partial ::
  "(nat \<Rightarrow> bool) \<Rightarrow> nat option \<Rightarrow> pbuf_heap \<Rightarrow> u16 \<Rightarrow> u32 \<Rightarrow> bool \<Rightarrow> (u32 \<times> bool) option" where
  "chain_sum_partial od q h chksum_len acc swapped =
     (case q of
        None \<Rightarrow> Some (acc, swapped)
      | Some a \<Rightarrow>
          if chksum_len = 0 then Some (acc, swapped)
          else do {
            b \<leftarrow> pbufs h a;
            let chklen = min (len b) chksum_len;
            ds \<leftarrow> payload_read b 0 (unat chklen);
            let acc = acc + ucast (LWIP_CHKSUM (od a) ds);
            let chksum_len = chksum_len - chklen;
            lwip_assert (chksum_len < 0x7fff);
            let acc = FOLD_U32T acc;
            (if len b mod 2 \<noteq> 0
             then chain_sum_partial od (pnext b) h chksum_len (SWAP_BYTES_IN_WORD acc) (\<not> swapped)
             else chain_sum_partial od (pnext b) h chksum_len acc swapped)
          })"

declare chain_sum_partial.simps [code]

definition inet_cksum_pseudo_partial_base ::
  "(nat \<Rightarrow> bool) \<Rightarrow> nat option \<Rightarrow> u8 \<Rightarrow> u16 \<Rightarrow> u16 \<Rightarrow> u32 \<Rightarrow> pbuf_heap \<Rightarrow> u16 option" where
  "inet_cksum_pseudo_partial_base od p proto proto_len chksum_len acc h = do {
     (acc, swapped) \<leftarrow> chain_sum_partial od p h chksum_len acc False;
     Some (pseudo_end proto proto_len acc swapped)
   }"

definition inet_chksum_pseudo_partial ::
  "(nat \<Rightarrow> bool) \<Rightarrow> nat option \<Rightarrow> u8 \<Rightarrow> u16 \<Rightarrow> u16 \<Rightarrow> u32 \<Rightarrow> u32 \<Rightarrow> pbuf_heap \<Rightarrow> u16 option" where
  "inet_chksum_pseudo_partial od p proto proto_len chksum_len src dest h =
     inet_cksum_pseudo_partial_base od p proto proto_len chksum_len (addr_sum src dest) h"

definition ip_chksum_pseudo_partial ::
  "(nat \<Rightarrow> bool) \<Rightarrow> nat option \<Rightarrow> u8 \<Rightarrow> u16 \<Rightarrow> u16 \<Rightarrow> u32 \<Rightarrow> u32 \<Rightarrow> pbuf_heap \<Rightarrow> u16 option" where
  "ip_chksum_pseudo_partial od p proto proto_len chksum_len src dest h =
     inet_chksum_pseudo_partial od p proto proto_len chksum_len src dest h"

text \<open>Copying and summing.\<close>

definition lwip_chksum_copy :: "bool \<Rightarrow> bytes \<Rightarrow> bytes \<times> u16" where
  "lwip_chksum_copy od src = (src, LWIP_CHKSUM od src)"

section \<open>One's complement sums\<close>

text \<open>The reference: the sum of the little-endian 16-bit words, an odd last byte padded with zero.\<close>

fun word_sum :: "bytes \<Rightarrow> nat" where
  "word_sum (a # b # bs) = unat a + 256 * unat b + word_sum bs"
| "word_sum [a] = unat a"
| "word_sum [] = 0"

text \<open>The one's complement representative of a sum: 0 only for 0, else between 1 and 65535.\<close>

definition ones :: "nat \<Rightarrow> nat" where
  "ones n = (if n = 0 then 0 else (n - 1) mod 65535 + 1)"

lemma ones_le: "ones n \<le> 65535"
  by (simp add: ones_def Suc_le_eq)

lemma ones_0_iff [simp]: "ones n = 0 \<longleftrightarrow> n = 0"
  by (simp add: ones_def)

lemma ones_mod: "ones n mod 65535 = n mod 65535"
  by (cases n) (simp_all add: ones_def mod_Suc_eq)

lemma ones_unique:
  assumes "m \<le> 65535" "m = 0 \<longleftrightarrow> n = 0" "m mod 65535 = n mod 65535"
  shows "ones n = m"
proof (cases "n = 0")
  case False
  have eq: "m mod 65535 = ones n mod 65535" using assms(3) by (simp add: ones_mod)
  have r: "0 < m" "m \<le> 65535" "0 < ones n" "ones n \<le> 65535"
    using False assms(1,2) ones_le [of n] by (simp_all add: ones_def)
  have "x mod 65535 = (if x = 65535 then 0 else x)" if "0 < x" "x \<le> 65535" for x :: nat
    using that by simp
  then show ?thesis using eq r by (simp split: if_splits)
qed (use assms in simp)

lemma ones_cong: "m = 0 \<longleftrightarrow> n = 0 \<Longrightarrow> m mod 65535 = n mod 65535 \<Longrightarrow> ones m = ones n"
  by (rule ones_unique) (simp_all add: ones_le ones_mod)

lemma ones_id: "n \<le> 65535 \<Longrightarrow> ones n = n"
  by (rule ones_unique) simp_all

lemma ones_add: "ones (ones m + n) = ones (m + n)"
proof (rule ones_cong)
  show "(ones m + n) mod 65535 = (m + n) mod 65535"
    by (metis mod_add_left_eq ones_mod)
qed simp

lemma ones_add_right: "ones (m + ones n) = ones (m + n)"
  using ones_add [of n m] by (simp add: add.commute)

lemma ones_mult: "ones (k * ones n) = ones (k * n)"
proof (rule ones_cong)
  show "(k * ones n) mod 65535 = (k * n) mod 65535"
    by (metis mod_mult_right_eq ones_mod)
qed simp

lemma mod_fold: "(n div 65536 + n mod 65536) mod 65535 = n mod 65535" for n :: nat
proof -
  define q r where qr: "q = n div 65536" "r = n mod 65536"
  have "n = 65535 * q + (q + r)" using div_mult_mod_eq [of n 65536] unfolding qr by linarith
  then have "n mod 65535 = (65535 * q + (q + r)) mod 65535" by (rule arg_cong)
  also have "\<dots> = (q + r) mod 65535" by (rule mod_mult_self4)
  finally show ?thesis unfolding qr by (rule sym)
qed

lemma ones_fold: "ones (n div 65536 + n mod 65536) = ones n"
proof (rule ones_cong [OF _ mod_fold])
  show "n div 65536 + n mod 65536 = 0 \<longleftrightarrow> n = 0" using div_mult_mod_eq [of n 65536] by auto
qed

lemma fold_le: "n < 4294967296 \<Longrightarrow> n div 65536 + n mod 65536 \<le> 131070" for n :: nat
proof -
  assume "n < 4294967296"
  then have "n div 65536 < 65536" by (simp add: less_mult_imp_div_less)
  moreover have "n mod 65536 < 65536" by simp
  ultimately show ?thesis by linarith
qed

lemma fold_le_small: "n \<le> 131070 \<Longrightarrow> n div 65536 + n mod 65536 \<le> 65535" for n :: nat
  by (cases "n < 65536") (simp_all add: le_div_geq le_mod_geq)

section \<open>The word operations\<close>

lemma unat_FOLD_U32T: "unat (FOLD_U32T w) = unat w div 65536 + unat w mod 65536"
proof -
  have a: "unat (drop_bit 16 w) = unat w div 65536"
    unfolding unat_drop_bit_eq drop_bit_eq_div [where ?'a = nat] by simp
  have "w AND 0xffff = take_bit 16 w" by (simp add: take_bit_eq_mask mask_numeral)
  then have "unat (w AND 0xffff) = take_bit 16 (unat w)" by (simp only: unsigned_take_bit_eq)
  then have b: "unat (w AND 0xffff) = unat w mod 65536" by (simp add: take_bit_eq_mod)
  have "unat w div 65536 + unat w mod 65536 < 4294967296"
    using fold_le [of "unat w"] by simp
  then show ?thesis unfolding FOLD_U32T_def by (subst unat_add_u32) (simp_all add: a b)
qed

lemma unat_FOLD_twice: "unat (FOLD_U32T (FOLD_U32T w)) = ones (unat w)"
proof -
  let ?n = "unat w div 65536 + unat w mod 65536"
  have "?n \<le> 131070" by (rule fold_le) simp
  then have "?n div 65536 + ?n mod 65536 \<le> 65535" by (rule fold_le_small)
  then have "ones ?n = ?n div 65536 + ?n mod 65536"
    using ones_id [of "?n div 65536 + ?n mod 65536"] by (simp only: ones_fold)
  then show ?thesis by (simp only: unat_FOLD_U32T ones_fold)
qed


lemma halves_less: "x \<le> 65535 \<Longrightarrow> y \<le> 65535 \<Longrightarrow> x + 65536 * y < 4294967296" for x y :: nat
  by linarith

lemma unat_u8_le: "unat (w :: u8) \<le> 255"
  using unat_u8_less [of w] by linarith

lemma ucast_of_nat: "(ucast (a :: 'a::len word) :: 'b::len word) = of_nat (unat a)"
  by simp

lemma le16_of_bytes_nat: "unat (le16_of_bytes a b) = unat a + 256 * unat b"
proof -
  have "\<not> bit (ucast a :: u16) n \<or> \<not> bit (push_bit 8 (ucast b) :: u16) n" for n
    by (auto simp: bit_simps dest: bit_imp_le_length)
  then have "le16_of_bytes a b = ucast a + push_bit 8 (ucast b)"
    unfolding le16_of_bytes_def by (simp only: disjunctive_add)
  also have "\<dots> = of_nat (unat a + 256 * unat b)"
    by (simp add: push_bit_eq_mult mult.commute)
  finally have "unat (le16_of_bytes a b) = unat (of_nat (unat a + 256 * unat b) :: u16)" by simp
  also have "\<dots> = unat a + 256 * unat b"
    using unat_u8_less [of a] unat_u8_less [of b] by (intro unat_of_nat_u16) linarith
  finally show ?thesis .
qed

lemma be16_nat: "unat (push_bit 8 (ucast a) OR ucast b :: u32) = 256 * unat a + unat b" for a b :: u8
proof -
  have "\<not> bit (push_bit 8 (ucast a) :: u32) n \<or> \<not> bit (ucast b :: u32) n" for n
    by (auto simp: bit_simps dest: bit_imp_le_length)
  then have "(push_bit 8 (ucast a) OR ucast b :: u32) = push_bit 8 (ucast a) + ucast b"
    by (simp only: disjunctive_add)
  also have "\<dots> = of_nat (256 * unat a + unat b)"
    by (simp add: push_bit_eq_mult mult.commute)
  finally have "unat (push_bit 8 (ucast a) OR ucast b :: u32) = unat (of_nat (256 * unat a + unat b) :: u32)" by simp
  also have "\<dots> = 256 * unat a + unat b"
    using unat_u8_less [of a] unat_u8_less [of b] by (intro unat_of_nat_u32) linarith
  finally show ?thesis .
qed

lemma le32_of_bytes_nat:
  "unat (le32_of_bytes a b c d) = unat a + 256 * unat b + 65536 * (unat c + 256 * unat d)"
proof -
  let ?x = "ucast a :: u32" and ?y = "push_bit 8 (ucast b) :: u32" and ?z = "push_bit 16 (ucast c) :: u32"
    and ?w = "push_bit 24 (ucast d) :: u32"
  have "?z OR ?w = ?z + ?w" by (rule disjunctive_add [symmetric]) (auto simp: bit_simps dest: bit_imp_le_length)
  moreover have "?y OR ?z OR ?w = ?y + (?z OR ?w)"
    by (rule disjunctive_add [symmetric]) (auto simp: bit_simps dest: bit_imp_le_length)
  moreover have "?x OR ?y OR ?z OR ?w = ?x + (?y OR ?z OR ?w)"
    by (rule disjunctive_add [symmetric]) (auto simp: bit_simps dest: bit_imp_le_length)
  ultimately have "le32_of_bytes a b c d = ?x + (?y + (?z + ?w))" by (simp only: le32_of_bytes_def)
  also have "\<dots> = of_nat (unat a + 256 * unat b + 65536 * (unat c + 256 * unat d))"
    by (simp add: push_bit_eq_mult algebra_simps)
  finally have "unat (le32_of_bytes a b c d) =
    unat (of_nat (unat a + 256 * unat b + 65536 * (unat c + 256 * unat d)) :: u32)" by simp
  also have "\<dots> = unat a + 256 * unat b + 65536 * (unat c + 256 * unat d)"
  proof (rule unat_of_nat_u32)
    have "unat a + 256 * unat b \<le> 65535" "unat c + 256 * unat d \<le> 65535"
      using unat_u8_le [of a] unat_u8_le [of b] unat_u8_le [of c] unat_u8_le [of d] by linarith+
    then show "unat a + 256 * unat b + 65536 * (unat c + 256 * unat d) < 4294967296" by (rule halves_less)
  qed
  finally show ?thesis .
qed

lemma swap_mod: "(256 * (n mod 256) + n div 256) mod 65535 = (256 * n) mod 65535" for n :: nat
proof -
  define q r where qr: "q = n div 256" "r = n mod 256"
  have "256 * n = 65535 * q + (256 * r + q)" using div_mult_mod_eq [of n 256] unfolding qr by linarith
  then have "(256 * n) mod 65535 = (65535 * q + (256 * r + q)) mod 65535" by (rule arg_cong)
  also have "\<dots> = (256 * r + q) mod 65535" by (rule mod_mult_self4)
  finally show ?thesis unfolding qr by (rule sym)
qed

text \<open>Swapping the bytes is multiplication by 256.\<close>

lemma unat_SWAP_BYTES:
  assumes "unat w \<le> 65535"
  shows "unat (SWAP_BYTES_IN_WORD w) = ones (256 * unat w)"
proof -
  let ?n = "unat w"
  have "w AND 0xff = take_bit 8 w" by (simp add: take_bit_eq_mask mask_numeral)
  then have "unat (w AND 0xff) = take_bit 8 ?n" by (simp only: unsigned_take_bit_eq)
  then have lo: "unat (w AND 0xff) = ?n mod 256" by (simp add: take_bit_eq_mod)
  have m: "(0xff00 :: u32) = push_bit 8 (mask 8)" by (simp add: mask_numeral push_bit_eq_mult)
  have tb: "drop_bit 8 (w AND 0xff00) = take_bit 8 (drop_bit 8 w)"
    unfolding m by (rule bit_word_eqI) (auto simp: bit_simps)
  then have "unat (drop_bit 8 (w AND 0xff00)) = take_bit 8 (drop_bit 8 ?n)"
    by (simp only: unsigned_take_bit_eq unat_drop_bit_eq)
  then have hi: "unat (drop_bit 8 (w AND 0xff00)) = ?n div 256"
    using assms by (simp add: take_bit_eq_mod drop_bit_eq_div)
  have "SWAP_BYTES_IN_WORD w = push_bit 8 (w AND 0xff) + drop_bit 8 (w AND 0xff00)"
    unfolding SWAP_BYTES_IN_WORD_def tb
    by (rule disjunctive_add [symmetric]) (auto simp: bit_simps)
  also have "\<dots> = of_nat (256 * unat (w AND 0xff) + unat (drop_bit 8 (w AND 0xff00)))"
    by (simp add: push_bit_eq_mult mult.commute)
  finally have "unat (SWAP_BYTES_IN_WORD w) = unat (of_nat (256 * (?n mod 256) + ?n div 256) :: u32)"
    by (simp only: lo hi)
  moreover have q: "?n div 256 \<le> 255" "?n mod 256 \<le> 255"
    using assms mod_less_divisor [of 256 ?n] by linarith+
  then have "unat (of_nat (256 * (?n mod 256) + ?n div 256) :: u32) = 256 * (?n mod 256) + ?n div 256"
    by (intro unat_of_nat_u32) linarith
  moreover have "ones (256 * ?n) = 256 * (?n mod 256) + ?n div 256"
    using q by (intro ones_unique) (linarith, auto simp: swap_mod)
  ultimately show ?thesis by simp
qed

section \<open>The algorithms\<close>

lemma ones_65536: "ones (65536 * n + m) = ones (n + m)"
proof (rule ones_cong)
  have "65536 * n + m = 65535 * n + (n + m)" by simp
  then show "(65536 * n + m) mod 65535 = (n + m) mod 65535" by (metis mod_mult_self4)
qed simp

lemma ones_256: "ones (65536 * n) = ones n"
  using ones_65536 [of n 0] by simp

lemma word_sum_bound: "2 * word_sum bs \<le> 65535 * (length bs + 1)"
proof (induction bs rule: word_sum.induct)
  case (1 a b bs)
  then show ?case using unat_u8_le [of a] unat_u8_le [of b] by simp
next
  case (2 a)
  then show ?case using unat_u8_le [of a] by simp
qed simp

lemma word_sum_Cons: "ones (word_sum (b # bs)) = ones (unat b + 256 * word_sum bs)"
proof (induction bs arbitrary: b)
  case (Cons c ds)
  have "ones (256 * word_sum (c # ds)) = ones (256 * ones (word_sum (c # ds)))" by (simp only: ones_mult)
  also have "\<dots> = ones (256 * (unat c + 256 * word_sum ds))" by (simp only: Cons ones_mult)
  also have "\<dots> = ones (65536 * word_sum ds + 256 * unat c)" by (simp add: algebra_simps)
  also have "\<dots> = ones (word_sum ds + 256 * unat c)" by (rule ones_65536)
  finally have e: "ones (256 * word_sum (c # ds)) = ones (word_sum ds + 256 * unat c)" .
  have "ones (unat b + 256 * word_sum (c # ds)) = ones (unat b + ones (256 * word_sum (c # ds)))"
    by (simp only: ones_add_right)
  also have "\<dots> = ones (word_sum (b # c # ds))" unfolding e ones_add_right by (simp add: ac_simps)
  finally show ?case by simp
qed simp

text \<open>The weight of what follows: 256 after an odd number of bytes.\<close>

definition weight :: "bool \<Rightarrow> nat" where "weight sw = (if sw then 256 else 1)"

lemma ones_weight2: "ones (weight s * (weight s * n)) = ones n"
  by (simp add: weight_def ones_256)

lemma ones_weight_xor: "ones (weight s * (weight t * n)) = ones (weight (s \<noteq> t) * n)"
  by (cases s; cases t) (simp_all add: weight_def ones_256)

lemma word_sum_append:
  "ones (word_sum (xs @ ys)) = ones (word_sum xs + weight (odd (length xs)) * word_sum ys)"
proof (induction xs rule: word_sum.induct)
  case (1 a b bs)
  then show ?case
    using ones_add_right [of "unat a + 256 * unat b" "word_sum (bs @ ys)"]
      ones_add_right [of "unat a + 256 * unat b" "word_sum bs + weight (odd (length bs)) * word_sum ys"]
    by (simp add: add.assoc)
next
  case (2 a)
  show ?case using word_sum_Cons [of a ys] by (simp add: weight_def)
qed (simp add: weight_def)

lemma unat_ucast_16: "unat (ucast (w :: u16) :: u32) = unat w"
proof -
  have "unat w < 2 ^ 32" by (rule less_trans [OF unat_u16_less]) simp
  then show ?thesis by (simp add: unsigned_ucast_eq take_bit_nat_eq_self)
qed

lemma unat_ucast_down: "unat (w :: u32) \<le> 65535 \<Longrightarrow> unat (ucast w :: u16) = unat w"
  by (simp add: unsigned_ucast_eq take_bit_nat_eq_self)

lemma sum16_loop_eq:
  "unat acc + word_sum bs < 4294967296 \<Longrightarrow>
   \<exists>acc' rest. sum16_loop bs acc = (acc', rest) \<and> length rest \<le> 1 \<and>
     unat acc' + word_sum rest = unat acc + word_sum bs"
proof (induction bs acc rule: sum16_loop.induct)
  case (1 a b bs acc)
  let ?w = "ucast (le16_of_bytes a b) :: u32"
  have w: "unat ?w = unat a + 256 * unat b"
    by (simp add: unat_ucast_16 le16_of_bytes_nat)
  have "unat (acc + ?w) = unat acc + unat ?w" using 1(2) w by (intro unat_add_u32) simp
  then show ?case using 1 w by (simp add: add.assoc)
qed simp_all


lemma chksum_tail_eq:
  assumes "unat acc + word_sum bs + 256 * unat t1 < 4294967296"
  shows "unat (chksum_tail od t1 acc bs) = ones (weight od * (unat acc + word_sum bs + 256 * unat t1))"
proof -
  obtain acc' rest where r: "sum16_loop bs acc = (acc', rest)" "length rest \<le> 1"
      "unat acc' + word_sum rest = unat acc + word_sum bs"
    using sum16_loop_eq [of acc bs] assms by auto
  have e: "unat (end_bytes t1 rest) = word_sum rest + 256 * unat t1"
    using r(2) by (cases rest) (simp_all add: end_bytes_def le16_of_bytes_nat)
  let ?s = "acc' + ucast (end_bytes t1 rest)"
  have s: "unat ?s = unat acc + word_sum bs + 256 * unat t1"
    using assms e r(3) by (subst unat_add_u32) (simp_all add: unat_ucast_16)
  let ?f = "FOLD_U32T (FOLD_U32T ?s)"
  have f: "unat ?f = ones (unat ?s)" by (rule unat_FOLD_twice)
  then have le: "unat ?f \<le> 65535" by (simp add: ones_le)
  have "unat (if od then SWAP_BYTES_IN_WORD ?f else ?f) = ones (weight od * unat ?s)"
    using unat_SWAP_BYTES [OF le] f by (simp add: weight_def ones_mult)
  moreover from this have "unat (if od then SWAP_BYTES_IN_WORD ?f else ?f) \<le> 65535" by (simp only: ones_le)
  ultimately show ?thesis
    unfolding chksum_tail_def Let_def r prod.case using s by (simp add: unat_ucast_down)
qed

lemma odd_start_eq:
  assumes "odd_start od bs = (t1, bs')"
  shows "ones (weight od * (word_sum bs' + 256 * unat t1)) = ones (word_sum bs)"
    "word_sum bs' + 256 * unat t1 \<le> 65535 * (length bs + 1)"
proof -
  have "ones (weight od * (word_sum bs' + 256 * unat t1)) = ones (word_sum bs) \<and>
    word_sum bs' + 256 * unat t1 \<le> 65535 * (length bs + 1)"
  proof (cases bs)
    case Nil
    then show ?thesis using assms by (auto simp: odd_start_def)
  next
    case (Cons b ds)
    show ?thesis
    proof (cases od)
      case True
      have "ones (256 * (word_sum ds + 256 * unat b)) = ones (65536 * unat b + 256 * word_sum ds)"
        by (simp add: algebra_simps)
      also have "\<dots> = ones (unat b + 256 * word_sum ds)" by (rule ones_65536)
      also have "\<dots> = ones (word_sum (b # ds))" by (rule word_sum_Cons [symmetric])
      finally show ?thesis
        using assms Cons True word_sum_bound [of ds] unat_u8_le [of b] by (auto simp: odd_start_def weight_def)
    next
      case False
      then show ?thesis
        using assms Cons word_sum_bound [of bs] by (auto simp: odd_start_def weight_def)
    qed
  qed
  then show "ones (weight od * (word_sum bs' + 256 * unat t1)) = ones (word_sum bs)"
    "word_sum bs' + 256 * unat t1 \<le> 65535 * (length bs + 1)" by blast+
qed

lemma chksum2_eq:
  assumes "length bs \<le> 65535"
  shows "unat (lwip_standard_chksum2 od bs) = ones (word_sum bs)"
proof -
  obtain t1 bs' where o: "odd_start od bs = (t1, bs')" by (cases "odd_start od bs")
  have "65535 * (length bs + 1) \<le> 65535 * 65536" using assms by simp
  then have "word_sum bs' + 256 * unat t1 < 4294967296" using odd_start_eq(2) [OF o] by linarith
  then show ?thesis
    using chksum_tail_eq [of 0 bs' t1 od] odd_start_eq(1) [OF o]
    by (simp add: lwip_standard_chksum2_def o)
qed

fun be_sum :: "bytes \<Rightarrow> nat" where
  "be_sum (a # b # bs) = 256 * unat a + unat b + be_sum bs"
| "be_sum [a] = 256 * unat a"
| "be_sum [] = 0"

lemma be_sum_ones: "ones (be_sum bs) = ones (256 * word_sum bs)"
proof (induction bs rule: be_sum.induct)
  case (1 a b bs)
  have "ones (256 * word_sum (a # b # bs)) = ones (65536 * unat b + (256 * unat a + 256 * word_sum bs))"
    by (simp add: algebra_simps)
  also have "\<dots> = ones ((unat b + 256 * unat a) + 256 * word_sum bs)"
    unfolding ones_65536 by (simp add: add.assoc)
  also have "\<dots> = ones ((unat b + 256 * unat a) + ones (be_sum bs))" unfolding 1 ones_add_right ..
  also have "\<dots> = ones (be_sum (a # b # bs))" unfolding ones_add_right by (simp add: ac_simps)
  finally show ?case by (rule sym)
qed simp_all

lemma be_sum_bound: "2 * be_sum bs \<le> 65535 * (length bs + 1)"
proof (induction bs rule: be_sum.induct)
  case (1 a b bs)
  then show ?case using unat_u8_le [of a] unat_u8_le [of b] by simp
next
  case (2 a)
  then show ?case using unat_u8_le [of a] by simp
qed simp

lemma chksum1_loop_eq:
  "unat acc + be_sum bs < 4294967296 \<Longrightarrow> unat (chksum1_loop bs acc) = unat acc + be_sum bs"
proof (induction bs acc rule: chksum1_loop.induct)
  case (1 a b bs acc)
  let ?w = "push_bit 8 (ucast a) OR ucast b :: u32"
  have "unat (acc + ?w) = unat acc + (256 * unat a + unat b)"
    using 1(2) by (subst unat_add_u32) (simp_all add: be16_nat)
  then show ?case using 1 by simp
next
  case (2 a acc)
  have "unat (push_bit 8 (ucast a) :: u32) = 256 * unat a" using be16_nat [of a 0] by simp
  then show ?case using 2 by (simp add: unat_add_u32)
qed simp

lemma unat_lwip_htons: "unat (lwip_htons w) = ones (256 * unat w)"
proof -
  have m: "(0xff :: u32) = mask 8" "(0xff00 :: u32) = push_bit 8 (mask 8)"
    by (simp_all add: mask_numeral push_bit_eq_mult)
  have "ucast (lwip_htons w) = SWAP_BYTES_IN_WORD (ucast w)"
    unfolding lwip_htons_def PP_HTONS_bits SWAP_BYTES_IN_WORD_def m
    by (rule bit_word_eqI) (auto simp: bit_simps dest: bit_imp_le_length)
  then have "unat (ucast (lwip_htons w) :: u32) = unat (SWAP_BYTES_IN_WORD (ucast w))" by simp
  then show ?thesis
    using unat_SWAP_BYTES [of "ucast w"] unat_u16_less [of w] by (simp add: unat_ucast_16)
qed

lemma high_bits_clear:
  fixes w :: u32
  assumes "w AND 0xffff0000 = 0"
  shows "unat w \<le> 65535"
proof -
  have m: "(0xffff0000 :: u32) = push_bit 16 (mask 16)" by (simp add: mask_numeral push_bit_eq_mult)
  have hi: "\<not> bit w n" if "16 \<le> n" "n < 32" for n
  proof -
    have "\<not> bit (w AND push_bit 16 (mask 16)) n" using assms unfolding m by simp
    then show ?thesis using that by (auto simp: bit_simps)
  qed
  have "take_bit 16 w = w"
  proof (rule bit_word_eqI)
    fix n assume "n < LENGTH(32)"
    then show "bit (take_bit 16 w) n = bit w n" using hi [of n] by (cases "n < 16") (simp_all add: bit_simps)
  qed
  then have "unat w = take_bit 16 (unat w)" using unsigned_take_bit_eq [of 16 w, where ?'a = nat] by simp
  also have "\<dots> < 65536" by (simp add: take_bit_eq_mod)
  finally show ?thesis by simp
qed

lemma chksum1_eq:
  assumes "length bs \<le> 65535"
  shows "unat (lwip_standard_chksum1 bs) = ones (word_sum bs)"
proof -
  have "65535 * (length bs + 1) \<le> 65535 * 65536" using assms by simp
  then have "be_sum bs < 4294967296" using be_sum_bound [of bs] by linarith
  then have l: "unat (chksum1_loop bs 0) = be_sum bs" using chksum1_loop_eq [of 0 bs] by simp
  let ?f = "FOLD_U32T (chksum1_loop bs 0)"
  let ?g = "if ?f AND 0xffff0000 \<noteq> 0 then FOLD_U32T ?f else ?f"
  have "unat ?g = ones (be_sum bs)"
  proof (cases "?f AND 0xffff0000 = 0")
    case True
    have "unat ?f \<le> 65535" by (rule high_bits_clear [OF True])
    then show ?thesis using True ones_id [of "unat ?f"] by (simp add: unat_FOLD_U32T ones_fold l)
  next
    case False
    then show ?thesis by (simp add: unat_FOLD_twice l)
  qed
  moreover from this have "unat ?g \<le> 65535" by (simp only: ones_le)
  ultimately have "unat (lwip_standard_chksum1 bs) = ones (256 * ones (be_sum bs))"
    unfolding lwip_standard_chksum1_def Let_def FOLD_U32T_def [symmetric] unat_lwip_htons
    by (simp add: unat_ucast_down)
  also have "\<dots> = ones (256 * (256 * word_sum bs))" by (simp only: be_sum_ones ones_mult)
  also have "\<dots> = ones (word_sum bs)" by (simp add: ones_256)
  finally show ?thesis .
qed

lemma add_carry_eq: "ones (unat (add_carry a x)) = ones (unat a + unat x)"
proof (cases "unat a + unat x < 4294967296")
  case True
  then have "unat (a + x) = unat a + unat x" by (rule unat_add_u32)
  then show ?thesis by (simp add: add_carry_def Let_def word_less_nat_alt)
next
  case False
  have u: "unat (a + x) = unat a + unat x - 4294967296"
  proof -
    have "unat a + unat x < 2 * 4294967296" using unat_u32_less [of a] unat_u32_less [of x] by linarith
    then have "(unat a + unat x) mod 4294967296 = unat a + unat x - 4294967296"
      using False by (simp add: mod_if)
    then show ?thesis by (simp add: unat_word_ariths)
  qed
  have less: "unat (a + x) < unat a" using u False unat_u32_less [of x] by linarith
  then have "unat (a + x) + 1 < 4294967296" using unat_u32_less [of a] by linarith
  then have u1: "unat (a + x + 1) = unat (a + x) + 1" using unat_add_u32 [of "a + x" 1] by simp
  have "unat a + unat x = 65535 * 65537 + (unat (a + x) + 1)" using u False by simp
  then have "ones (unat a + unat x) = ones (65535 * 65537 + (unat (a + x) + 1))" by (rule arg_cong)
  also have "\<dots> = ones (unat (a + x) + 1)" by (rule ones_cong) (simp_all only: mod_mult_self4, simp)
  finally show ?thesis using less u1 by (simp add: add_carry_def Let_def word_less_nat_alt)
qed

lemma sum32_loop_eq:
  "\<exists>acc' rest. sum32_loop bs acc = (acc', rest) \<and> length rest \<le> length bs \<and>
     ones (unat acc' + word_sum rest) = ones (unat acc + word_sum bs)"
proof (induction bs acc rule: sum32_loop.induct)
  case (1 a b c d e f g h bs acc)
  let ?x = "le32_of_bytes a b c d" and ?y = "le32_of_bytes e f g h"
  have x: "ones (n + unat ?x) = ones (n + (unat a + 256 * unat b + unat c + 256 * unat d))" for n
    using ones_65536 [of "unat c + 256 * unat d" "n + unat a + 256 * unat b"]
    by (simp add: le32_of_bytes_nat ac_simps)
  have y: "ones (n + unat ?y) = ones (n + (unat e + 256 * unat f + unat g + 256 * unat h))" for n
    using ones_65536 [of "unat g + 256 * unat h" "n + unat e + 256 * unat f"]
    by (simp add: le32_of_bytes_nat ac_simps)
  let ?s = "add_carry (add_carry acc ?x) ?y"
  have "ones (unat ?s) = ones (ones (unat (add_carry acc ?x)) + unat ?y)"
    by (subst add_carry_eq) (simp only: ones_add)
  also have "\<dots> = ones (ones (unat acc + unat ?x) + (unat e + 256 * unat f + unat g + 256 * unat h))"
    by (simp only: add_carry_eq y)
  also have "\<dots> = ones ((unat acc + (unat a + 256 * unat b + unat c + 256 * unat d)) +
      (unat e + 256 * unat f + unat g + 256 * unat h))"
    by (simp only: x ones_add)
  finally have s: "ones (unat ?s + k) = ones (unat acc + (unat a + 256 * unat b + unat c + 256 * unat d) +
      (unat e + 256 * unat f + unat g + 256 * unat h) + k)" for k
    by (metis ones_add)
  from 1 obtain acc' rest where r: "sum32_loop bs ?s = (acc', rest)" "length rest \<le> length bs"
     "ones (unat acc' + word_sum rest) = ones (unat ?s + word_sum bs)" by blast
  then show ?case using s [of "word_sum bs"] by (simp add: ac_simps)
qed auto

lemma odd_start_length: "odd_start od bs = (t1, bs') \<Longrightarrow> length bs' \<le> length bs"
  by (auto simp: odd_start_def split: list.splits if_splits)

lemma tail_bound:
  "f \<le> 131070 \<Longrightarrow> 2 * w \<le> 65535 * 65536 \<Longrightarrow> t \<le> 255 \<Longrightarrow> f + w + 256 * t < 4294967296" for f w t :: nat
  by linarith

lemma chksum3_eq:
  assumes "length bs \<le> 65535"
  shows "unat (lwip_standard_chksum3 od al bs) = ones (word_sum bs)"
proof -
  obtain t1 b1 where o: "odd_start od bs = (t1, b1)" by (cases "odd_start od bs")
  obtain s b2 where s: "(case b1 of a # b # bs' \<Rightarrow>
        if \<not> al then (ucast (le16_of_bytes a b) :: u32, bs') else (0, b1) | _ \<Rightarrow> (0, b1)) = (s, b2)"
    by fastforce
  have s2: "unat s + word_sum b2 = word_sum b1" "length b2 \<le> length b1"
    using s by (auto simp: unat_ucast_16 le16_of_bytes_nat split: list.splits if_splits)
  obtain s' b3 where l: "sum32_loop b2 s = (s', b3)" "length b3 \<le> length b2"
      "ones (unat s' + word_sum b3) = ones (unat s + word_sum b2)"
    using sum32_loop_eq by blast
  let ?f = "FOLD_U32T s'"
  have f: "unat ?f \<le> 131070" "ones (unat ?f) = ones (unat s')"
    using fold_le [of "unat s'"] by (simp_all add: unat_FOLD_U32T ones_fold)
  have "length b3 \<le> 65535" using l(2) s2(2) odd_start_length [OF o] assms by linarith
  then have "65535 * (length b3 + 1) \<le> 65535 * 65536" by simp
  then have "2 * word_sum b3 \<le> 65535 * 65536" by (rule order_trans [OF word_sum_bound])
  then have bound: "unat ?f + word_sum b3 + 256 * unat t1 < 4294967296"
    by (rule tail_bound [OF f(1) _ unat_u8_le])
  have e: "ones (unat ?f + word_sum b3) = ones (word_sum b1)"
  proof -
    have "ones (unat ?f + word_sum b3) = ones (ones (unat ?f) + word_sum b3)" by (simp only: ones_add)
    also have "\<dots> = ones (unat s' + word_sum b3)" by (simp only: f(2) ones_add)
    finally show ?thesis using l(3) s2(1) by simp
  qed
  have "lwip_standard_chksum3 od al bs = chksum_tail od t1 ?f b3"
    unfolding lwip_standard_chksum3_def Let_def o prod.case s l(1) ..
  then have "unat (lwip_standard_chksum3 od al bs) = ones (weight od * (unat ?f + word_sum b3 + 256 * unat t1))"
    using chksum_tail_eq [OF bound] by simp
  also have "\<dots> = ones (weight od * (word_sum b1 + 256 * unat t1))"
    by (metis e ones_add ones_mult)
  also have "\<dots> = ones (word_sum bs)" by (rule odd_start_eq(1) [OF o])
  finally show ?thesis .
qed

text \<open>C19: the three checksum algorithms agree on every buffer of at most 65535 bytes at every
  address: each computes the one's complement sum of the 16-bit words of RFC 1071.\<close>

theorem chksum_algorithms_equivalent:
  assumes "length bs \<le> 65535"
  shows "lwip_standard_chksum1 bs = lwip_standard_chksum2 od bs \<and>
    lwip_standard_chksum3 od al bs = lwip_standard_chksum2 od bs \<and>
    unat (lwip_standard_chksum2 od bs) = ones (word_sum bs)"
  using chksum1_eq [OF assms] chksum2_eq [OF assms, of od] chksum3_eq [OF assms, of od al]
  by (simp add: word_unat_eq_iff)

theorem chksum_algorithms_equivalent_witness:
  "lwip_standard_chksum1 [0x45, 0, 0, 7, 9] = lwip_standard_chksum2 True [0x45, 0, 0, 7, 9] \<and>
   unat (lwip_standard_chksum2 True [0x45, 0, 0, 7, 9]) = 0x74e"
  using chksum_algorithms_equivalent [of "[0x45, 0, 0, 7, 9]" True True] by (simp add: ones_def)

section \<open>Chains\<close>

lemma chain_sum_eq:
  assumes "chain (pbufs h) q xs" "packet (map snd xs)" "unat acc = ones (weight sw * S)"
  shows "\<exists>acc' sw'. chain_sum od q h acc sw = Some (acc', sw') \<and>
    unat acc' = ones (weight sw' * (S + weight sw * word_sum (content (map snd xs))))"
  using assms
proof (induction xs arbitrary: q acc sw S)
  case Nil
  then show ?case by (subst chain_sum.simps) simp
next
  case (Cons x xs)
  obtain a b where x: "x = (a, b)" by (cases x)
  have b: "q = Some a" "pbufs h a = Some b" "chain (pbufs h) (pnext b) xs" "payload_ok b" "packet (map snd xs)"
    using Cons(2,3) x by simp_all
  define ds where "ds = pdata b"
  have ds: "payload_read b 0 (unat (len b)) = Some ds" "length ds = unat (len b)"
    using payload_read_eq [OF b(4), of 0 "unat (len b)"] b(4) by (simp_all add: ds_def)
  have c: "unat (ucast (lwip_standard_chksum2 (od a) ds) :: u32) = ones (word_sum ds)"
    using chksum2_eq [of ds "od a"] ds(2) unat_u16_less [of "len b"] by (simp add: unat_ucast_16)
  let ?s = "acc + ucast (lwip_standard_chksum2 (od a) ds)"
  have s: "unat ?s = ones (weight sw * S) + ones (word_sum ds)"
    using ones_le [of "weight sw * S"] ones_le [of "word_sum ds"] c Cons(4) by (subst unat_add_u32) simp_all
  let ?S1 = "S + weight sw * word_sum ds"
  have f: "unat (FOLD_U32T ?s) = ones (weight sw * ?S1)"
  proof -
    have "unat ?s \<le> 131070" using ones_le [of "weight sw * S"] ones_le [of "word_sum ds"] s by linarith
    then have "unat (FOLD_U32T ?s) \<le> 65535" by (simp only: unat_FOLD_U32T fold_le_small)
    then have "unat (FOLD_U32T ?s) = ones (unat ?s)"
      by (metis ones_fold ones_id unat_FOLD_U32T)
    also have "\<dots> = ones (weight sw * S + word_sum ds)" by (simp only: s ones_add ones_add_right)
    also have "\<dots> = ones (weight sw * S + ones (weight sw * (weight sw * word_sum ds)))"
      by (simp only: ones_weight2 ones_add_right)
    finally show ?thesis by (simp only: ones_add_right distrib_left)
  qed
  have od: "(len b mod 2 \<noteq> 0) = odd (length ds)"
    by (simp add: ds(2) word_unat_eq_iff unat_word_ariths(7) odd_iff_mod_2_eq_one)
  define sw1 where "sw1 = (sw \<noteq> odd (length ds))"
  let ?acc = "if odd (length ds) then SWAP_BYTES_IN_WORD (FOLD_U32T ?s) else FOLD_U32T ?s"
  have "unat (SWAP_BYTES_IN_WORD (FOLD_U32T ?s)) = ones (256 * ones (weight sw * ?S1))"
    using unat_SWAP_BYTES [of "FOLD_U32T ?s"] f ones_le by simp
  then have swp: "unat (SWAP_BYTES_IN_WORD (FOLD_U32T ?s)) = ones (weight (\<not> sw) * ?S1)"
    using ones_weight_xor [of True sw ?S1] unfolding ones_mult by (simp add: weight_def)
  have acc1: "unat ?acc = ones (weight sw1 * ?S1)"
    using swp f by (simp add: sw1_def)
  from Cons(1) [OF b(3,5) acc1]
  obtain acc' sw' where IH: "chain_sum od (pnext b) h ?acc sw1 = Some (acc', sw')"
     "unat acc' = ones (weight sw' * (?S1 + weight sw1 * word_sum (content (map snd xs))))" by blast
  have step: "chain_sum od q h acc sw = chain_sum od (pnext b) h ?acc sw1"
    using b ds od by (subst chain_sum.simps) (simp add: sw1_def)
  have "ones (?S1 + weight sw1 * word_sum (content (map snd xs))) =
        ones (S + weight sw * word_sum (content (map snd (x # xs))))"
  proof -
    let ?r = "word_sum (content (map snd xs))"
    have "ones (S + weight sw * word_sum (ds @ content (map snd xs))) =
        ones (S + ones (weight sw * ones (word_sum (ds @ content (map snd xs)))))"
      by (simp only: ones_mult ones_add_right)
    also have "\<dots> = ones (S + (weight sw * word_sum ds + weight sw * (weight (odd (length ds)) * ?r)))"
      by (simp only: word_sum_append ones_mult ones_add_right distrib_left)
    also have "\<dots> = ones ((S + weight sw * word_sum ds) + ones (weight sw * (weight (odd (length ds)) * ?r)))"
      by (subst ones_add_right) (simp only: add.assoc)
    also have "\<dots> = ones ((S + weight sw * word_sum ds) + weight sw1 * ?r)"
      by (simp only: ones_weight_xor sw1_def ones_add_right)
    finally show ?thesis using x by (simp add: ds_def)
  qed
  then have "unat acc' = ones (weight sw' * (S + weight sw * word_sum (content (map snd (x # xs)))))"
    using IH(2) by (metis ones_mult)
  then show ?case using IH(1) step by auto
qed

lemma unswap:
  assumes "unat acc = ones (weight sw * n)"
  shows "unat (if sw then SWAP_BYTES_IN_WORD acc else acc) = ones n"
proof (cases sw)
  case True
  have "unat acc \<le> 65535" using assms ones_le by simp
  then have "unat (SWAP_BYTES_IN_WORD acc) = ones (256 * ones (weight sw * n))"
    using unat_SWAP_BYTES assms by simp
  then show ?thesis using True by (simp add: ones_mult weight_def ones_256)
next
  case False
  then show ?thesis using assms by (simp add: weight_def)
qed

lemma unat_not16: "unat (NOT w) = 65535 - unat w" for w :: u16
proof -
  have "NOT w = (- 1) - w" by (simp add: not_eq_complement)
  moreover have "unat (- 1 :: u16) = 65535" by (simp add: unsigned_minus_1_eq_mask mask_eq_exp_minus_1)
  moreover have "unat w \<le> 65535" using unat_u16_less [of w] by linarith
  ultimately show ?thesis by (simp add: unat_minus)
qed


lemma ucast_not_masked: "ucast (NOT (acc AND 0xffff)) = NOT (ucast acc :: u16)" for acc :: u32
proof -
  have m: "(0xffff :: u32) = mask 16" by (simp add: mask_numeral)
  show ?thesis unfolding m by (rule bit_word_eqI) (auto simp: bit_simps)
qed

lemma length_inet: "packet (map snd xs) \<Longrightarrow> chain m (Some a) xs \<Longrightarrow> length (content (map snd xs)) \<le> 65535"
proof -
  assume p: "packet (map snd xs)" "chain m (Some a) xs"
  then obtain b ys where "xs = (a, b) # ys" by (cases xs) auto
  then have "total_len (map snd xs) = unat (tot_len b)" using p by simp
  then show ?thesis using length_content [OF p(1)] unat_u16_less [of "tot_len b"] by linarith
qed

lemma chksum_flat:
  assumes "chain (pbufs h) (Some a) xs" "packet (map snd xs)"
  shows "inet_chksum_pbuf od (Some a) h = Some (inet_chksum p (content (map snd xs)))"
proof -
  obtain acc sw where c: "chain_sum od (Some a) h 0 False = Some (acc, sw)"
     "unat acc = ones (weight sw * word_sum (content (map snd xs)))"
    using chain_sum_eq [OF assms, of 0 False 0 od] by (auto simp: weight_def)
  let ?acc = "if sw then SWAP_BYTES_IN_WORD acc else acc"
  have u: "unat ?acc = ones (word_sum (content (map snd xs)))" by (rule unswap [OF c(2)])
  then have "unat (ucast ?acc :: u16) = unat (lwip_standard_chksum2 p (content (map snd xs)))"
    using chksum2_eq [OF length_inet [OF assms(2,1)]] by (simp add: unat_ucast_down ones_le)
  then have "(ucast ?acc :: u16) = lwip_standard_chksum2 p (content (map snd xs))"
    by (simp only: word_unat_eq_iff)
  then show ?thesis
    unfolding inet_chksum_pbuf_def c(1) inet_chksum_def Let_def Option.bind.bind_lunit prod.case ucast_not_masked
    by (simp only:)
qed

text \<open>C20: the checksum over a pbuf chain is the checksum of the packet's bytes laid out flat,
  however they are distributed over pbufs of odd or even length at odd or even addresses.\<close>

theorem inet_chksum_pbuf_flat:
  assumes "chain (pbufs h) (Some a) xs" "packet (map snd xs)"
  shows "inet_chksum_pbuf od (Some a) h = Some (inet_chksum p (content (map snd xs)))"
  using assms by (rule chksum_flat)

theorem inet_chksum_pbuf_flat_witness:
  "inet_chksum_pbuf (\<lambda>a. a = 2) (Some 1) example_heap = Some (inet_chksum False [10, 11, 12, 13, 14])"
  using inet_chksum_pbuf_flat [OF example_chain(1,2)] unfolding example_chain(5) .

text \<open>The sum that is complemented for a pseudo header checksum, as natural numbers.\<close>

definition pseudo_sum :: "u8 \<Rightarrow> u16 \<Rightarrow> u32 \<Rightarrow> u32 \<Rightarrow> bytes \<Rightarrow> nat" where
  "pseudo_sum proto proto_len src dest bs =
     word_sum (le32_bytes src @ le32_bytes dest @ [0, proto] @ rev (le16_bytes proto_len) @ bs)"

lemma le16_bytes_nat: "unat (ucast w :: u8) + 256 * unat (ucast (drop_bit 8 w) :: u8) = unat w" for w :: u16
proof -
  have a: "unat (ucast w :: u8) = unat w mod 256" by (simp add: unsigned_ucast_eq take_bit_eq_mod)
  have "unat (ucast (drop_bit 8 w) :: u8) = take_bit 8 (unat (drop_bit 8 w))" by (simp add: unsigned_ucast_eq)
  also have "\<dots> = take_bit 8 (drop_bit 8 (unat w))" by (simp only: unat_drop_bit_eq)
  also have "\<dots> = unat w div 256"
    using unat_u16_less [of w] by (simp add: take_bit_eq_mod drop_bit_eq_div less_mult_imp_div_less)
  finally show ?thesis using a div_mult_mod_eq [of "unat w" 256] by simp
qed


lemma word_sum_le16: "word_sum (le16_bytes w) = unat w"
  using le16_bytes_nat [of w] by (simp add: le16_bytes_def)

lemma word_sum_le32: "word_sum (le32_bytes w) = unat w mod 65536 + unat w div 65536"
proof -
  let ?a = "unat (ucast w :: u8)" and ?b = "unat (ucast (drop_bit 8 w) :: u8)"
    and ?c = "unat (ucast (drop_bit 16 w) :: u8)" and ?d = "unat (ucast (drop_bit 24 w) :: u8)"
  have w: "unat w = (?a + 256 * ?b) + 65536 * (?c + 256 * ?d)"
    using le32_of_bytes_nat [of "ucast w" "ucast (drop_bit 8 w)" "ucast (drop_bit 16 w)" "ucast (drop_bit 24 w)"]
    by (simp only: le32_of_bytes_le32_bytes)
  have "?a + 256 * ?b < 65536"
    using unat_u8_le [of "ucast w"] unat_u8_le [of "ucast (drop_bit 8 w)"] by linarith
  then have "unat w mod 65536 = ?a + 256 * ?b" "unat w div 65536 = ?c + 256 * ?d"
    unfolding w by (simp_all only: mod_mult_self2 div_mult_self2 mod_less div_less)
  then show ?thesis by (simp add: le32_bytes_def)
qed

lemma unat_and_ffff: "unat (w AND 0xffff) = unat w mod 65536" for w :: u32
proof -
  have "w AND 0xffff = take_bit 16 w" by (simp add: take_bit_eq_mask mask_numeral)
  then have "unat (w AND 0xffff) = take_bit 16 (unat w)" by (simp only: unsigned_take_bit_eq)
  then show ?thesis by (simp add: take_bit_eq_mod)
qed

lemma unat_high_half: "unat (drop_bit 16 w AND 0xffff) = unat w div 65536" for w :: u32
proof -
  have "unat (drop_bit 16 w) = unat w div 65536"
    unfolding unat_drop_bit_eq drop_bit_eq_div [where ?'a = nat] by simp
  moreover have "unat w div 65536 < 65536" using unat_u32_less [of w] by (simp add: less_mult_imp_div_less)
  ultimately show ?thesis by (simp add: unat_and_ffff)
qed

lemma add4_u32:
  fixes a b c d :: u32
  assumes "unat a < 65536" "unat b < 65536" "unat c < 65536" "unat d < 65536"
  shows "unat (a + b + c + d) = unat a + unat b + unat c + unat d"
proof -
  have ab: "unat (a + b) = unat a + unat b" using assms by (intro unat_add_u32) linarith
  have abc: "unat (a + b + c) = unat a + unat b + unat c"
    using assms ab by (subst unat_add_u32) linarith+
  show ?thesis using assms abc by (subst unat_add_u32) linarith+
qed

lemma unat_addr_sum: "unat (addr_sum src dest) = ones (word_sum (le32_bytes src @ le32_bytes dest))"
proof -
  let ?s = "(src AND 0xffff) + (drop_bit 16 src AND 0xffff) + (dest AND 0xffff) + (drop_bit 16 dest AND 0xffff)"
  have "unat w mod 65536 < 65536" "unat w div 65536 < 65536" for w :: u32
    using unat_u32_less [of w] by (simp_all add: less_mult_imp_div_less)
  then have "unat ?s = word_sum (le32_bytes src) + word_sum (le32_bytes dest)"
    by (subst add4_u32)
      (simp_all only: unat_high_half unat_and_ffff [of src] unat_and_ffff [of dest] word_sum_le32 add.assoc)
  then have "ones (unat ?s) = ones (word_sum (le32_bytes src @ le32_bytes dest))"
    by (simp add: word_sum_append weight_def)
  then show ?thesis by (simp only: addr_sum_def Let_def unat_FOLD_twice)
qed

lemma pseudo_end_eq:
  assumes "unat acc = ones (weight sw * n)"
  shows "unat (NOT (pseudo_end proto plen acc sw)) = ones (n + 256 * unat proto + unat (lwip_htons plen))"
proof -
  let ?a = "if sw then SWAP_BYTES_IN_WORD acc else acc"
  have a: "unat ?a = ones n" by (rule unswap [OF assms])
  have "unat (ucast proto :: u16) = unat proto"
  proof -
    have "unat proto < 2 ^ 16" by (rule less_trans [OF unat_u8_less]) simp
    then show ?thesis by (simp add: unsigned_ucast_eq take_bit_nat_eq_self)
  qed
  then have p: "unat (lwip_htons (ucast proto)) = 256 * unat proto"
    using unat_u8_le [of proto] by (simp add: unat_lwip_htons ones_id)
  let ?s = "?a + ucast (lwip_htons (ucast proto)) + ucast (lwip_htons plen)"
  have "unat (?a + ucast (lwip_htons (ucast proto))) = ones n + 256 * unat proto"
    using a p ones_le [of n] unat_u8_le [of proto] by (subst unat_add_u32) (simp_all add: unat_ucast_16)
  moreover have "unat (lwip_htons plen) \<le> 65535" using unat_u16_less [of "lwip_htons plen"] by linarith
  ultimately have s: "unat ?s = ones n + 256 * unat proto + unat (lwip_htons plen)"
    using ones_le [of n] unat_u8_le [of proto] by (subst unat_add_u32) (simp_all add: unat_ucast_16)
  let ?f = "FOLD_U32T (FOLD_U32T ?s)"
  have f: "unat ?f = ones (n + 256 * unat proto + unat (lwip_htons plen))"
    unfolding unat_FOLD_twice s by (simp only: ones_add add.assoc)
  have "NOT (pseudo_end proto plen acc sw) = ucast ?f"
    unfolding pseudo_end_def Let_def ucast_not_masked by simp
  then show ?thesis using f by (simp add: unat_ucast_down ones_le)
qed

lemma pseudo_sum_ones:
  "ones (pseudo_sum proto plen src dest bs) =
   ones (word_sum (le32_bytes src @ le32_bytes dest) + word_sum bs + 256 * unat proto + unat (lwip_htons plen))"
proof -
  have h: "word_sum (rev (le16_bytes plen)) = unat (lwip_htons plen)"
    by (simp only: le16_bytes_htons [symmetric] word_sum_le16)
  obtain a b where "rev (le16_bytes plen) = [a, b]" by (simp add: le16_bytes_def)
  with h show ?thesis
    by (simp add: pseudo_sum_def le32_bytes_def ac_simps)
qed

text \<open>C21: the TCP checksum over a chain is the complement of the one's complement sum of the pseudo
  header (addresses, zero, protocol and length in network order) followed by the packet's bytes.\<close>

theorem ip_chksum_pseudo_correct:
  assumes "chain (pbufs h) (Some a) xs" "packet (map snd xs)"
  shows "\<exists>c. ip_chksum_pseudo od (Some a) proto plen src dest h = Some c \<and>
    unat (NOT c) = ones (pseudo_sum proto plen src dest (content (map snd xs)))"
proof -
  let ?A = "word_sum (le32_bytes src @ le32_bytes dest)"
  have "unat (addr_sum src dest) = ones (weight False * ?A)"
    by (simp add: unat_addr_sum weight_def)
  from chain_sum_eq [OF assms this, of od]
  obtain acc sw where c: "chain_sum od (Some a) h (addr_sum src dest) False = Some (acc, sw)"
      "unat acc = ones (weight sw * (?A + word_sum (content (map snd xs))))"
    by (auto simp: weight_def)
  show ?thesis
    unfolding ip_chksum_pseudo_def inet_chksum_pseudo_def inet_cksum_pseudo_base_def c(1)
    using pseudo_end_eq [OF c(2), of proto plen] by (simp add: pseudo_sum_ones)
qed

theorem ip_chksum_pseudo_correct_witness:
  "\<exists>c. ip_chksum_pseudo (\<lambda>a. True) (Some 1) 6 5 0x0200a8c0 0x0100a8c0 example_heap = Some c \<and>
    unat (NOT c) = ones (pseudo_sum 6 5 0x0200a8c0 0x0100a8c0 [10, 11, 12, 13, 14])"
  using ip_chksum_pseudo_correct [OF example_chain(1,2)] unfolding example_chain(5) .

text \<open>A header whose checksum field (at an even offset) is filled with the checksum computed
  over the header with a zero field has checksum 0, which is what a receiver tests.\<close>

lemma inet_chksum_verifies:
  assumes "even (length pre)" "length pre + length post \<le> 65533"
  shows "inet_chksum p (pre @ le16_bytes (inet_chksum q (pre @ [0, 0] @ post)) @ post) = 0"
proof -
  let ?c = "inet_chksum q (pre @ [0, 0] @ post)"
  let ?n = "word_sum pre + word_sum post"
  have z: "ones (word_sum (pre @ [0, 0] @ post)) = ones ?n"
    using assms(1) by (simp add: word_sum_append weight_def)
  have c: "unat ?c = 65535 - ones ?n"
    using assms(2) chksum2_eq [of "pre @ [0, 0] @ post" q] by (simp only: inet_chksum_def unat_not16 z) simp
  have f: "ones (word_sum (pre @ le16_bytes ?c @ post)) = ones (?n + unat ?c)"
  proof -
    have "word_sum (le16_bytes ?c @ post) = unat ?c + word_sum post"
      using le16_bytes_nat [of ?c] by (simp add: le16_bytes_def)
    then show ?thesis using assms(1) by (simp add: word_sum_append [of pre] weight_def ac_simps)
  qed
  have "ones (?n + unat ?c) = ones (ones ?n + (65535 - ones ?n))" by (simp only: c ones_add)
  also have "\<dots> = 65535" using ones_le [of ?n] by (simp add: ones_def)
  finally have "ones (word_sum (pre @ le16_bytes ?c @ post)) = 65535" by (simp only: f)
  then have "unat (inet_chksum p (pre @ le16_bytes ?c @ post)) = 0"
    unfolding inet_chksum_def [of p] using assms(2)
    by (simp only: unat_not16) (simp add: chksum2_eq le16_bytes_def)
  then show ?thesis by (simp add: unsigned_eq_0_iff)
qed

end
