(* ===== verification/Ip4Addr.thy ===== *)
theory Ip4Addr
  imports Lwip_Def CLib
begin

text \<open>
  IPv4 addresses: \<^verbatim>\<open>lwip/src/core/ipv4/ip4_addr.c\<close> and the macros of
  \<^verbatim>\<open>lwip/include/lwip/ip4_addr.h\<close>. An address is the 32-bit word in network byte order that
  \<^verbatim>\<open>ip4_addr_t\<close> stores; \<^const>\<open>le32_bytes\<close> gives its bytes in memory on the little-endian
  host. A C string is the list of its characters without the terminator.
\<close>

section \<open>Constants and macros\<close>

definition IPADDR_NONE :: u32 where "IPADDR_NONE = 0xffffffff"
definition IPADDR_LOOPBACK :: u32 where "IPADDR_LOOPBACK = 0x7f000001"
definition IPADDR_ANY :: u32 where "IPADDR_ANY = 0"
definition IPADDR_BROADCAST :: u32 where "IPADDR_BROADCAST = 0xffffffff"
definition IP4ADDR_STRLEN_MAX :: int where "IP4ADDR_STRLEN_MAX = 16"

definition LWIP_MAKEU32 :: "u8 \<Rightarrow> u8 \<Rightarrow> u8 \<Rightarrow> u8 \<Rightarrow> u32" where
  "LWIP_MAKEU32 a b c d =
     push_bit 24 (ucast a) OR push_bit 16 (ucast b) OR push_bit 8 (ucast c) OR ucast d"

definition IP4_ADDR :: "u8 \<Rightarrow> u8 \<Rightarrow> u8 \<Rightarrow> u8 \<Rightarrow> u32" where
  "IP4_ADDR a b c d = PP_HTONL (LWIP_MAKEU32 a b c d)"

definition ip4_addr_get_network :: "u32 \<Rightarrow> u32 \<Rightarrow> u32" where
  "ip4_addr_get_network host netmask = host AND netmask"

definition ip4_addr_netcmp :: "u32 \<Rightarrow> u32 \<Rightarrow> u32 \<Rightarrow> bool" where
  "ip4_addr_netcmp addr1 addr2 mask' \<longleftrightarrow> addr1 AND mask' = addr2 AND mask'"

definition ip4_addr_isany :: "u32 option \<Rightarrow> bool" where
  "ip4_addr_isany addr1 = (case addr1 of None \<Rightarrow> True | Some a \<Rightarrow> a = IPADDR_ANY)"

definition ip4_addr_isloopback :: "u32 \<Rightarrow> bool" where
  "ip4_addr_isloopback a \<longleftrightarrow> a AND PP_HTONL 0xff000000 = PP_HTONL (push_bit 24 127)"

definition ip4_addr_ismulticast :: "u32 \<Rightarrow> bool" where
  "ip4_addr_ismulticast a \<longleftrightarrow> a AND PP_HTONL 0xf0000000 = PP_HTONL 0xe0000000"

definition ip4_addr_islinklocal :: "u32 \<Rightarrow> bool" where
  "ip4_addr_islinklocal a \<longleftrightarrow> a AND PP_HTONL 0xffff0000 = PP_HTONL 0xa9fe0000"

section \<open>Broadcast addresses and netmasks\<close>

text \<open>The flag, address and netmask of the interface are the arguments after the address.\<close>

definition ip4_addr_isbroadcast_u32 :: "u32 \<Rightarrow> bool \<Rightarrow> u32 \<Rightarrow> u32 \<Rightarrow> bool" where
  "ip4_addr_isbroadcast_u32 addr flag_broadcast netif_ip netif_mask =
     (if NOT addr = IPADDR_ANY \<or> addr = IPADDR_ANY then True
      else if \<not> flag_broadcast then False
      else if addr = netif_ip then False
      else if ip4_addr_netcmp addr netif_ip netif_mask \<and>
              addr AND NOT netif_mask = IPADDR_BROADCAST AND NOT netif_mask then True
      else False)"

lemma shift_less: "mask' \<noteq> 0 \<Longrightarrow> unat (drop_bit 1 mask') < unat mask'" for mask' :: u32
  unfolding unat_drop_bit_eq drop_bit_eq_div [where ?'a = nat] by (simp add: unat_gt_0)

text \<open>The first loop stops at the highest zero bit, with the mask of that bit (or 0).\<close>

function first_zero :: "u32 \<Rightarrow> u32 \<Rightarrow> u32" where
  "first_zero nm mask' =
     (if mask' \<noteq> 0 then (if nm AND mask' = 0 then mask' else first_zero nm (drop_bit 1 mask')) else mask')"
  by pat_completeness auto
termination
  by (relation "measure (\<lambda>(nm, m). unat m)") (auto simp: shift_less [simplified])

text \<open>The second loop looks for a one below.\<close>

function no_one_after :: "u32 \<Rightarrow> u32 \<Rightarrow> bool" where
  "no_one_after nm mask' =
     (if mask' \<noteq> 0 then (if nm AND mask' \<noteq> 0 then False else no_one_after nm (drop_bit 1 mask')) else True)"
  by pat_completeness auto
termination
  by (relation "measure (\<lambda>(nm, m). unat m)") (auto simp: shift_less [simplified])

declare first_zero.simps [simp del] no_one_after.simps [simp del]

definition ip4_addr_netmask_valid :: "u32 \<Rightarrow> bool" where
  "ip4_addr_netmask_valid netmask =
     (let nm_hostorder = lwip_htonl netmask
      in no_one_after nm_hostorder (first_zero nm_hostorder (push_bit 31 1)))"

section \<open>Parsing\<close>

definition in_range :: "u8 \<Rightarrow> u8 \<Rightarrow> u8 \<Rightarrow> bool" where
  "in_range c lo up \<longleftrightarrow> lo \<le> c \<and> c \<le> up"

definition isdigit :: "u8 \<Rightarrow> bool" where "isdigit c = in_range c 48 57"
definition islower :: "u8 \<Rightarrow> bool" where "islower c = in_range c 97 122"
definition isxdigit :: "u8 \<Rightarrow> bool" where
  "isxdigit c \<longleftrightarrow> isdigit c \<or> in_range c 97 102 \<or> in_range c 65 70"

text \<open>\<^verbatim>\<open>*cp\<close>: the next character, NUL at the end.\<close>

definition peek :: "bytes \<Rightarrow> u8" where
  "peek cs = (case cs of [] \<Rightarrow> 0 | c # _ \<Rightarrow> c)"

text \<open>The inner loop: one number.\<close>

fun aton_digits :: "u32 \<Rightarrow> u32 \<Rightarrow> bytes \<Rightarrow> u32 \<times> bytes" where
  "aton_digits base val [] = (val, [])"
| "aton_digits base val (c # cs) =
     (if isdigit c then aton_digits base (val * base + (ucast c - 48)) cs
      else if base = 16 \<and> isxdigit c then
        aton_digits base (push_bit 4 val OR (ucast c + 10 - (if islower c then 97 else 65))) cs
      else (val, c # cs))"

text \<open>The base from the prefix \<^verbatim>\<open>0\<close> or \<^verbatim>\<open>0x\<close>.\<close>

definition aton_base :: "bytes \<Rightarrow> u32 \<times> bytes" where
  "aton_base cs =
     (if peek cs = 48 then
        (let cs = tl cs in if peek cs = 120 \<or> peek cs = 88 then (16, tl cs) else (8, cs))
      else (10, cs))"

lemma aton_digits_length: "length (snd (aton_digits base val cs)) \<le> length cs"
  by (induction base val cs rule: aton_digits.induct) auto

lemma aton_base_length: "length (snd (aton_base cs)) \<le> length cs"
  by (auto simp: aton_base_def Let_def)

text \<open>The outer loop: the parts stored, the last value and the rest of the string.\<close>

function aton_loop :: "u32 list \<Rightarrow> bytes \<Rightarrow> (u32 list \<times> u32 \<times> bytes) option" where
  "aton_loop parts cs =
     (if \<not> isdigit (peek cs) then None
      else let (base, cs1) = aton_base cs; (val, cs2) = aton_digits base 0 cs1
           in if peek cs2 = 46 then
                (if length parts \<ge> 3 then None else aton_loop (parts @ [val]) (tl cs2))
              else Some (parts, val, cs2))"
  by pat_completeness auto
termination
proof (relation "measure (\<lambda>(parts, cs). length cs)", goal_cases)
  case (2 parts cs r base cs1 s val cs2)
  have "length cs2 \<le> length cs1" "length cs1 \<le> length cs"
    using aton_digits_length [of base 0 cs1] aton_base_length [of cs] 2 by (simp_all add: prod_eq_iff)
  moreover have "cs2 \<noteq> []" using 2 by (auto simp: peek_def)
  then have "length (tl cs2) < length cs2" by simp
  ultimately show ?case by simp
qed simp

declare aton_loop.simps [simp del]

text \<open>The address from one to four parts.\<close>

definition aton_value :: "u32 list \<Rightarrow> u32 \<Rightarrow> u32 option" where
  "aton_value parts val =
     (case parts of
        [] \<Rightarrow> Some val
      | [p0] \<Rightarrow>
          if 0xffffff < val then None else if 0xff < p0 then None else Some (val OR push_bit 24 p0)
      | [p0, p1] \<Rightarrow>
          if 0xffff < val then None else if 0xff < p0 \<or> 0xff < p1 then None
          else Some (val OR push_bit 24 p0 OR push_bit 16 p1)
      | [p0, p1, p2] \<Rightarrow>
          if 0xff < val then None else if 0xff < p0 \<or> 0xff < p1 \<or> 0xff < p2 then None
          else Some (val OR push_bit 24 p0 OR push_bit 16 p1 OR push_bit 8 p2)
      | _ \<Rightarrow> None)"

definition ip4addr_aton :: "bytes \<Rightarrow> u32 option" where
  "ip4addr_aton cp =
     (case aton_loop [] cp of
        None \<Rightarrow> None
      | Some (parts, val, cs) \<Rightarrow>
          if peek cs \<noteq> 0 \<and> \<not> c_isspace (peek cs) then None
          else map_option lwip_htonl (aton_value parts val))"

definition ipaddr_addr :: "bytes \<Rightarrow> u32" where
  "ipaddr_addr cp = (case ip4addr_aton cp of Some val \<Rightarrow> val | None \<Rightarrow> IPADDR_NONE)"

section \<open>Printing\<close>

text \<open>The digits of one byte, the last digit first (the array \<^verbatim>\<open>inv\<close>).\<close>

fun inv_digits :: "nat \<Rightarrow> bytes" where
  "inv_digits ap =
     word_of_nat (48 + ap mod 10) # (if ap div 10 \<noteq> 0 then inv_digits (ap div 10) else [])"

declare inv_digits.simps [simp del]

text \<open>Writing characters while they fit; \<open>None\<close> when the function returns NULL.\<close>

fun emit :: "int \<Rightarrow> bytes \<Rightarrow> bytes \<Rightarrow> bytes option" where
  "emit buflen out [] = Some out"
| "emit buflen out (c # cs) = (if buflen \<le> int (length out) then None else emit buflen (out @ [c]) cs)"

fun ntoa_loop :: "int \<Rightarrow> bytes \<Rightarrow> bytes \<Rightarrow> bytes option" where
  "ntoa_loop buflen out [] = Some out"
| "ntoa_loop buflen out (ap # aps) =
     (case emit buflen out (rev (inv_digits (unat ap))) of
        None \<Rightarrow> None
      | Some out \<Rightarrow>
          if buflen \<le> int (length out) then None else ntoa_loop buflen (out @ [46]) aps)"

text \<open>The last dot is overwritten by the terminator.\<close>

definition ip4addr_ntoa_r :: "u32 \<Rightarrow> int \<Rightarrow> bytes option" where
  "ip4addr_ntoa_r addr buflen = map_option butlast (ntoa_loop buflen [] (le32_bytes addr))"

definition ip4addr_ntoa :: "u32 \<Rightarrow> bytes option" where
  "ip4addr_ntoa addr = ip4addr_ntoa_r addr IP4ADDR_STRLEN_MAX"

section \<open>Specification and lemmas\<close>

text \<open>Decimal text, the dotted text of a byte list with a dot after each byte, and of an address.\<close>

definition dec_text :: "nat \<Rightarrow> bytes" where
  "dec_text n = map (\<lambda>d. word_of_nat (48 + d)) (dec_digits n)"

definition dotted :: "bytes \<Rightarrow> bytes" where
  "dotted bs = concat (map (\<lambda>b. dec_text (unat b) @ [46]) bs)"

definition ip_text :: "u32 \<Rightarrow> bytes" where
  "ip_text addr = butlast (dotted (le32_bytes addr))"

lemma rev_inv_digits: "rev (inv_digits n) = dec_text n"
proof (induction n rule: inv_digits.induct)
  case (1 n)
  show ?case
    by (subst inv_digits.simps) (use 1 in \<open>simp add: dec_text_def dec_digits.simps [of n] div_eq_0_iff\<close>)
qed

lemma emit_eq:
  "emit buflen out cs = (if cs = [] \<or> int (length out + length cs) \<le> buflen then Some (out @ cs) else None)"
  by (induction buflen out cs rule: emit.induct) auto

lemma dotted_simps [simp]: "dotted [] = []" "dotted (b # bs) = dec_text (unat b) @ 46 # dotted bs"
  by (simp_all add: dotted_def)

lemma ntoa_loop_eq:
  "ntoa_loop buflen out bs =
     (if bs = [] \<or> int (length out + length (dotted bs)) \<le> buflen then Some (out @ dotted bs) else None)"
  by (induction buflen out bs rule: ntoa_loop.induct) (auto simp: emit_eq rev_inv_digits)

lemma dec_text_nonempty [simp]: "dec_text n \<noteq> []"
  by (simp add: dec_text_def)

lemma length_dec_text_u8: "length (dec_text (unat b)) \<le> 3" for b :: u8
  using length_dec_digits [of "unat b" 2] unat_u8_less [of b] unfolding dec_text_def by simp

lemma dotted_nonempty: "bs \<noteq> [] \<Longrightarrow> dotted bs \<noteq> []"
  by (cases bs) auto

lemma length_ip_text: "length (ip_text addr) \<le> 15"
proof -
  have "length (dotted bs) \<le> 4 * length bs" for bs
    by (induction bs) (use length_dec_text_u8 in \<open>auto intro: order.trans [OF add_le_mono]\<close>)
  from this [of "le32_bytes addr"] show ?thesis by (simp add: ip_text_def le32_bytes_def)
qed

lemma ip4addr_ntoa_r_eq:
  "ip4addr_ntoa_r addr buflen = (if int (length (ip_text addr)) < buflen then Some (ip_text addr) else None)"
proof -
  have ne: "dotted (le32_bytes addr) \<noteq> []" "le32_bytes addr \<noteq> []"
    by (auto intro!: dotted_nonempty simp: le32_bytes_def)
  then have l: "length (ip_text addr) + 1 = length (dotted (le32_bytes addr))"
    by (simp add: ip_text_def)
  then have "int (length (dotted (le32_bytes addr))) \<le> buflen \<longleftrightarrow> int (length (ip_text addr)) < buflen" by linarith
  then show ?thesis unfolding ip4addr_ntoa_r_def ntoa_loop_eq by (simp add: ne ip_text_def)
qed

lemma dec_digits_less: "d \<in> set (dec_digits n) \<Longrightarrow> d < 10"
  by (induction n rule: dec_digits.induct) (subst (asm) (2) dec_digits.simps, auto split: if_splits)

lemma dec_digits_hd: "0 < n \<Longrightarrow> hd (dec_digits n) \<noteq> 0"
proof (induction n rule: dec_digits.induct)
  case (1 n)
  then show ?case by (subst dec_digits.simps) (simp add: div_greater_zero_iff)
qed

lemma isdigit_char: "d < 10 \<Longrightarrow> isdigit (word_of_nat (48 + d))"
proof -
  assume "d < 10"
  then have "d \<in> set [0..<10]" by simp
  then show ?thesis by (auto simp: upt_conv_Cons isdigit_def in_range_def)
qed

lemma ucast_char: "d < 10 \<Longrightarrow> (ucast (word_of_nat (48 + d) :: u8) :: u32) - 48 = word_of_nat d"
proof -
  assume "d < 10"
  then have "d \<in> set [0..<10]" by simp
  then show ?thesis by (auto simp: upt_conv_Cons)
qed

lemma aton_digits_dec:
  assumes "\<forall>d \<in> set ds. d < 10" "\<not> isdigit (peek rest)"
  shows "aton_digits 10 val (map (\<lambda>d. word_of_nat (48 + d)) ds @ rest) =
    (foldl (\<lambda>a d. 10 * a + word_of_nat d) val ds, rest)"
  using assms
proof (induction ds arbitrary: val)
  case Nil
  then show ?case by (cases rest) (auto simp: peek_def)
next
  case (Cons d ds)
  then have d: "isdigit (word_of_nat (48 + d))" "(ucast (word_of_nat (48 + d) :: u8) :: u32) - 48 = word_of_nat d"
    by (simp_all only: isdigit_char ucast_char list.set_intros)
  show ?case using Cons unfolding list.map append_Cons aton_digits.simps if_P [OF d(1)] d(2)
    by (simp add: mult.commute)
qed

lemma foldl_word: "foldl (\<lambda>a d. 10 * a + word_of_nat d) (word_of_nat v) ds = (word_of_nat (foldl (\<lambda>a d. 10 * a + d) v ds) :: u32)"
proof (induction ds arbitrary: v)
  case (Cons d ds)
  have "10 * word_of_nat v + word_of_nat d = (word_of_nat (10 * v + d) :: u32)" by simp
  then show ?case by (simp only: foldl.simps Cons.IH)
qed simp

lemma aton_part:
  assumes "rest = [] \<or> peek rest = 46"
  shows "aton_loop parts (dec_text n @ rest) =
    (if peek rest = 46 then (if length parts \<ge> 3 then None else aton_loop (parts @ [word_of_nat n]) (tl rest))
     else Some (parts, word_of_nat n, rest))"
proof -
  have rest: "\<not> isdigit (peek rest)" "peek rest \<noteq> 120" "peek rest \<noteq> 88"
    using assms by (auto simp: isdigit_def in_range_def peek_def)
  have "\<exists>base cs. aton_base (dec_text n @ rest) = (base, cs) \<and> aton_digits base 0 cs = (word_of_nat n, rest)"
  proof (cases "n = 0")
    case True
    have "aton_digits 8 0 rest = (0, rest)" using rest by (cases rest) (auto simp: peek_def)
    moreover have "dec_text n = [48]" unfolding dec_text_def by (subst dec_digits.simps) (simp add: True)
    ultimately show ?thesis using rest True by (auto simp: aton_base_def peek_def split: list.splits)
  next
    case False
    obtain d ds where ds: "dec_digits n = d # ds" using dec_digits_nonempty list.exhaust by blast
    have "d < 10" "d \<noteq> 0" using dec_digits_hd [of n] dec_digits_less [of d n] ds False by auto
    then have "d \<in> set [1..<10]" by simp
    then have "word_of_nat (48 + d) \<noteq> (48 :: u8)" by (auto simp: upt_conv_Cons)
    then have "aton_base (dec_text n @ rest) = (10, dec_text n @ rest)"
      by (simp add: aton_base_def peek_def dec_text_def ds)
    moreover have "aton_digits 10 0 (dec_text n @ rest) = (word_of_nat n, rest)"
      using aton_digits_dec [of "dec_digits n" rest 0] rest dec_digits_less foldl_word [of 0 "dec_digits n"]
      by (simp add: dec_text_def dec_digits_value)
    ultimately show ?thesis by blast
  qed
  moreover have "isdigit (peek (dec_text n @ rest))"
  proof -
    obtain d ds where ds: "dec_digits n = d # ds" using dec_digits_nonempty list.exhaust by blast
    then have "d < 10" using dec_digits_less [of d n] by simp
    then show ?thesis using isdigit_char [of d] by (simp add: peek_def dec_text_def ds)
  qed
  ultimately show ?thesis by (subst aton_loop.simps) (auto simp: Let_def)
qed

lemma and_bit_eq_0: "nm AND push_bit i 1 = 0 \<longleftrightarrow> \<not> bit nm i" if "i < 32" for nm :: u32
proof
  assume "nm AND push_bit i 1 = 0"
  then have "\<not> bit (nm AND push_bit i 1) i" by simp
  then show "\<not> bit nm i" using that by (simp add: bit_simps)
next
  assume "\<not> bit nm i"
  then show "nm AND push_bit i 1 = 0" by (intro bit_word_eqI) (auto simp: bit_simps)
qed

lemma drop_bit_push_bit_1: "drop_bit 1 (push_bit (Suc i) 1) = (push_bit i 1 :: u32)" if "Suc i < 32"
proof (rule bit_word_eqI)
  fix n assume "n < LENGTH(32)"
  then show "bit (drop_bit 1 (push_bit (Suc i) 1 :: u32)) n = bit (push_bit i 1 :: u32) n"
    using that by (auto simp: bit_simps)
qed

lemma push_bit_1_nz: "push_bit i 1 \<noteq> (0 :: u32)" if "i < 32"
proof
  assume "push_bit i 1 = (0 :: u32)"
  then have "\<not> bit (push_bit i 1 :: u32) i" by (simp only: bit_0_eq bot_apply bot_bool_def not_False_eq_True)
  then show False using that by (simp add: bit_simps)
qed

lemma no_one_after_0: "no_one_after nm 0"
  by (simp add: no_one_after.simps)

lemma no_one_after_iff: "i < 32 \<Longrightarrow> no_one_after nm (push_bit i 1) \<longleftrightarrow> (\<forall>k \<le> i. \<not> bit nm k)"
proof (induction i)
  case 0
  show ?case using and_bit_eq_0 [of 0 nm]
    by (subst no_one_after.simps) (auto simp: no_one_after_0 and_one_eq)
next
  case (Suc i)
  then show ?case using and_bit_eq_0 [of "Suc i" nm]
    by (subst no_one_after.simps) (auto simp only: push_bit_1_nz drop_bit_push_bit_1 le_Suc_eq Suc_lessD if_True if_False not_False_eq_True split: if_splits)
qed

lemma first_zero_valid:
  "i < 32 \<Longrightarrow> no_one_after nm (first_zero nm (push_bit i 1)) \<longleftrightarrow>
    (\<exists>j \<le> Suc i. \<forall>k \<le> i. bit nm k \<longleftrightarrow> j \<le> k)"
proof (induction i)
  case 0
  show ?case using and_bit_eq_0 [of 0 nm] no_one_after_iff [of 0 nm]
    by (subst first_zero.simps) (auto simp: no_one_after_0 first_zero.simps [of nm 0] intro: exI [of _ 0] exI [of _ 1])
next
  case (Suc i)
  have s: "no_one_after nm (first_zero nm (push_bit (Suc i) 1)) \<longleftrightarrow>
      (if bit nm (Suc i) then no_one_after nm (first_zero nm (push_bit i 1)) else \<forall>k \<le> Suc i. \<not> bit nm k)"
    using Suc.prems and_bit_eq_0 [of "Suc i" nm] no_one_after_iff [of "Suc i" nm]
    by (subst first_zero.simps)
      (cases "bit nm (Suc i)"; simp only: push_bit_1_nz drop_bit_push_bit_1 simp_thms if_True if_False)
  show ?case
  proof (cases "bit nm (Suc i)")
    case True
    have "(\<exists>j \<le> Suc i. \<forall>k \<le> i. bit nm k \<longleftrightarrow> j \<le> k) \<longleftrightarrow> (\<exists>j \<le> Suc (Suc i). \<forall>k \<le> Suc i. bit nm k \<longleftrightarrow> j \<le> k)"
      using True by (auto simp: le_Suc_eq)
    with True s Suc show ?thesis by simp
  next
    case False
    then have "(\<forall>k \<le> Suc i. \<not> bit nm k) \<longleftrightarrow> (\<exists>j \<le> Suc (Suc i). \<forall>k \<le> Suc i. bit nm k \<longleftrightarrow> j \<le> k)"
      by (meson le_trans nat_le_linear not_less_eq_eq order_refl)
    with False s show ?thesis by simp
  qed
qed

lemma netmask_valid_iff:
  "ip4_addr_netmask_valid nm \<longleftrightarrow> (\<exists>p \<le> 32. lwip_htonl nm = NOT (mask (32 - p)))"
proof -
  have "ip4_addr_netmask_valid nm \<longleftrightarrow> (\<exists>j \<le> 32. \<forall>k \<le> 31. bit (lwip_htonl nm) k \<longleftrightarrow> j \<le> k)"
    using first_zero_valid [of 31 "lwip_htonl nm"] unfolding ip4_addr_netmask_valid_def Let_def by simp
  also have "\<dots> \<longleftrightarrow> (\<exists>j \<le> 32. lwip_htonl nm = NOT (mask j))"
    by (auto simp: bit_eq_iff bit_simps not_less dest: bit_imp_le_length) 
  also have "\<dots> \<longleftrightarrow> (\<exists>p \<le> 32. lwip_htonl nm = NOT (mask (32 - p)))"
    by (metis diff_diff_cancel diff_le_self)
  finally show ?thesis .
qed

section \<open>Properties\<close>

lemma word_of_nat_unat_u8: "word_of_nat (unat b) = (ucast b :: u32)" for b :: u8
  by (metis of_nat_unat)

lemma aton_4:
  "aton_value [ucast a, ucast b, ucast c] (ucast d) =
     Some (ucast d OR push_bit 24 (ucast a) OR push_bit 16 (ucast b) OR push_bit 8 (ucast c))"
  for a b c d :: u8
proof -
  have "(ucast x :: u32) \<le> 0xff" for x :: u8
  proof -
    have "unat x < 256" by (rule unat_u8_less)
    then have "unat x < 4294967296" and "unat x \<le> 255" by linarith+
    then show ?thesis
      unfolding word_le_nat_alt by (simp add: unsigned_ucast_eq take_bit_nat_eq_self del: unat_u8_less)
  qed
  then have "\<not> 0xff < (ucast x :: u32)" for x :: u8 by (simp add: not_less)
  then show ?thesis by (simp add: aton_value_def)
qed

lemma aton_ip_text: "ip4addr_aton (ip_text addr) = Some addr"
proof -
  obtain a b c d :: u8 where le: "le32_bytes addr = [a, b, c, d]" by (simp add: le32_bytes_def)
  have be: "lwip_htonl (ucast d OR push_bit 24 (ucast a) OR push_bit 16 (ucast b) OR push_bit 8 (ucast c)) = addr"
  proof (rule le32_bytes_inj)
    let ?w = "ucast d OR push_bit 24 (ucast a) OR push_bit 16 (ucast b) OR push_bit 8 (ucast c) :: u32"
    have "(ucast ?w :: u8) = d" "(ucast (drop_bit 8 ?w) :: u8) = c"
      "(ucast (drop_bit 16 ?w) :: u8) = b" "(ucast (drop_bit 24 ?w) :: u8) = a"
      by (rule bit_word_eqI; auto simp: bit_simps dest: bit_imp_le_length)+
    then have "le32_bytes ?w = [d, c, b, a]" by (simp only: le32_bytes_def)
    then show "le32_bytes (lwip_htonl ?w) = le32_bytes addr" by (simp only: le32_bytes_htonl le) simp
  qed
  have t: "ip_text addr = dec_text (unat a) @ 46 # dec_text (unat b) @ 46 # dec_text (unat c) @ 46 # dec_text (unat d)"
    unfolding ip_text_def le by (simp add: butlast_append)
  have p: "peek (46 # x) = 46" "peek [] = 0" for x by (simp_all add: peek_def)
  have l: "aton_loop ps (dec_text (unat n) @ 46 # cs) = aton_loop (ps @ [ucast n]) cs" if "length ps < 3" for ps n cs
    using aton_part [of "46 # cs" ps "unat n"] that by (simp add: p word_of_nat_unat_u8)
  have "aton_loop [] (ip_text addr) = Some ([ucast a, ucast b, ucast c], ucast d, [])"
    unfolding t using aton_part [of "[]" "[ucast a, ucast b, ucast c]" "unat d"]
    by (simp add: l p word_of_nat_unat_u8)
  then show ?thesis by (simp add: ip4addr_aton_def p aton_4 be)
qed

text \<open>C22: printing an address and parsing the text gives the address back: \<open>ip4addr_ntoa\<close> always
  returns a string, whose length leaves room for the terminator in the 16-byte buffer, and
  \<open>ip4addr_aton\<close> accepts that string with the same address. This covers \<open>ntoa_r\<close> and all four
  parts of the parser, on all \<open>2 ^ 32\<close> addresses.\<close>

theorem ip4addr_roundtrip:
  "\<exists>s. ip4addr_ntoa addr = Some s \<and> int (length s) < IP4ADDR_STRLEN_MAX \<and> ip4addr_aton s = Some addr"
proof (intro exI conjI)
  show "ip4addr_ntoa addr = Some (ip_text addr)" "int (length (ip_text addr)) < IP4ADDR_STRLEN_MAX"
    using length_ip_text [of addr] by (simp_all add: ip4addr_ntoa_def ip4addr_ntoa_r_eq IP4ADDR_STRLEN_MAX_def)
qed (rule aton_ip_text)

text \<open>\<open>ip4_addr_netmask_valid\<close> accepts exactly the 33 prefix masks: the netmask in host order
  is \<open>p\<close> ones followed by \<open>32 - p\<close> zeros for some \<open>p\<close>.\<close>

lemma netmask_valid_prefix:
  "ip4_addr_netmask_valid nm \<longleftrightarrow> (\<exists>p \<le> 32. lwip_htonl nm = NOT (mask (32 - p)))"
  by (rule netmask_valid_iff)

text \<open>A decimal number without dots is taken modulo \<open>2 ^ 32\<close>: \<open>ip4addr_aton\<close> accepts the decimal
  text of every natural number, and the digits beyond 32 bits are lost without an error (only the
  dotted parts are range-checked, after the value has wrapped).\<close>

lemma ip4addr_aton_wraps:
  "ip4addr_aton (dec_text n) = Some (lwip_htonl (word_of_nat n))"
  using aton_part [of "[]" "[]" n] by (simp add: ip4addr_aton_def peek_def aton_value_def)

end
