(* ===== verification/TcpApi.thy ===== *)
theory TcpApi
  imports Prelude
begin

text \<open>
  The part of \<^verbatim>\<open>lwip/src/core/tcp.c\<close> that an application of the raw API uses to register its
  callbacks and to give receive-window space back, with the sequence-number comparisons of
  \<^verbatim>\<open>include/lwip/priv/tcp_priv.h\<close>. The protocol control blocks live in a partial map from
  addresses; a pointer is an optional address, a function pointer the optional name of the function.
  \<open>None\<close> is a failed assertion or an access through an invalid pointer.
\<close>

section \<open>Data\<close>

datatype tcp_state =
    CLOSED | LISTEN | SYN_SENT | SYN_RCVD | ESTABLISHED | FIN_WAIT_1 | FIN_WAIT_2 | CLOSE_WAIT
  | CLOSING | LAST_ACK | TIME_WAIT

text \<open>
  The members that the modelled code reads or writes. \<open>snd_queue\<close> stands for the bytes on the queues
  \<^verbatim>\<open>unsent\<close> and \<^verbatim>\<open>unacked\<close>, in the order of their sequence numbers.
\<close>

record tcp_pcb =
  callback_arg :: "nat option"
  tcp_state :: tcp_state
  prio :: u8
  tcp_flags :: u8
  pollinterval :: u8
  rcv_nxt :: u32
  rcv_wnd :: u16
  rcv_ann_wnd :: u16
  rcv_ann_right_edge :: u32
  mss :: u16
  snd_buf :: u16
  snd_queue :: bytes
  accept_fn :: "string option"
  sent_fn :: "string option"
  recv_fn :: "string option"
  poll_fn :: "string option"
  errf :: "string option"

type_synonym pcb_store = "nat \<rightharpoonup> tcp_pcb"

definition TF_ACK_NOW :: u8 where "TF_ACK_NOW = 0x02"
definition TCP_PRIO_MIN :: u8 where "TCP_PRIO_MIN = 1"
definition TCP_MSS :: u16 where "TCP_MSS = 536"
definition TCP_WND :: u16 where "TCP_WND = 4 * TCP_MSS"
definition TCP_SND_BUF :: u16 where "TCP_SND_BUF = 2 * TCP_MSS"
definition TCP_WND_UPDATE_THRESHOLD :: int where
  "TCP_WND_UPDATE_THRESHOLD = min (uint TCP_WND div 4) (uint TCP_MSS * 4)"

section \<open>Sequence numbers\<close>

definition TCP_SEQ_LT :: "u32 \<Rightarrow> u32 \<Rightarrow> bool" where "TCP_SEQ_LT a b \<longleftrightarrow> sint (a - b) < 0"
definition TCP_SEQ_LEQ :: "u32 \<Rightarrow> u32 \<Rightarrow> bool" where "TCP_SEQ_LEQ a b \<longleftrightarrow> sint (a - b) \<le> 0"
definition TCP_SEQ_GT :: "u32 \<Rightarrow> u32 \<Rightarrow> bool" where "TCP_SEQ_GT a b \<longleftrightarrow> 0 < sint (a - b)"
definition TCP_SEQ_GEQ :: "u32 \<Rightarrow> u32 \<Rightarrow> bool" where "TCP_SEQ_GEQ a b \<longleftrightarrow> 0 \<le> sint (a - b)"
definition TCP_SEQ_BETWEEN :: "u32 \<Rightarrow> u32 \<Rightarrow> u32 \<Rightarrow> bool" where
  "TCP_SEQ_BETWEEN a b c \<longleftrightarrow> TCP_SEQ_GEQ a b \<and> TCP_SEQ_LEQ a c"

section \<open>Callbacks\<close>

definition tcp_arg :: "nat option \<Rightarrow> nat option \<Rightarrow> pcb_store \<Rightarrow> pcb_store option" where
  "tcp_arg pcb arg m =
     (case pcb of
        None \<Rightarrow> Some m
      | Some a \<Rightarrow> do { b \<leftarrow> m a; Some (m(a \<mapsto> b\<lparr>callback_arg := arg\<rparr>)) })"

definition tcp_recv :: "nat option \<Rightarrow> string option \<Rightarrow> pcb_store \<Rightarrow> pcb_store option" where
  "tcp_recv pcb recv m =
     (case pcb of
        None \<Rightarrow> Some m
      | Some a \<Rightarrow> do {
          b \<leftarrow> m a;
          lwip_assert (tcp_state b \<noteq> LISTEN);
          Some (m(a \<mapsto> b\<lparr>recv_fn := recv\<rparr>))
        })"

definition tcp_sent :: "nat option \<Rightarrow> string option \<Rightarrow> pcb_store \<Rightarrow> pcb_store option" where
  "tcp_sent pcb sent m =
     (case pcb of
        None \<Rightarrow> Some m
      | Some a \<Rightarrow> do {
          b \<leftarrow> m a;
          lwip_assert (tcp_state b \<noteq> LISTEN);
          Some (m(a \<mapsto> b\<lparr>sent_fn := sent\<rparr>))
        })"

definition tcp_err :: "nat option \<Rightarrow> string option \<Rightarrow> pcb_store \<Rightarrow> pcb_store option" where
  "tcp_err pcb err m =
     (case pcb of
        None \<Rightarrow> Some m
      | Some a \<Rightarrow> do {
          b \<leftarrow> m a;
          lwip_assert (tcp_state b \<noteq> LISTEN);
          Some (m(a \<mapsto> b\<lparr>errf := err\<rparr>))
        })"

definition tcp_accept :: "nat option \<Rightarrow> string option \<Rightarrow> pcb_store \<Rightarrow> pcb_store option" where
  "tcp_accept pcb accept m =
     (case pcb of
        None \<Rightarrow> Some m
      | Some a \<Rightarrow> do {
          b \<leftarrow> m a;
          Some (if tcp_state b = LISTEN then m(a \<mapsto> b\<lparr>accept_fn := accept\<rparr>) else m)
        })"

definition tcp_poll :: "nat option \<Rightarrow> string option \<Rightarrow> u8 \<Rightarrow> pcb_store \<Rightarrow> pcb_store option" where
  "tcp_poll pcb poll interval m = do {
     a \<leftarrow> pcb;
     b \<leftarrow> m a;
     lwip_assert (tcp_state b \<noteq> LISTEN);
     Some (m(a \<mapsto> b\<lparr>poll_fn := poll, pollinterval := interval\<rparr>))
   }"

definition tcp_setprio :: "nat option \<Rightarrow> u8 \<Rightarrow> pcb_store \<Rightarrow> pcb_store option" where
  "tcp_setprio pcb p m = do { a \<leftarrow> pcb; b \<leftarrow> m a; Some (m(a \<mapsto> b\<lparr>prio := p\<rparr>)) }"

definition tcp_sndbuf :: "tcp_pcb \<Rightarrow> u16" where
  "tcp_sndbuf b = snd_buf b"

section \<open>The receive window\<close>

text \<open>The new control block and how much the announced right edge would grow.\<close>

definition tcp_update_rcv_ann_wnd :: "tcp_pcb \<Rightarrow> (u32 \<times> tcp_pcb) option" where
  "tcp_update_rcv_ann_wnd b =
     (let new_right_edge = rcv_nxt b + ucast (rcv_wnd b)
      in if TCP_SEQ_GEQ new_right_edge (rcv_ann_right_edge b + min (ucast TCP_WND div 2) (ucast (mss b)))
         then Some (new_right_edge - rcv_ann_right_edge b, b\<lparr>rcv_ann_wnd := rcv_wnd b\<rparr>)
         else if TCP_SEQ_GT (rcv_nxt b) (rcv_ann_right_edge b)
         then Some (0, b\<lparr>rcv_ann_wnd := 0\<rparr>)
         else do {
           let new_rcv_ann_wnd = rcv_ann_right_edge b - rcv_nxt b;
           lwip_assert (new_rcv_ann_wnd \<le> 0xffff);
           Some (0, b\<lparr>rcv_ann_wnd := ucast new_rcv_ann_wnd\<rparr>)
         })"

definition tcp_ack_now :: "tcp_pcb \<Rightarrow> tcp_pcb" where
  "tcp_ack_now b = b\<lparr>tcp_flags := tcp_flags b OR TF_ACK_NOW\<rparr>"

text \<open>The new value of \<open>rcv_wnd\<close> after \<open>len\<close> bytes were taken by the application.\<close>

definition recved_wnd :: "tcp_pcb \<Rightarrow> u16 \<Rightarrow> u16 option" where
  "recved_wnd b len' =
     (let w = rcv_wnd b + len'
      in if TCP_WND < w then Some TCP_WND
         else if w = 0 then
           (if tcp_state b = CLOSE_WAIT \<or> tcp_state b = LAST_ACK then Some TCP_WND else None)
         else Some w)"

text \<open>\<open>tcp_output\<close> is a parameter: what it does to the store of control blocks.\<close>

definition tcp_recved ::
  "(nat \<Rightarrow> pcb_store \<Rightarrow> pcb_store) \<Rightarrow> nat option \<Rightarrow> u16 \<Rightarrow> pcb_store \<Rightarrow> pcb_store option" where
  "tcp_recved tcp_output pcb len' m = do {
     a \<leftarrow> pcb;
     b \<leftarrow> m a;
     lwip_assert (tcp_state b \<noteq> LISTEN);
     w \<leftarrow> recved_wnd b len';
     (wnd_inflation, b) \<leftarrow> tcp_update_rcv_ann_wnd (b\<lparr>rcv_wnd := w\<rparr>);
     if TCP_WND_UPDATE_THRESHOLD \<le> sint wnd_inflation
     then Some (tcp_output a (m(a \<mapsto> tcp_ack_now b)))
     else Some (m(a \<mapsto> b))
   }"

section \<open>Lemmas\<close>

lemma sint_sub_small:
  fixes x y :: u32
  assumes "- 2147483648 \<le> sint x - sint y" "sint x - sint y < 2147483648"
  shows "sint (x - y) = sint x - sint y"
proof -
  have "sint (x - y) = signed_take_bit 31 (sint x - sint y)"
    by (simp add: sint_word_ariths)
  also have "\<dots> = sint x - sint y" by (rule signed_take_bit_int_eq_self) (use assms in simp_all)
  finally show ?thesis .
qed

lemma uint_ucast_u16: "uint (ucast w :: u32) = uint w" for w :: u16
proof -
  have "uint w < 65536" using uint_lt2p [of w] by simp
  then show ?thesis by (simp add: unsigned_ucast_eq take_bit_int_eq_self)
qed

lemma sint_ucast_u16: "sint (ucast w :: u32) = uint w" for w :: u16
proof -
  have "uint w < 65536" using uint_lt2p [of w] by simp
  moreover have "0 \<le> uint w" by simp
  ultimately have "- 2147483648 \<le> uint w" "uint w < 2147483648" by linarith+
  then have "- (2 ^ (LENGTH(32) - Suc 0)) \<le> uint w" "uint w < 2 ^ (LENGTH(32) - Suc 0)" by simp_all
  then show ?thesis unfolding sint_uint uint_ucast_u16 by (rule signed_take_bit_int_eq_self)
qed

lemma sint_min_wnd: "sint (min (ucast TCP_WND div 2) (ucast m) :: u32) = min 1072 (uint m)" for m :: u16
proof -
  have "(ucast TCP_WND div 2 :: u32) = ucast (1072 :: u16)" by code_simp
  then have "min (ucast TCP_WND div 2) (ucast m) = (ucast (min 1072 m) :: u32)"
    unfolding min_def word_le_def by (simp only: uint_ucast_u16 split: if_split) simp
  then show ?thesis by (simp only: sint_ucast_u16) (simp add: min_def word_le_def)
qed

text \<open>An established connection with an empty send queue and a full window.\<close>

definition example_pcb :: tcp_pcb where
  "example_pcb =
     \<lparr>callback_arg = None, tcp_state = ESTABLISHED, prio = 64, tcp_flags = 0, pollinterval = 0,
      rcv_nxt = 1000, rcv_wnd = TCP_WND, rcv_ann_wnd = TCP_WND, rcv_ann_right_edge = 1000 + ucast TCP_WND,
      mss = TCP_MSS, snd_buf = TCP_SND_BUF, snd_queue = [], accept_fn = None, sent_fn = None,
      recv_fn = None, poll_fn = None, errf = None\<rparr>"

section \<open>Properties\<close>

text \<open>The distance of the announced right edge from the next expected sequence number.\<close>

definition edge_near :: "tcp_pcb \<Rightarrow> bool" where
  "edge_near b \<longleftrightarrow> \<bar>sint (rcv_ann_right_edge b - rcv_nxt b)\<bar> \<le> 0xffff"

lemma update_rcv_ann_wnd_result:
  assumes "edge_near b"
  defines "d \<equiv> sint (rcv_ann_right_edge b - rcv_nxt b)"
  shows "tcp_update_rcv_ann_wnd b =
    (if min 1072 (uint (mss b)) \<le> uint (rcv_wnd b) - d
     then Some (rcv_nxt b + ucast (rcv_wnd b) - rcv_ann_right_edge b, b\<lparr>rcv_ann_wnd := rcv_wnd b\<rparr>)
     else Some (0, b\<lparr>rcv_ann_wnd := if d < 0 then 0 else word_of_int d\<rparr>))"
proof -
  have d: "- 65535 \<le> d" "d \<le> 65535" using assms by (auto simp: edge_near_def)
  have W: "0 \<le> uint (rcv_wnd b)" "uint (rcv_wnd b) < 65536" using uint_lt2p [of "rcv_wnd b"] by simp_all
  have M: "0 \<le> min 1072 (uint (mss b))" "min 1072 (uint (mss b)) \<le> 1072" by simp_all
  let ?m = "min (ucast TCP_WND div 2) (ucast (mss b)) :: u32"
  have s1: "sint ((ucast (rcv_wnd b) :: u32) - (rcv_ann_right_edge b - rcv_nxt b)) = uint (rcv_wnd b) - d"
    using d W by (subst sint_sub_small) (simp_all only: sint_ucast_u16 d_def)
  have s2: "sint ((ucast (rcv_wnd b) :: u32) - (rcv_ann_right_edge b - rcv_nxt b) - ?m) =
      uint (rcv_wnd b) - d - min 1072 (uint (mss b))"
    using d W M by (subst sint_sub_small) (simp_all only: s1 sint_min_wnd)
  have e: "rcv_nxt b + ucast (rcv_wnd b) - (rcv_ann_right_edge b + ?m) =
      (ucast (rcv_wnd b) :: u32) - (rcv_ann_right_edge b - rcv_nxt b) - ?m" by (simp add: algebra_simps)
  have g: "TCP_SEQ_GEQ (rcv_nxt b + ucast (rcv_wnd b)) (rcv_ann_right_edge b + ?m) \<longleftrightarrow>
      min 1072 (uint (mss b)) \<le> uint (rcv_wnd b) - d"
    unfolding TCP_SEQ_GEQ_def e s2 by linarith
  have "sint (0 - (rcv_ann_right_edge b - rcv_nxt b)) = sint (0 :: u32) - d"
    using d by (subst sint_sub_small) (simp_all add: d_def)
  then have t: "TCP_SEQ_GT (rcv_nxt b) (rcv_ann_right_edge b) \<longleftrightarrow> d < 0"
    unfolding TCP_SEQ_GT_def by simp
  have "rcv_ann_right_edge b - rcv_nxt b \<le> 0xffff \<and>
      (ucast (rcv_ann_right_edge b - rcv_nxt b) :: u16) = word_of_int d" if "\<not> d < 0"
  proof -
    have "rcv_ann_right_edge b - rcv_nxt b = word_of_int d" by (simp add: d_def)
    moreover have "uint (word_of_int d :: u32) = d"
      using that d by (simp add: uint_word_of_int_eq take_bit_int_eq_self)
    ultimately show ?thesis using d by (simp add: word_le_def unsigned_ucast_eq) (metis of_int_uint ucast_eq)
  qed
  then show ?thesis unfolding tcp_update_rcv_ann_wnd_def Let_def g t by auto
qed

text \<open>C27: the receive window is never withdrawn. For a control block whose announced right edge is
  within 65535 of the next expected sequence number (on either side), the update of the announced
  window passes its assertion, and the right edge it announces is at or after the edge announced
  before, in the circular order of sequence numbers; the result is the distance by which the edge
  moved if the window was enlarged.\<close>

theorem rcv_window_never_shrinks:
  assumes "edge_near b"
  shows "\<exists>n b'. tcp_update_rcv_ann_wnd b = Some (n, b') \<and>
    TCP_SEQ_GEQ (rcv_nxt b' + ucast (rcv_ann_wnd b')) (rcv_ann_right_edge b) \<and>
    (n \<noteq> 0 \<longrightarrow> rcv_nxt b' + ucast (rcv_ann_wnd b') = rcv_ann_right_edge b + n) \<and>
    rcv_wnd b' = rcv_wnd b \<and> rcv_nxt b' = rcv_nxt b"
proof -
  define d where "d = sint (rcv_ann_right_edge b - rcv_nxt b)"
  have d: "- 65535 \<le> d" "d \<le> 65535" using assms by (auto simp: edge_near_def d_def)
  have W: "0 \<le> uint (rcv_wnd b)" "uint (rcv_wnd b) < 65536" using uint_lt2p [of "rcv_wnd b"] by simp_all
  note r = update_rcv_ann_wnd_result [OF assms, folded d_def]
  have edge: "rcv_ann_right_edge b = rcv_nxt b + word_of_int d" by (simp add: d_def)
  show ?thesis
  proof (cases "min 1072 (uint (mss b)) \<le> uint (rcv_wnd b) - d")
    case True
    have "sint ((ucast (rcv_wnd b) :: u32) - (rcv_ann_right_edge b - rcv_nxt b)) = uint (rcv_wnd b) - d"
      using d W by (subst sint_sub_small) (simp_all only: sint_ucast_u16 d_def)
    moreover have "0 \<le> min 1072 (uint (mss b))" by simp
    ultimately have "0 \<le> sint ((ucast (rcv_wnd b) :: u32) - (rcv_ann_right_edge b - rcv_nxt b))"
      using True by linarith
    then have "0 \<le> sint (rcv_nxt b + ucast (rcv_wnd b) - rcv_ann_right_edge b)"
      by (simp add: algebra_simps)
    then show ?thesis using True r
      by (intro exI [of _ "rcv_nxt b + ucast (rcv_wnd b) - rcv_ann_right_edge b"]
          exI [of _ "b\<lparr>rcv_ann_wnd := rcv_wnd b\<rparr>"]) (simp add: TCP_SEQ_GEQ_def)
  next
    case False
    show ?thesis
    proof (cases "d < 0")
      case True
      have "sint (0 - word_of_int d :: u32) = sint (0 :: u32) - sint (word_of_int d :: u32)"
        using d by (intro sint_sub_small) (simp_all add: d_def)
      then have "sint (0 - word_of_int d :: u32) = - d" by (simp add: d_def)
      then show ?thesis using False True r by (simp add: TCP_SEQ_GEQ_def edge)
    next
      case c: False
      then have "uint (word_of_int d :: u16) = d"
        using d by (simp add: uint_word_of_int_eq take_bit_int_eq_self)
      then have "(ucast (word_of_int d :: u16) :: u32) = word_of_int d" by (simp add: ucast_eq)
      then show ?thesis using False c r by (simp add: TCP_SEQ_GEQ_def edge)
    qed
  qed
qed

theorem rcv_window_never_shrinks_witness:
  "\<exists>n b'. tcp_update_rcv_ann_wnd (example_pcb\<lparr>rcv_nxt := 0xfffffff0, rcv_ann_right_edge := 0x100\<rparr>) = Some (n, b') \<and>
    TCP_SEQ_GEQ (rcv_nxt b' + ucast (rcv_ann_wnd b')) 0x100"
proof -
  have "edge_near (example_pcb\<lparr>rcv_nxt := 0xfffffff0, rcv_ann_right_edge := 0x100\<rparr>)"
    by (simp add: edge_near_def)
  from rcv_window_never_shrinks [OF this] show ?thesis by auto
qed

end
