(* ===== verification/TcpRaw.thy ===== *)
theory TcpRaw
  imports Pbuf TcpApi CLib
begin

text \<open>
  The server application, \<^verbatim>\<open>server_dir/minimal/tcp_raw.c\<close>: it accepts TCP connections through the
  raw API, reads one request per received packet, asks the kernel module over netlink, and sends the
  answer in the packet buffer of the request. The store of packet buffers is that of \<open>Pbuf\<close>, the
  control blocks are those of \<open>TcpApi\<close>; the connection structures have a store of their own.

  The operating system and the rest of the TCP layer are parameters: \<open>nl\<close> answers a netlink request
  (the payload sent), and \<open>tcp_env\<close> holds the effect of \<^verbatim>\<open>tcp_write\<close>, \<^verbatim>\<open>tcp_output\<close>,
  \<^verbatim>\<open>tcp_close\<close>, \<^verbatim>\<open>tcp_abort\<close> and of the functions that make the listening control block.
\<close>

section \<open>Data\<close>

definition PORT :: u16 where "PORT = 1202"
definition NETLINK_USER :: nat where "NETLINK_USER = 31"
definition MAX_PAYLOAD :: nat where "MAX_PAYLOAD = 256"

datatype tcp_raw_states = ES_NONE | ES_ACCEPTED | ES_RECEIVED | ES_CLOSING

record tcp_raw_state =
  state :: tcp_raw_states
  retries :: u8
  es_pcb :: nat
  es_p :: "nat option"

record server =
  heap :: pbuf_heap
  ess :: "nat \<rightharpoonup> tcp_raw_state"
  pcbs :: pcb_store
  tcp_raw_pcb :: "nat option"

record tcp_env =
  tcp_new_op :: "pcb_store \<Rightarrow> nat option \<times> pcb_store"
  tcp_bind_op :: "nat \<Rightarrow> u16 \<Rightarrow> pcb_store \<Rightarrow> err_t \<times> pcb_store"
  tcp_listen_op :: "nat \<Rightarrow> pcb_store \<Rightarrow> nat option \<times> pcb_store"
  tcp_write_op :: "nat \<Rightarrow> u16 \<Rightarrow> bytes option \<Rightarrow> pcb_store \<Rightarrow> (err_t \<times> pcb_store) option"
  tcp_output_op :: "nat \<Rightarrow> pcb_store \<Rightarrow> pcb_store"
  tcp_close_op :: "nat \<Rightarrow> pcb_store \<Rightarrow> pcb_store"
  tcp_abort_op :: "nat \<Rightarrow> pcb_store \<Rightarrow> pcb_store"

section \<open>Netlink\<close>

record sockaddr_nl =
  nl_family :: nat
  nl_pid :: nat
  nl_groups :: nat

record nlmsghdr =
  nlmsg_len :: nat
  nlmsg_pid :: nat
  nlmsg_flags :: nat
  nlmsg_data :: bytes

definition AF_NETLINK :: nat where "AF_NETLINK = 16"
definition NLMSG_HDRLEN :: nat where "NLMSG_HDRLEN = 16"
definition NLMSG_SPACE :: "nat \<Rightarrow> nat" where "NLMSG_SPACE n = (n + NLMSG_HDRLEN + 3) div 4 * 4"

text \<open>
  \<open>socket_ok\<close>, \<open>bind_ok\<close> and \<open>malloc_ok\<close> are the outcomes of the system calls; \<open>None\<close> when the process
  exits, or writes through NULL.
\<close>

definition init_netlink_socket ::
  "bool \<Rightarrow> bool \<Rightarrow> bool \<Rightarrow> nat \<Rightarrow> (sockaddr_nl \<times> sockaddr_nl \<times> nlmsghdr) option" where
  "init_netlink_socket socket_ok bind_ok malloc_ok pid =
     (if \<not> socket_ok then None
      else let src_addr = \<lparr>nl_family = AF_NETLINK, nl_pid = pid, nl_groups = 0\<rparr>
      in if \<not> bind_ok then None
      else let dest_addr = \<lparr>nl_family = AF_NETLINK, nl_pid = 0, nl_groups = 0\<rparr>
      in if \<not> malloc_ok then None
      else Some (src_addr, dest_addr,
        \<lparr>nlmsg_len = NLMSG_SPACE MAX_PAYLOAD, nlmsg_pid = pid, nlmsg_flags = 0,
         nlmsg_data = replicate MAX_PAYLOAD 0\<rparr>))"

text \<open>
  The answer of the system to a netlink request: the process stops while it sets up the socket,
  \<^verbatim>\<open>sendmsg\<close> or \<^verbatim>\<open>recvmsg\<close> fails, or the payload of the message received.
\<close>

datatype nl_outcome = NL_stop | NL_fail | NL_reply bytes

text \<open>The text of the request, \<^verbatim>\<open>sprintf(buffer, "%08x,%08x", address, length)\<close>.\<close>

definition request_text :: "u32 \<Rightarrow> u32 \<Rightarrow> bytes" where
  "request_text address length' = fmt_0x 8 (unat address) @ str '','' @ fmt_0x 8 (unat length')"

text \<open>The payload of the message sent: the text and its terminator copied over the zeroed buffer.\<close>

definition request_payload :: "u32 \<Rightarrow> u32 \<Rightarrow> bytes" where
  "request_payload address length' =
     (let t = request_text address length' @ [0]
      in t @ drop (length t) (replicate MAX_PAYLOAD 0))"

text \<open>
  The result is the payload of the buffer, in which the message received has replaced the front of
  the request; \<open>Some None\<close> is NULL. The kernel writes at most the length of the buffer.
\<close>

definition send_netlink_request ::
  "(bytes \<Rightarrow> nl_outcome) \<Rightarrow> u32 \<Rightarrow> u32 \<Rightarrow> bytes option option" where
  "send_netlink_request nl address length' =
     (let request = request_payload address length'
      in case nl request of
          NL_stop \<Rightarrow> None
        | NL_fail \<Rightarrow> Some None
        | NL_reply r \<Rightarrow>
            let r = take MAX_PAYLOAD r in Some (Some (r @ drop (length r) request)))"

section \<open>The operations\<close>

definition mem_free_es :: "nat \<Rightarrow> server \<Rightarrow> server" where
  "mem_free_es es s = s\<lparr>ess := (ess s)(es := None)\<rparr>"

definition tcp_raw_free :: "nat option \<Rightarrow> server \<Rightarrow> server option" where
  "tcp_raw_free es s =
     (case es of
        None \<Rightarrow> Some s
      | Some a \<Rightarrow> do {
          e \<leftarrow> ess s a;
          s \<leftarrow> (case es_p e of
                 None \<Rightarrow> Some s
               | Some p \<Rightarrow> do { (_, h) \<leftarrow> pbuf_free (Some p) (heap s); Some (s\<lparr>heap := h\<rparr>) });
          Some (mem_free_es a s)
        })"

text \<open>
  The copy from the netlink buffer: \<open>None\<close> for NULL unless nothing is copied, and when the length
  goes beyond the buffer.
\<close>

definition reply_bytes :: "bytes option \<Rightarrow> nat \<Rightarrow> bytes option" where
  "reply_bytes res n =
     (if n = 0 then Some []
      else case res of None \<Rightarrow> None | Some r \<Rightarrow> if n \<le> length r then Some (take n r) else None)"

definition do_action :: "(bytes \<Rightarrow> nl_outcome) \<Rightarrow> nat \<Rightarrow> server \<Rightarrow> server option" where
  "do_action nl es s = do {
     e \<leftarrow> ess s es;
     p \<leftarrow> es_p e;
     b \<leftarrow> pbufs (heap s) p;
     data \<leftarrow> payload_read b 0 8;
     let data0 = le32_of_bytes (data ! 0) (data ! 1) (data ! 2) (data ! 3);
     let data1 = le32_of_bytes (data ! 4) (data ! 5) (data ! 6) (data ! 7);
     res \<leftarrow> send_netlink_request nl data0 data1;
     let b = b\<lparr>len := ucast data1\<rparr>;
     r \<leftarrow> reply_bytes res (unat data1);
     b \<leftarrow> payload_write b 0 r;
     Some (s\<lparr>heap := put p b (heap s)\<rparr>)
   }"

definition tcp_raw_close :: "tcp_env \<Rightarrow> nat \<Rightarrow> nat option \<Rightarrow> server \<Rightarrow> server option" where
  "tcp_raw_close E tpcb es s = do {
     m \<leftarrow> tcp_arg (Some tpcb) None (pcbs s);
     m \<leftarrow> tcp_sent (Some tpcb) None m;
     m \<leftarrow> tcp_recv (Some tpcb) None m;
     m \<leftarrow> tcp_err (Some tpcb) None m;
     m \<leftarrow> tcp_poll (Some tpcb) None 0 m;
     s \<leftarrow> tcp_raw_free es (s\<lparr>pcbs := m\<rparr>);
     Some (s\<lparr>pcbs := tcp_close_op E tpcb (pcbs s)\<rparr>)
   }"

text \<open>One pass through the loop of \<^verbatim>\<open>tcp_raw_send\<close> after \<^verbatim>\<open>tcp_write\<close> has taken the data.\<close>

definition tcp_raw_chop :: "tcp_env \<Rightarrow> nat \<Rightarrow> nat \<Rightarrow> nat \<Rightarrow> server \<Rightarrow> server option" where
  "tcp_raw_chop E tpcb es ptr s = do {
     e \<leftarrow> ess s es;
     b \<leftarrow> pbufs (heap s) ptr;
     let plen = len b;
     let s = s\<lparr>ess := (ess s)(es \<mapsto> e\<lparr>es_p := pnext b\<rparr>)\<rparr>;
     h \<leftarrow> (case pnext b of None \<Rightarrow> Some (heap s) | Some q \<Rightarrow> pbuf_ref (Some q) (heap s));
     (_, h) \<leftarrow> pbuf_free (Some ptr) h;
     m \<leftarrow> tcp_recved (tcp_output_op E) (Some tpcb) plen (pcbs s);
     Some (s\<lparr>heap := h, pcbs := m\<rparr>)
   }"

partial_function (option) tcp_raw_send :: "tcp_env \<Rightarrow> nat \<Rightarrow> nat \<Rightarrow> server \<Rightarrow> server option" where
  "tcp_raw_send E tpcb es s = do {
     e \<leftarrow> ess s es;
     (case es_p e of
        None \<Rightarrow> Some s
      | Some ptr \<Rightarrow> do {
          b \<leftarrow> pbufs (heap s) ptr;
          c \<leftarrow> pcbs s tpcb;
          (if len b \<le> tcp_sndbuf c then do {
             (wr_err, m) \<leftarrow> tcp_write_op E tpcb (len b) (payload_read b 0 (unat (len b))) (pcbs s);
             (if wr_err = ERR_OK then do {
                s' \<leftarrow> tcp_raw_chop E tpcb es ptr (s\<lparr>pcbs := m\<rparr>);
                tcp_raw_send E tpcb es s'
              }
              else Some (s\<lparr>pcbs := m\<rparr>))
           }
           else Some s)
        })
   }"

section \<open>The callbacks\<close>

definition tcp_raw_error :: "nat option \<Rightarrow> server \<Rightarrow> server option" where
  "tcp_raw_error arg s = tcp_raw_free arg s"

definition tcp_raw_poll :: "tcp_env \<Rightarrow> nat option \<Rightarrow> nat \<Rightarrow> server \<Rightarrow> (err_t \<times> server) option" where
  "tcp_raw_poll E arg tpcb s =
     (case arg of
        Some es \<Rightarrow> do {
          e \<leftarrow> ess s es;
          s \<leftarrow> (if es_p e \<noteq> None then tcp_raw_send E tpcb es s
                else if state e = ES_CLOSING then tcp_raw_close E tpcb (Some es) s
                else Some s);
          Some (ERR_OK, s)
        }
      | None \<Rightarrow> Some (ERR_ABRT, s\<lparr>pcbs := tcp_abort_op E tpcb (pcbs s)\<rparr>))"

definition tcp_raw_sent :: "tcp_env \<Rightarrow> nat option \<Rightarrow> nat \<Rightarrow> server \<Rightarrow> (err_t \<times> server) option" where
  "tcp_raw_sent E arg tpcb s = do {
     es \<leftarrow> arg;
     e \<leftarrow> ess s es;
     let e = e\<lparr>retries := 0\<rparr>;
     let s = s\<lparr>ess := (ess s)(es \<mapsto> e)\<rparr>;
     s \<leftarrow> (if es_p e \<noteq> None then do {
              m \<leftarrow> tcp_sent (Some tpcb) (Some ''tcp_raw_sent'') (pcbs s);
              tcp_raw_send E tpcb es (s\<lparr>pcbs := m\<rparr>)
            }
            else if state e = ES_CLOSING then tcp_raw_close E tpcb (Some es) s
            else Some s);
     Some (ERR_OK, s)
   }"

definition tcp_raw_recv ::
  "(bytes \<Rightarrow> nl_outcome) \<Rightarrow> tcp_env \<Rightarrow> nat option \<Rightarrow> nat \<Rightarrow> nat option \<Rightarrow> err_t \<Rightarrow> server \<Rightarrow> (err_t \<times> server) option" where
  "tcp_raw_recv nl E arg tpcb p err s = do {
     lwip_assert (arg \<noteq> None);
     es \<leftarrow> arg;
     e \<leftarrow> ess s es;
     (case p of
        None \<Rightarrow> do {
          let s = s\<lparr>ess := (ess s)(es \<mapsto> e\<lparr>state := ES_CLOSING\<rparr>)\<rparr>;
          s \<leftarrow> (if es_p e = None then tcp_raw_close E tpcb (Some es) s else tcp_raw_send E tpcb es s);
          Some (ERR_OK, s)
        }
      | Some q \<Rightarrow>
          if err \<noteq> ERR_OK then do {
            (_, h) \<leftarrow> pbuf_free p (heap s);
            Some (err, s\<lparr>heap := h\<rparr>)
          }
          else if state e = ES_ACCEPTED then do {
            s \<leftarrow> do_action nl es (s\<lparr>ess := (ess s)(es \<mapsto> e\<lparr>state := ES_RECEIVED, es_p := p\<rparr>)\<rparr>);
            s \<leftarrow> tcp_raw_send E tpcb es s;
            Some (ERR_OK, s)
          }
          else if state e = ES_RECEIVED then
            (case es_p e of
               None \<Rightarrow> do {
                 s \<leftarrow> do_action nl es (s\<lparr>ess := (ess s)(es \<mapsto> e\<lparr>es_p := p\<rparr>)\<rparr>);
                 s \<leftarrow> tcp_raw_send E tpcb es s;
                 Some (ERR_OK, s)
               }
             | Some ptr \<Rightarrow> do {
                 h \<leftarrow> pbuf_cat (Some ptr) p (heap s);
                 Some (ERR_OK, s\<lparr>heap := h\<rparr>)
               })
          else do {
            b \<leftarrow> pbufs (heap s) q;
            m \<leftarrow> tcp_recved (tcp_output_op E) (Some tpcb) (tot_len b) (pcbs s);
            (_, h) \<leftarrow> pbuf_free p (heap s);
            Some (ERR_OK, s\<lparr>pcbs := m, heap := h\<rparr>)
          })
   }"

text \<open>\<open>malloc\<close> is the result of \<^verbatim>\<open>mem_malloc\<close> for the connection structure.\<close>

definition tcp_raw_accept ::
  "(server \<Rightarrow> nat option) \<Rightarrow> nat option \<Rightarrow> nat option \<Rightarrow> err_t \<Rightarrow> server \<Rightarrow> (err_t \<times> server) option" where
  "tcp_raw_accept malloc arg newpcb err s =
     (if err \<noteq> ERR_OK \<or> newpcb = None then Some (ERR_VAL, s)
      else do {
        m \<leftarrow> tcp_setprio newpcb TCP_PRIO_MIN (pcbs s);
        (case malloc s of
           Some es \<Rightarrow> do {
             m \<leftarrow> tcp_arg newpcb (Some es) m;
             m \<leftarrow> tcp_recv newpcb (Some ''tcp_raw_recv'') m;
             m \<leftarrow> tcp_err newpcb (Some ''tcp_raw_error'') m;
             m \<leftarrow> tcp_poll newpcb (Some ''tcp_raw_poll'') 0 m;
             m \<leftarrow> tcp_sent newpcb (Some ''tcp_raw_sent'') m;
             Some (ERR_OK,
               s\<lparr>pcbs := m,
                 ess := (ess s)(es \<mapsto> \<lparr>state = ES_ACCEPTED, retries = 0, es_pcb = the newpcb, es_p = None\<rparr>)\<rparr>)
           }
         | None \<Rightarrow> Some (ERR_MEM, s\<lparr>pcbs := m\<rparr>))
      })"

definition tcp_raw_init :: "tcp_env \<Rightarrow> server \<Rightarrow> server option" where
  "tcp_raw_init E s =
     (let (pcb, m) = tcp_new_op E (pcbs s);
          s = s\<lparr>tcp_raw_pcb := pcb, pcbs := m\<rparr>
      in case pcb of
          None \<Rightarrow> Some s
        | Some a \<Rightarrow>
            let (err, m) = tcp_bind_op E a PORT m
            in if err = ERR_OK then
                 (let (lpcb, m) = tcp_listen_op E a m
                  in do { m \<leftarrow> tcp_accept lpcb (Some ''tcp_raw_accept'') m;
                          Some (s\<lparr>tcp_raw_pcb := lpcb, pcbs := m\<rparr>) })
               else Some (s\<lparr>pcbs := m\<rparr>))"

section \<open>Laws of the parameters\<close>

text \<open>A control block of an open connection with a sane receive window.\<close>

definition pcb_ok :: "tcp_pcb \<Rightarrow> bool" where
  "pcb_ok c \<longleftrightarrow> tcp_state c \<in> {ESTABLISHED, CLOSE_WAIT} \<and> 0 < rcv_wnd c \<and> rcv_wnd c \<le> TCP_WND \<and>
     edge_near c \<and> snd_buf c \<le> TCP_SND_BUF"

text \<open>
  \<^verbatim>\<open>tcp_write\<close> with memory available: data that fits the send buffer is appended to the queue and
  taken off the buffer space.
\<close>

definition write_accepts :: "tcp_env \<Rightarrow> nat \<Rightarrow> bool" where
  "write_accepts E tpcb \<longleftrightarrow>
     (\<forall>m c ds. m tpcb = Some c \<longrightarrow> pcb_ok c \<longrightarrow> length ds \<le> unat (snd_buf c) \<longrightarrow>
        tcp_write_op E tpcb (of_nat (length ds)) (Some ds) m =
          Some (ERR_OK, m(tpcb \<mapsto> c\<lparr>snd_queue := snd_queue c @ ds,
                                   snd_buf := snd_buf c - of_nat (length ds)\<rparr>)))"

text \<open>
  \<^verbatim>\<open>tcp_output\<close> keeps the queued bytes until they are acknowledged, the buffer space, and the
  sanity of the window.
\<close>

definition output_keeps :: "tcp_env \<Rightarrow> nat \<Rightarrow> bool" where
  "output_keeps E tpcb \<longleftrightarrow>
     (\<forall>m c. m tpcb = Some c \<longrightarrow> pcb_ok c \<longrightarrow>
        (\<exists>c'. tcp_output_op E tpcb m tpcb = Some c' \<and> pcb_ok c' \<and> snd_queue c' = snd_queue c \<and>
           snd_buf c' = snd_buf c))"

section \<open>Sending\<close>

lemma recved_wnd_ok:
  assumes "pcb_ok c" "n \<le> TCP_SND_BUF"
  shows "\<exists>w. recved_wnd c n = Some w \<and> 0 < w \<and> w \<le> TCP_WND"
proof -
  have w: "0 < unat (rcv_wnd c)" "unat (rcv_wnd c) \<le> 2144" "unat n \<le> 1072"
    using assms by (simp_all add: pcb_ok_def word_le_nat_alt word_less_nat_alt TCP_WND_def TCP_SND_BUF_def TCP_MSS_def)
  then have "unat (rcv_wnd c + n) = unat (rcv_wnd c) + unat n" by (intro unat_add_u16) linarith
  then have "0 < rcv_wnd c + n" using w by (simp add: word_less_nat_alt)
  then show ?thesis
    unfolding recved_wnd_def Let_def by (auto simp: not_less TCP_WND_def TCP_MSS_def)
qed

lemma tcp_recved_ok:
  assumes c: "m tpcb = Some c" "pcb_ok c" and n: "n \<le> TCP_SND_BUF" and out: "output_keeps E tpcb"
  shows "\<exists>m' c'. tcp_recved (tcp_output_op E) (Some tpcb) n m = Some m' \<and> m' tpcb = Some c' \<and>
    pcb_ok c' \<and> snd_queue c' = snd_queue c \<and> snd_buf c' = snd_buf c"
proof -
  obtain w where w: "recved_wnd c n = Some w" "0 < w" "w \<le> TCP_WND" using recved_wnd_ok [OF c(2) n] by blast
  have near: "edge_near (c\<lparr>rcv_wnd := w\<rparr>)" using c by (simp add: pcb_ok_def edge_near_def)
  from update_rcv_ann_wnd_result [OF near] obtain i v where
    u: "tcp_update_rcv_ann_wnd (c\<lparr>rcv_wnd := w\<rparr>) = Some (i, c\<lparr>rcv_wnd := w, rcv_ann_wnd := v\<rparr>)"
    by (auto split: if_splits)
  let ?c = "c\<lparr>rcv_wnd := w, rcv_ann_wnd := v\<rparr>"
  have ok: "pcb_ok ?c" "pcb_ok (tcp_ack_now ?c)"
    using c w by (simp_all add: pcb_ok_def edge_near_def tcp_ack_now_def)
  have l: "tcp_state c \<noteq> LISTEN" using c by (auto simp: pcb_ok_def)
  show ?thesis
  proof (cases "TCP_WND_UPDATE_THRESHOLD \<le> sint i")
    case True
    then have "tcp_recved (tcp_output_op E) (Some tpcb) n m = Some (tcp_output_op E tpcb (m(tpcb \<mapsto> tcp_ack_now ?c)))"
      using c w u l by (simp add: tcp_recved_def)
    moreover obtain c' where "tcp_output_op E tpcb (m(tpcb \<mapsto> tcp_ack_now ?c)) tpcb = Some c'" "pcb_ok c'"
      "snd_queue c' = snd_queue (tcp_ack_now ?c)" "snd_buf c' = snd_buf (tcp_ack_now ?c)"
      using out ok(2) unfolding output_keeps_def by (metis fun_upd_same)
    ultimately show ?thesis by (auto simp: tcp_ack_now_def)
  next
    case False
    then have "tcp_recved (tcp_output_op E) (Some tpcb) n m = Some (m(tpcb \<mapsto> ?c))"
      using c w u l by (simp add: tcp_recved_def)
    with ok show ?thesis by auto
  qed
qed

text \<open>Taking a reference to the rest of the chain and freeing the first pbuf releases just that one.\<close>

lemma chop_first:
  assumes "chain (pbufs h) (Some ptr) ((ptr, b) # xs)" "\<forall>(a, b) \<in> set ((ptr, b) # xs). ref b = 1"
  shows "\<exists>k h'. (case pnext b of None \<Rightarrow> Some h | Some q \<Rightarrow> pbuf_ref (Some q) h) = Some h' \<and>
    pbuf_free (Some ptr) h' = Some (k, pbuf_release ptr b h)"
proof (cases xs)
  case Nil
  then have "pnext b = None" using assms by simp
  moreover have "pbuf_free (Some ptr) h = Some (1, pbuf_release ptr b h)"
    using pbuf_free_eq [OF assms(1)] unref_chain_all [OF assms(2)] assms Nil by (simp add: live_refs_def)
  ultimately show ?thesis by simp
next
  case (Cons x ys)
  obtain q c where x: "x = (q, c)" by (cases x)
  have ch: "pbufs h ptr = Some b" "pnext b = Some q" "pbufs h q = Some c" "chain (pbufs h) (pnext c) ys"
    and r: "ref b = 1" "ref c = 1"
    using assms Cons x by auto
  have d: "q \<noteq> ptr" "q \<notin> fst ` set ys" "ptr \<notin> fst ` set ys"
    using chain_distinct [OF assms(1)] Cons x by auto
  let ?h = "put q (c\<lparr>ref := 2\<rparr>) h"
  have "pbuf_ref (Some q) h = Some ?h" using ch r by (simp add: pbuf_ref_def)
  moreover have "pbuf_free (Some ptr) ?h = Some (1, pbuf_release ptr b h)"
  proof -
    have c1: "c\<lparr>ref := 2\<rparr>\<lparr>ref := 1\<rparr> = c" using r by (cases c) simp
    have m: "((pbufs h)(q \<mapsto> c\<lparr>ref := 2\<rparr>, ptr := None, q \<mapsto> c)) = (pbufs h)(ptr := None)"
      using ch d by auto
    have "pbuf_free_loop (Some ptr) 0 ?h = pbuf_free_loop (Some q) 1 (pbuf_release ptr b ?h)"
      using ch r d by (subst pbuf_free_loop.simps) simp
    also have "\<dots> = Some (1, put q c (pbuf_release ptr b ?h))"
      using d c1 by (subst pbuf_free_loop.simps) simp
    also have "put q c (pbuf_release ptr b ?h) = pbuf_release ptr b h"
      unfolding pbuf_release_def Let_def using m by (simp split: pbuf_type.split)
    finally have l: "pbuf_free_loop (Some ptr) 0 ?h = Some (1, pbuf_release ptr b h)" .
    have "deref ?h (Some ptr) = Some b" using ch d by (simp add: deref_def)
    then show ?thesis unfolding pbuf_free_def l by simp
  qed
  ultimately show ?thesis using ch by simp
qed

lemma tcp_raw_send_all:
  assumes "chain (pbufs (heap s)) (es_p e) xs" "\<forall>(a, b) \<in> set xs. ref b = 1 \<and> payload_ok b"
    and "ess s es = Some e" "pcbs s tpcb = Some c" "pcb_ok c" "total_len (map snd xs) \<le> unat (snd_buf c)"
    and "write_accepts E tpcb" "output_keeps E tpcb"
  shows "\<exists>s' c'. tcp_raw_send E tpcb es s = Some s' \<and> ess s' = (ess s)(es \<mapsto> e\<lparr>es_p := None\<rparr>) \<and>
    heap s' = release_all xs (heap s) \<and> pcbs s' tpcb = Some c' \<and> pcb_ok c' \<and>
    snd_queue c' = snd_queue c @ content (map snd xs)"
  using assms(1-6)
proof (induction xs arbitrary: s e c)
  case Nil
  then have "e\<lparr>es_p := None\<rparr> = e" by simp
  with Nil show ?case by (subst tcp_raw_send.simps) auto
next
  case (Cons x xs)
  obtain ptr b where x: "x = (ptr, b)" by (cases x)
  have ch: "es_p e = Some ptr" "pbufs (heap s) ptr = Some b" "chain (pbufs (heap s)) (pnext b) xs"
    "ref b = 1" "payload_ok b" "unat (len b) + total_len (map snd xs) \<le> unat (snd_buf c)"
    using Cons.prems x by auto
  let ?c = "c\<lparr>snd_queue := snd_queue c @ pdata b, snd_buf := snd_buf c - len b\<rparr>"
  let ?m = "(pcbs s)(tpcb \<mapsto> ?c)"
  have le: "len b \<le> snd_buf c" "len b \<le> TCP_SND_BUF"
    using ch(6) Cons.prems(5) by (auto simp: word_le_nat_alt pcb_ok_def)
  have sb: "unat (snd_buf c - len b) = unat (snd_buf c) - unat (len b)" using le by (simp add: unat_sub)
  have ok: "pcb_ok ?c"
    using Cons.prems(5) sb le_trans [OF diff_le_self, of "unat (snd_buf c)" "unat TCP_SND_BUF"]
    by (simp add: pcb_ok_def edge_near_def word_le_nat_alt)
  have "payload_read b 0 (unat (len b)) = Some (pdata b)"
    using payload_read_eq [of b 0 "unat (len b)"] ch by simp
  moreover have "tcp_write_op E tpcb (len b) (Some (pdata b)) (pcbs s) = Some (ERR_OK, ?m)"
    using assms(7)[unfolded write_accepts_def, rule_format, of "pcbs s" c "pdata b"] Cons.prems(4,5) ch
    by simp
  ultimately have w: "tcp_write_op E tpcb (len b) (payload_read b 0 (unat (len b))) (pcbs s) = Some (ERR_OK, ?m)"
    by simp
  obtain k h' where chop: "(case pnext b of None \<Rightarrow> Some (heap s) | Some q \<Rightarrow> pbuf_ref (Some q) (heap s)) = Some h'"
    "pbuf_free (Some ptr) h' = Some (k, pbuf_release ptr b (heap s))"
  proof -
    have "\<forall>(a, b) \<in> set ((ptr, b) # xs). ref b = 1" using Cons.prems(2) x by auto
    from chop_first [OF _ this, of "heap s"] ch that show ?thesis by auto
  qed
  obtain m' c' where rv: "tcp_recved (tcp_output_op E) (Some tpcb) (len b) ?m = Some m'" "m' tpcb = Some c'"
    "pcb_ok c'" "snd_queue c' = snd_queue ?c" "snd_buf c' = snd_buf ?c"
    using tcp_recved_ok [OF _ ok le(2) assms(8), of ?m] by auto
  let ?s = "s\<lparr>heap := pbuf_release ptr b (heap s), ess := (ess s)(es \<mapsto> e\<lparr>es_p := pnext b\<rparr>), pcbs := m'\<rparr>"
  have "tcp_raw_chop E tpcb es ptr (s\<lparr>pcbs := ?m\<rparr>) = Some ?s"
    using Cons.prems(3) ch chop rv by (simp add: tcp_raw_chop_def Let_def cong: option.case_cong)
  then have step: "tcp_raw_send E tpcb es s = tcp_raw_send E tpcb es ?s"
    using Cons.prems(3,4) ch le w by (subst tcp_raw_send.simps) (simp add: tcp_sndbuf_def)
  have c1: "chain (pbufs (heap ?s)) (es_p (e\<lparr>es_p := pnext b\<rparr>)) xs"
    using ch(3) chain_distinct [OF Cons.prems(1)] x by simp
  have c2: "\<forall>(a, b) \<in> set xs. ref b = 1 \<and> payload_ok b" using Cons.prems(2) x by auto
  have c3: "ess ?s es = Some (e\<lparr>es_p := pnext b\<rparr>)" "pcbs ?s tpcb = Some c'" using rv(2) by simp_all
  have c4: "total_len (map snd xs) \<le> unat (snd_buf c')" using rv(5) sb ch(6) by simp
  obtain s' c'' where r: "tcp_raw_send E tpcb es ?s = Some s'" "ess s' = (ess ?s)(es \<mapsto> e\<lparr>es_p := pnext b\<rparr>\<lparr>es_p := None\<rparr>)"
    "heap s' = release_all xs (heap ?s)" "pcbs s' tpcb = Some c''" "pcb_ok c''"
    "snd_queue c'' = snd_queue c' @ content (map snd xs)"
    using Cons.IH [OF c1 c2 c3 rv(3) c4] by blast
  have "ess s' = (ess s)(es \<mapsto> e\<lparr>es_p := None\<rparr>)" using r(2) by simp
  with step rv(4) r show ?case by (auto simp: x)
qed

section \<open>Requests\<close>

lemma length_request_text: "length (request_text a n) = 17"
proof -
  have "unat a < 16 ^ 8" "unat n < 16 ^ 8" using unat_u32_less [of a] unat_u32_less [of n] by (simp_all del: unat_u32_less)
  then show ?thesis by (simp add: request_text_def length_fmt_0x str_def)
qed

lemma length_request_payload: "length (request_payload a n) = MAX_PAYLOAD"
  by (simp add: request_payload_def Let_def length_request_text MAX_PAYLOAD_def)

text \<open>What the netlink buffer holds after the answer \<open>r\<close>.\<close>

definition nl_buffer :: "u32 \<Rightarrow> u32 \<Rightarrow> bytes \<Rightarrow> bytes" where
  "nl_buffer a n r = take MAX_PAYLOAD r @ drop (length r) (request_payload a n)"

lemma length_nl_buffer: "length (nl_buffer a n r) = MAX_PAYLOAD"
  by (simp add: nl_buffer_def length_request_payload)

lemma nl_buffer_nonempty [simp]: "nl_buffer a n r \<noteq> []"
  using length_nl_buffer [of a n r] by (auto simp: MAX_PAYLOAD_def)

lemma send_netlink_request_reply:
  assumes "nl (request_payload a n) = NL_reply r"
  shows "send_netlink_request nl a n = Some (Some (nl_buffer a n r))"
proof -
  have "drop (min (length r) MAX_PAYLOAD) (request_payload a n) = drop (length r) (request_payload a n)"
    by (simp add: min_def length_request_payload)
  then show ?thesis using assms by (simp add: send_netlink_request_def nl_buffer_def)
qed

text \<open>A pbuf whose first eight payload bytes are the two words of a request.\<close>

definition request_in :: "pbuf \<Rightarrow> u32 \<Rightarrow> u32 \<Rightarrow> bool" where
  "request_in b a n \<longleftrightarrow> payload_read b 0 8 = Some (le32_bytes a @ le32_bytes n)"

lemma do_action_unfold:
  assumes "ess s es = Some e" "es_p e = Some p" "pbufs (heap s) p = Some b" "request_in b a n"
  shows "do_action nl es s = do {
    res \<leftarrow> send_netlink_request nl a n;
    r \<leftarrow> reply_bytes res (unat n);
    b \<leftarrow> payload_write (b\<lparr>len := ucast n\<rparr>) 0 r;
    Some (s\<lparr>heap := put p b (heap s)\<rparr>) }"
proof -
  have "le32_of_bytes ((le32_bytes a @ le32_bytes n) ! 0) ((le32_bytes a @ le32_bytes n) ! 1)
      ((le32_bytes a @ le32_bytes n) ! 2) ((le32_bytes a @ le32_bytes n) ! 3) = a"
    "le32_of_bytes ((le32_bytes a @ le32_bytes n) ! 4) ((le32_bytes a @ le32_bytes n) ! 5)
      ((le32_bytes a @ le32_bytes n) ! 6) ((le32_bytes a @ le32_bytes n) ! 7) = n"
    by (simp_all add: le32_bytes_def)
  then show ?thesis using assms by (simp add: do_action_def request_in_def Let_def)
qed

lemma payload_write_None_iff:
  "request_in b a n \<Longrightarrow> payload_write (b\<lparr>len := l\<rparr>) 0 r = None \<longleftrightarrow>
     r \<noteq> [] \<and> length (area b) < nat (the (payload b)) + length r"
  by (auto simp: request_in_def payload_read_def payload_write_def Let_def split: option.splits if_splits)

text \<open>C26: when the request handler crashes. For a packet with a request for \<open>n\<close> bytes, \<open>do_action\<close>
  does not return normally exactly when the netlink socket cannot be set up, or when \<open>n\<close> is not 0
  and the netlink exchange failed (\<^verbatim>\<open>memcpy\<close> from NULL), or \<open>n\<close> is larger than the 256-byte netlink
  buffer, or the answer does not fit the memory behind the payload of the packet. Nothing in the
  server bounds \<open>n\<close>.\<close>

theorem do_action_crash_iff:
  assumes "ess s es = Some e" "es_p e = Some p" "pbufs (heap s) p = Some b" "request_in b a n"
  shows "do_action nl es s = None \<longleftrightarrow>
    nl (request_payload a n) = NL_stop \<or>
    (n \<noteq> 0 \<and> (nl (request_payload a n) = NL_fail \<or> MAX_PAYLOAD < unat n \<or>
       length (area b) < nat (the (payload b)) + unat n))"
proof (cases "nl (request_payload a n)")
  case NL_stop
  then show ?thesis using do_action_unfold [OF assms, of nl] by (simp add: send_netlink_request_def)
next
  case NL_fail
  then show ?thesis using do_action_unfold [OF assms, of nl] payload_write_None_iff [OF assms(4)]
    by (auto simp: send_netlink_request_def reply_bytes_def unat_eq_0 bind_eq_None_conv)
next
  case (NL_reply r)
  show ?thesis
    using do_action_unfold [OF assms, of nl] payload_write_None_iff [OF assms(4)] NL_reply
    by (auto simp: send_netlink_request_reply reply_bytes_def length_nl_buffer unat_eq_0 bind_eq_None_conv
        not_le not_less)
qed

lemma do_action_ok:
  assumes "ess s es = Some e" "es_p e = Some p" "pbufs (heap s) p = Some b" "request_in b a n"
    and "nl (request_payload a n) = NL_reply r" "unat n \<le> MAX_PAYLOAD"
    and "nat (the (payload b)) + unat n \<le> length (area b)"
  shows "\<exists>b'. do_action nl es s = Some (s\<lparr>heap := put p b' (heap s)\<rparr>) \<and> ref b' = ref b \<and> pnext b' = pnext b \<and>
    payload_ok b' \<and> len b' = ucast n \<and> pdata b' = take (unat n) (nl_buffer a n r)"
proof -
  let ?r = "take (unat n) (nl_buffer a n r)"
  have lr: "length ?r = unat n" using assms(6) by (simp add: length_nl_buffer)
  have u: "unat (ucast n :: u16) = unat n"
  proof -
    have "unat n < 65536" using assms(6) by (simp add: MAX_PAYLOAD_def)
    then show ?thesis by (simp add: unsigned_ucast_eq take_bit_nat_eq_self)
  qed
  obtain off where off: "payload b = Some off" "0 \<le> off"
    using assms(4) by (auto simp: request_in_def payload_read_def Let_def split: option.splits if_splits)
  have "reply_bytes (Some (nl_buffer a n r)) (unat n) = Some ?r"
    using assms(6) by (auto simp: reply_bytes_def length_nl_buffer)
  then have d: "do_action nl es s = do { b \<leftarrow> payload_write (b\<lparr>len := ucast n\<rparr>) 0 ?r; Some (s\<lparr>heap := put p b (heap s)\<rparr>) }"
    using do_action_unfold [OF assms(1-4), of nl] send_netlink_request_reply [of nl a n r] assms(5) by simp
  show ?thesis
  proof (cases "n = 0")
    case True
    then show ?thesis using d off u
      by (intro exI [of _ "b\<lparr>len := ucast n\<rparr>"]) (simp add: payload_write_def payload_ok_def pdata_def)
  next
    case False
    let ?b = "b\<lparr>len := ucast n, area := take (nat off) (area b) @ ?r @ drop (nat off + unat n) (area b)\<rparr>"
    have n: "?r \<noteq> []" "length ?r = unat n" using lr False by (auto simp: unat_eq_0)
    have le: "nat off + unat n \<le> length (area b)" using assms(7) off by simp
    then have "off + int (unat n) \<le> int (length (area b))" using off(2) by linarith
    then have w: "payload_write (b\<lparr>len := ucast n\<rparr>) 0 ?r = Some ?b"
      unfolding payload_write_def n(2) using off n by (simp add: Let_def)
    have "payload_ok ?b" using off le n(2) u by (simp add: payload_ok_def)
    moreover have "pdata ?b = ?r" using off le n(2) u by (simp add: pdata_def)
    ultimately show ?thesis using d w by (intro exI [of _ ?b]) simp
  qed
qed

lemma tcp_raw_recv_request:
  assumes es: "ess s es = Some e" "state e \<in> {ES_ACCEPTED, ES_RECEIVED}" "es_p e = None"
    and q: "pbufs (heap s) q = Some b" "pnext b = None" "ref b = 1"
    and rq: "request_in b a n" "unat n \<le> MAX_PAYLOAD" "nat (the (payload b)) + unat n \<le> length (area b)"
    and nl: "nl (request_payload a n) = NL_reply r"
    and c: "pcbs s tpcb = Some c" "pcb_ok c" "unat n \<le> unat (snd_buf c)"
    and laws: "write_accepts E tpcb" "output_keeps E tpcb"
  shows "\<exists>s' c'. tcp_raw_recv nl E (Some es) tpcb (Some q) ERR_OK s = Some (ERR_OK, s') \<and>
    ess s' = (ess s)(es \<mapsto> e\<lparr>state := ES_RECEIVED\<rparr>) \<and> pbufs (heap s') = (pbufs (heap s))(q := None) \<and>
    pcbs s' tpcb = Some c' \<and> pcb_ok c' \<and>
    snd_queue c' = snd_queue c @ take (unat n) (take MAX_PAYLOAD r @ drop (length r) (request_payload a n))"
proof -
  let ?e = "e\<lparr>state := ES_RECEIVED, es_p := Some q\<rparr>"
  let ?s = "s\<lparr>ess := (ess s)(es \<mapsto> ?e)\<rparr>"
  have ee: "e\<lparr>es_p := Some q\<rparr> = ?e" if "state e = ES_RECEIVED" using that by (cases e) simp
  have r: "tcp_raw_recv nl E (Some es) tpcb (Some q) ERR_OK s =
      do { s \<leftarrow> do_action nl es ?s; s \<leftarrow> tcp_raw_send E tpcb es s; Some (ERR_OK, s) }"
  proof (cases "state e = ES_ACCEPTED")
    case True
    then show ?thesis using es by (simp add: tcp_raw_recv_def)
  next
    case False
    then have "state e = ES_RECEIVED" using es by simp
    then show ?thesis unfolding ee [OF \<open>state e = ES_RECEIVED\<close>, symmetric]
      using es by (simp add: tcp_raw_recv_def)
  qed
  obtain b' where b': "do_action nl es ?s = Some (?s\<lparr>heap := put q b' (heap ?s)\<rparr>)" "ref b' = ref b"
    "pnext b' = pnext b" "payload_ok b'" "len b' = ucast n" "pdata b' = take (unat n) (nl_buffer a n r)"
    using do_action_ok [of ?s es ?e q b a n nl r] rq nl q(1) by auto
  let ?s2 = "?s\<lparr>heap := put q b' (heap ?s)\<rparr>"
  have l: "unat (len b') \<le> unat n" unfolding b'(5) unsigned_ucast_eq by simp
  have ch: "chain (pbufs (heap ?s2)) (es_p ?e) [(q, b')]" using q b' by simp
  have al: "\<forall>(a, b) \<in> set [(q, b')]. ref b = 1 \<and> payload_ok b" using q b' by simp
  have st: "ess ?s2 es = Some ?e" "pcbs ?s2 tpcb = Some c" "total_len (map snd [(q, b')]) \<le> unat (snd_buf c)"
    using c l by simp_all
  obtain s' c' where sent: "tcp_raw_send E tpcb es ?s2 = Some s'" "ess s' = (ess ?s2)(es \<mapsto> ?e\<lparr>es_p := None\<rparr>)"
    "heap s' = release_all [(q, b')] (heap ?s2)" "pcbs s' tpcb = Some c'" "pcb_ok c'"
    "snd_queue c' = snd_queue c @ content (map snd [(q, b')])"
    using tcp_raw_send_all [OF ch al st(1,2) c(2) st(3) laws] by blast
  have "?e\<lparr>es_p := None\<rparr> = e\<lparr>state := ES_RECEIVED\<rparr>" using es(3) by (cases e) simp
  then have "ess s' = (ess s)(es \<mapsto> e\<lparr>state := ES_RECEIVED\<rparr>)" using sent(2) by simp
  moreover have "pbufs (heap s') = (pbufs (heap s))(q := None)" using sent(3) by auto
  ultimately show ?thesis using r b'(1) sent(1,4,5,6) b'(6) by (auto simp: nl_buffer_def)
qed

text \<open>C23: one request. On a connection without pending data the receive callback, given a packet in
  one buffer whose payload starts with the address \<open>a\<close> and the length \<open>n \<le> 256\<close>, returns
  \<^verbatim>\<open>ERR_OK\<close>, hands to TCP exactly \<open>n\<close> bytes, the first bytes of the netlink buffer after the answer
  \<open>r\<close>, releases the packet, and leaves the connection ready for the next request. If the answer is
  shorter than \<open>n\<close>, the rest are the bytes of the request text that the buffer held before.\<close>

theorem server_answers_request:
  assumes es: "ess s es = Some e" "state e \<in> {ES_ACCEPTED, ES_RECEIVED}" "es_p e = None"
    and q: "pbufs (heap s) q = Some b" "pnext b = None" "ref b = 1"
    and rq: "request_in b a n" "unat n \<le> MAX_PAYLOAD" "nat (the (payload b)) + unat n \<le> length (area b)"
    and nl: "nl (request_payload a n) = NL_reply r"
    and c: "pcbs s tpcb = Some c" "pcb_ok c" "unat n \<le> unat (snd_buf c)"
    and laws: "write_accepts E tpcb" "output_keeps E tpcb"
  shows "\<exists>s' c'. tcp_raw_recv nl E (Some es) tpcb (Some q) ERR_OK s = Some (ERR_OK, s') \<and>
    ess s' = (ess s)(es \<mapsto> e\<lparr>state := ES_RECEIVED\<rparr>) \<and> pbufs (heap s') = (pbufs (heap s))(q := None) \<and>
    pcbs s' tpcb = Some c' \<and> pcb_ok c' \<and>
    snd_queue c' = snd_queue c @ take (unat n) (take MAX_PAYLOAD r @ drop (length r) (request_payload a n))"
  by (rule tcp_raw_recv_request [where nl = nl and r = r, OF es q rq _ c laws]) (rule nl)

section \<open>An example\<close>

text \<open>A TCP layer that accepts all data, and a server with one connection and one received packet.\<close>

definition example_env :: tcp_env where
  "example_env =
     \<lparr>tcp_new_op = (\<lambda>m. (Some 9, m(9 \<mapsto> example_pcb\<lparr>tcp_state := CLOSED\<rparr>))),
      tcp_bind_op = (\<lambda>a port m. (ERR_OK, m)),
      tcp_listen_op = (\<lambda>a m. (Some a, m(a \<mapsto> example_pcb\<lparr>tcp_state := LISTEN\<rparr>))),
      tcp_write_op = (\<lambda>a n ds m. do { c \<leftarrow> m a; ds \<leftarrow> ds;
        Some (ERR_OK, m(a \<mapsto> c\<lparr>snd_queue := snd_queue c @ ds, snd_buf := snd_buf c - of_nat (length ds)\<rparr>)) }),
      tcp_output_op = (\<lambda>a m. m), tcp_close_op = (\<lambda>a m. m(a := None)), tcp_abort_op = (\<lambda>a m. m(a := None))\<rparr>"

lemma example_env_laws: "write_accepts example_env a" "output_keeps example_env a"
  by (auto simp: write_accepts_def output_keeps_def example_env_def)

definition request_pbuf :: "u32 \<Rightarrow> u32 \<Rightarrow> pbuf" where
  "request_pbuf a n =
     \<lparr>pnext = None, payload = Some 54, tot_len = 8, len = 8, ptype = PBUF_POOL, flags = 0, ref = 1,
      area = replicate 54 0 @ le32_bytes a @ le32_bytes n @ replicate 530 0\<rparr>"

definition example_server :: "u32 \<Rightarrow> u32 \<Rightarrow> server" where
  "example_server a n =
     \<lparr>heap = \<lparr>pbufs = [1 \<mapsto> request_pbuf a n], pool_free = [], ref_free = [], ooseq_pending = False,
              custom_freed = [], stale = (\<lambda>_ _. 0)\<rparr>,
      ess = [5 \<mapsto> \<lparr>state = ES_ACCEPTED, retries = 0, es_pcb = 7, es_p = None\<rparr>],
      pcbs = [7 \<mapsto> example_pcb\<lparr>callback_arg := Some 5\<rparr>], tcp_raw_pcb = Some 9\<rparr>"

lemma request_pbuf_request: "request_in (request_pbuf a n) a n"
  by (simp add: request_in_def request_pbuf_def payload_read_def Let_def le32_bytes_def)

theorem do_action_crash_iff_witness:
  "do_action (\<lambda>_. NL_reply []) 5
     ((example_server 0x1000 300)\<lparr>ess := [5 \<mapsto> \<lparr>state = ES_RECEIVED, retries = 0, es_pcb = 7, es_p = Some 1\<rparr>]\<rparr>) = None"
  by (subst do_action_crash_iff [where p = 1 and b = "request_pbuf 0x1000 300" and a = "0x1000" and n = 300
        and e = "\<lparr>state = ES_RECEIVED, retries = 0, es_pcb = 7, es_p = Some 1\<rparr>"])
    (simp_all add: request_pbuf_request example_server_def MAX_PAYLOAD_def)

lemma example_pcb_ok: "pcb_ok (example_pcb\<lparr>callback_arg := x\<rparr>)"
  by (simp add: pcb_ok_def example_pcb_def edge_near_def TCP_WND_def TCP_MSS_def TCP_SND_BUF_def)

theorem server_answers_request_witness:
  "\<exists>s' c'. tcp_raw_recv (\<lambda>_. NL_reply [1, 2]) example_env (Some 5) 7 (Some 1) ERR_OK (example_server 0x10 4) =
      Some (ERR_OK, s') \<and> pbufs (heap s') 1 = None \<and> pcbs s' 7 = Some c' \<and>
      snd_queue c' = [1, 2, of_char (CHR ''0''), of_char (CHR ''0'')]"
proof -
  let ?s = "example_server 0x10 4"
  have e: "ess ?s 5 = Some \<lparr>state = ES_ACCEPTED, retries = 0, es_pcb = 7, es_p = None\<rparr>"
    "pbufs (heap ?s) 1 = Some (request_pbuf 0x10 4)" "pcbs ?s 7 = Some (example_pcb\<lparr>callback_arg := Some 5\<rparr>)"
    by (simp_all add: example_server_def)
  have b: "pnext (request_pbuf 0x10 4) = None" "ref (request_pbuf 0x10 4) = 1"
    "payload (request_pbuf 0x10 4) = Some 54" "length (area (request_pbuf 0x10 4)) = 592"
    by (simp_all add: request_pbuf_def le32_bytes_def)
  have t: "take 4 (take MAX_PAYLOAD [1, 2] @ drop (length [1, 2 :: u8]) (request_payload 0x10 4)) =
      [1, 2, of_char (CHR ''0''), of_char (CHR ''0'')]"
  proof -
    have r: "request_text 0x10 4 = of_char (CHR ''0'') # of_char (CHR ''0'') # of_char (CHR ''0'') #
        of_char (CHR ''0'') # drop 4 (request_text 0x10 4)" by code_simp
    show ?thesis unfolding request_payload_def Let_def by (subst r) (simp add: MAX_PAYLOAD_def)
  qed
  have sb: "snd_buf (example_pcb\<lparr>callback_arg := Some 5\<rparr>) = 1072" "snd_queue (example_pcb\<lparr>callback_arg := Some 5\<rparr>) = []"
    by (simp_all add: example_pcb_def TCP_SND_BUF_def TCP_MSS_def)
  show ?thesis
    using server_answers_request [where nl = "\<lambda>_. NL_reply [1, 2]" and r = "[1, 2]", OF e(1) _ _ e(2) b(1,2)
        request_pbuf_request _ _ refl e(3) example_pcb_ok _ example_env_laws] t
    by (auto simp: b sb MAX_PAYLOAD_def)
qed

section \<open>Connections over time\<close>

text \<open>
  The stack calls the application through the function pointers of the control block: the
  \<^verbatim>\<open>TCP_EVENT\<close> macros of \<^verbatim>\<open>tcp_priv.h\<close>. A pointer to another function than those of this
  application is \<open>None\<close>.
\<close>

definition tcp_recv_null :: "tcp_env \<Rightarrow> nat \<Rightarrow> nat option \<Rightarrow> err_t \<Rightarrow> server \<Rightarrow> (err_t \<times> server) option" where
  "tcp_recv_null E pcb p err s =
     (case p of
        Some q \<Rightarrow> do {
          b \<leftarrow> pbufs (heap s) q;
          m \<leftarrow> tcp_recved (tcp_output_op E) (Some pcb) (tot_len b) (pcbs s);
          (_, h) \<leftarrow> pbuf_free p (heap s);
          Some (ERR_OK, s\<lparr>pcbs := m, heap := h\<rparr>)
        }
      | None \<Rightarrow>
          if err = ERR_OK then Some (ERR_OK, s\<lparr>pcbs := tcp_close_op E pcb (pcbs s)\<rparr>) else Some (ERR_OK, s))"

definition TCP_EVENT_SENT :: "tcp_env \<Rightarrow> nat \<Rightarrow> server \<Rightarrow> (err_t \<times> server) option" where
  "TCP_EVENT_SENT E a s = do {
     c \<leftarrow> pcbs s a;
     (case sent_fn c of
        None \<Rightarrow> Some (ERR_OK, s)
      | Some f \<Rightarrow> if f = ''tcp_raw_sent'' then tcp_raw_sent E (callback_arg c) a s else None)
   }"

definition TCP_EVENT_RECV ::
  "(bytes \<Rightarrow> nl_outcome) \<Rightarrow> tcp_env \<Rightarrow> nat \<Rightarrow> nat option \<Rightarrow> err_t \<Rightarrow> server \<Rightarrow> (err_t \<times> server) option" where
  "TCP_EVENT_RECV nl E a p err s = do {
     c \<leftarrow> pcbs s a;
     (case recv_fn c of
        None \<Rightarrow> tcp_recv_null E a p err s
      | Some f \<Rightarrow> if f = ''tcp_raw_recv'' then tcp_raw_recv nl E (callback_arg c) a p err s else None)
   }"

definition TCP_EVENT_CLOSED ::
  "(bytes \<Rightarrow> nl_outcome) \<Rightarrow> tcp_env \<Rightarrow> nat \<Rightarrow> server \<Rightarrow> (err_t \<times> server) option" where
  "TCP_EVENT_CLOSED nl E a s = do {
     c \<leftarrow> pcbs s a;
     (case recv_fn c of
        None \<Rightarrow> Some (ERR_OK, s)
      | Some f \<Rightarrow> if f = ''tcp_raw_recv'' then tcp_raw_recv nl E (callback_arg c) a None ERR_OK s else None)
   }"

definition TCP_EVENT_POLL :: "tcp_env \<Rightarrow> nat \<Rightarrow> server \<Rightarrow> (err_t \<times> server) option" where
  "TCP_EVENT_POLL E a s = do {
     c \<leftarrow> pcbs s a;
     (case poll_fn c of
        None \<Rightarrow> Some (ERR_OK, s)
      | Some f \<Rightarrow> if f = ''tcp_raw_poll'' then tcp_raw_poll E (callback_arg c) a s else None)
   }"

definition TCP_EVENT_ERR :: "string option \<Rightarrow> nat option \<Rightarrow> server \<Rightarrow> server option" where
  "TCP_EVENT_ERR f arg s =
     (case f of None \<Rightarrow> Some s | Some f \<Rightarrow> if f = ''tcp_raw_error'' then tcp_raw_error arg s else None)"

text \<open>What the invariant sees of a control block and of a connection structure.\<close>

definition callbacks :: "tcp_pcb \<Rightarrow> nat option \<times> string option \<times> string option \<times> string option \<times> string option" where
  "callbacks c = (callback_arg c, sent_fn c, recv_fn c, poll_fn c, errf c)"

definition no_callbacks :: "nat option \<times> string option \<times> string option \<times> string option \<times> string option" where
  "no_callbacks = (None, None, None, None, None)"

definition raw_callbacks :: "nat \<Rightarrow> nat option \<times> string option \<times> string option \<times> string option \<times> string option" where
  "raw_callbacks es =
     (Some es, Some ''tcp_raw_sent'', Some ''tcp_raw_recv'', Some ''tcp_raw_poll'', Some ''tcp_raw_error'')"

definition cb_table ::
  "pcb_store \<Rightarrow> nat \<rightharpoonup> nat option \<times> string option \<times> string option \<times> string option \<times> string option" where
  "cb_table m a = map_option callbacks (m a)"

definition es_table :: "(nat \<rightharpoonup> tcp_raw_state) \<Rightarrow> nat \<rightharpoonup> nat \<times> bool \<times> u8" where
  "es_table t a = map_option (\<lambda>e. (es_pcb e, state e = ES_NONE, retries e)) (t a)"

text \<open>
  The rest of the stack never changes the callbacks of a control block; closing and aborting may
  remove the control block they are given.
\<close>

definition stack_keeps :: "tcp_env \<Rightarrow> bool" where
  "stack_keeps E \<longleftrightarrow>
     (\<forall>a n ds m r m'. tcp_write_op E a n ds m = Some (r, m') \<longrightarrow> cb_table m' = cb_table m) \<and>
     (\<forall>a m. cb_table (tcp_output_op E a m) = cb_table m) \<and>
     (\<forall>a m. cb_table (tcp_close_op E a m) \<in> {cb_table m, (cb_table m)(a := None)}) \<and>
     (\<forall>a m. cb_table (tcp_abort_op E a m) \<in> {cb_table m, (cb_table m)(a := None)})"

text \<open>
  The steps of the server: a new connection (aborted if the callback refuses it), the events, the
  end of a connection by the stack, and any other work of the stack, which may change the packet
  buffers and the control blocks but not their callbacks.
\<close>

inductive server_step ::
  "(bytes \<Rightarrow> nl_outcome) \<Rightarrow> tcp_env \<Rightarrow> (server \<Rightarrow> nat option) \<Rightarrow> server \<Rightarrow> server \<Rightarrow> bool"
  for nl E malloc where
  accepted: "pcbs s a = None \<Longrightarrow> callbacks c = no_callbacks \<Longrightarrow>
    tcp_raw_accept malloc None (Some a) ERR_OK (s\<lparr>pcbs := (pcbs s)(a \<mapsto> c)\<rparr>) = Some (r, s') \<Longrightarrow>
    s'' = (if r = ERR_OK then s' else s'\<lparr>pcbs := (pcbs s')(a := None)\<rparr>) \<Longrightarrow> server_step nl E malloc s s''"
| received: "TCP_EVENT_RECV nl E a p err s = Some (r, s') \<Longrightarrow> server_step nl E malloc s s'"
| closed: "TCP_EVENT_CLOSED nl E a s = Some (r, s') \<Longrightarrow> server_step nl E malloc s s'"
| sent: "TCP_EVENT_SENT E a s = Some (r, s') \<Longrightarrow> server_step nl E malloc s s'"
| polled: "TCP_EVENT_POLL E a s = Some (r, s') \<Longrightarrow> server_step nl E malloc s s'"
| failed: "pcbs s a = Some c \<Longrightarrow>
    TCP_EVENT_ERR (errf c) (callback_arg c) (s\<lparr>pcbs := (pcbs s)(a := None)\<rparr>) = Some s' \<Longrightarrow> server_step nl E malloc s s'"
| removed: "cb_table (pcbs s) a = Some no_callbacks \<Longrightarrow>
    server_step nl E malloc s (s\<lparr>pcbs := (pcbs s)(a := None)\<rparr>)"
| stack: "cb_table m = cb_table (pcbs s) \<Longrightarrow> server_step nl E malloc s (s\<lparr>pcbs := m, heap := h\<rparr>)"

text \<open>The states after \<^verbatim>\<open>tcp_raw_init\<close> on an empty server.\<close>

inductive server_reach ::
  "(bytes \<Rightarrow> nl_outcome) \<Rightarrow> tcp_env \<Rightarrow> (server \<Rightarrow> nat option) \<Rightarrow> server \<Rightarrow> bool"
  for nl E malloc where
  start: "ess s = (\<lambda>_. None) \<Longrightarrow> (\<forall>a t. cb_table (pcbs s) a = Some t \<longrightarrow> t = no_callbacks) \<Longrightarrow>
    server_reach nl E malloc s"
| step: "server_reach nl E malloc s \<Longrightarrow> server_step nl E malloc s s' \<Longrightarrow> server_reach nl E malloc s'"

text \<open>
  Every control block has either none of the callbacks or all of them, with an argument that points
  to a live structure that names this control block; and every live structure is the argument of the
  control block it names.
\<close>

definition table_inv where
  "table_inv C V \<longleftrightarrow>
     (\<forall>a t. C a = Some t \<longrightarrow> t = no_callbacks \<or> (\<exists>es. t = raw_callbacks es \<and> V es = Some (a, False, 0 :: u8))) \<and>
     (\<forall>es v. V es = Some v \<longrightarrow> (\<exists>a. v = (a, False, 0) \<and> C a = Some (raw_callbacks es)))"

definition server_inv :: "server \<Rightarrow> bool" where
  "server_inv s \<longleftrightarrow> table_inv (cb_table (pcbs s)) (es_table (ess s))"

lemma cb_table_upd [simp]: "cb_table (m(a := x)) = (cb_table m)(a := map_option callbacks x)"
  by (auto simp: cb_table_def)

lemma cb_table_keep:
  "m a = Some b \<Longrightarrow> callbacks c = callbacks b \<Longrightarrow> (cb_table m)(a \<mapsto> callbacks c) = cb_table m"
  by (auto simp: cb_table_def)

lemma es_table_upd [simp]:
  "es_table (t(a := x)) = (es_table t)(a := map_option (\<lambda>e. (es_pcb e, state e = ES_NONE, retries e)) x)"
  by (auto simp: es_table_def)

lemma es_table_keep:
  "t a = Some e \<Longrightarrow> (es_pcb f, state f = ES_NONE, retries f) = (es_pcb e, state e = ES_NONE, retries e) \<Longrightarrow>
   (es_table t)(a \<mapsto> (es_pcb f, state f = ES_NONE, retries f)) = es_table t"
  by (auto simp: es_table_def)

lemma recved_keeps:
  assumes "tcp_recved (tcp_output_op E) (Some a) n m = Some m'" "stack_keeps E"
  shows "cb_table m' = cb_table m"
proof -
  from assms(1) obtain b w i c where b: "m a = Some b" "tcp_update_rcv_ann_wnd (b\<lparr>rcv_wnd := w\<rparr>) = Some (i, c)"
    and m': "m' = tcp_output_op E a (m(a \<mapsto> tcp_ack_now c)) \<or> m' = m(a \<mapsto> c)"
    by (auto simp: tcp_recved_def bind_eq_Some_conv split: if_splits)
  from b(2) have "callbacks c = callbacks b" "callbacks (tcp_ack_now c) = callbacks b"
    by (auto simp: tcp_update_rcv_ann_wnd_def Let_def callbacks_def tcp_ack_now_def bind_eq_Some_conv split: if_splits)
  then have "cb_table (m(a \<mapsto> c)) = cb_table m" "cb_table (m(a \<mapsto> tcp_ack_now c)) = cb_table m"
    using b(1) by (simp_all add: cb_table_keep)
  with m' assms(2) show ?thesis by (auto simp: stack_keeps_def)
qed

definition same_view :: "server \<Rightarrow> server \<Rightarrow> bool" where
  "same_view s s' \<longleftrightarrow> cb_table (pcbs s') = cb_table (pcbs s) \<and> es_table (ess s') = es_table (ess s)"

lemma same_view_refl [simp]: "same_view s s"
  by (simp add: same_view_def)

lemma same_view_trans: "same_view s t \<Longrightarrow> same_view t u \<Longrightarrow> same_view s u"
  by (simp add: same_view_def)

lemma chop_view:
  assumes "tcp_raw_chop E tpcb es ptr s = Some s'" "stack_keeps E"
  shows "same_view s s'"
  using assms recved_keeps
  by (fastforce simp: tcp_raw_chop_def Let_def bind_eq_Some_conv same_view_def es_table_keep)

lemma send_view:
  assumes "tcp_raw_send E tpcb es s = Some s'" "stack_keeps E"
  shows "same_view s s'"
proof -
  have "stack_keeps E \<longrightarrow> same_view s s'"
  proof (rule tcp_raw_send.raw_induct [where P = "\<lambda>E tpcb es s s'. stack_keeps E \<longrightarrow> same_view s s'", OF _ assms(1)],
      rule impI)
    fix send :: "tcp_env \<Rightarrow> nat \<Rightarrow> nat \<Rightarrow> server \<Rightarrow> server option" and E tpcb es s s'
    assume IH: "\<And>E tpcb es s s'. send E tpcb es s = Some s' \<Longrightarrow> stack_keeps E \<longrightarrow> same_view s s'"
      and E: "stack_keeps E"
    assume "(ess s es \<bind>
        (\<lambda>e. case es_p e of
           None \<Rightarrow> Some s
         | Some ptr \<Rightarrow> pbufs (heap s) ptr \<bind>
             (\<lambda>b. pcbs s tpcb \<bind>
               (\<lambda>c. if len b \<le> tcp_sndbuf c then
                  tcp_write_op E tpcb (len b) (payload_read b 0 (unat (len b))) (pcbs s) \<bind>
                  (\<lambda>(wr_err, m). if wr_err = ERR_OK then
                     tcp_raw_chop E tpcb es ptr (s\<lparr>pcbs := m\<rparr>) \<bind> send E tpcb es
                   else Some (s\<lparr>pcbs := m\<rparr>))
                 else Some s)))) = Some s'"
    with E consider "s' = s"
      | m where "s' = s\<lparr>pcbs := m\<rparr>" "cb_table m = cb_table (pcbs s)"
      | m ptr t where "cb_table m = cb_table (pcbs s)" "tcp_raw_chop E tpcb es ptr (s\<lparr>pcbs := m\<rparr>) = Some t"
          "send E tpcb es t = Some s'"
      unfolding stack_keeps_def
      by (auto simp: bind_eq_Some_conv split: option.splits if_splits) blast
    then show "same_view s s'"
    proof cases
      case (3 m ptr t)
      have "same_view (s\<lparr>pcbs := m\<rparr>) t" by (rule chop_view [OF 3(2) E])
      moreover have "same_view t s'" using IH [OF 3(3)] E by simp
      ultimately have "same_view (s\<lparr>pcbs := m\<rparr>) s'" by (rule same_view_trans)
      with 3(1) show ?thesis by (simp add: same_view_def)
    qed (simp_all add: same_view_def)
  qed
  with assms(2) show ?thesis by simp
qed

lemma do_action_view: "do_action nl es s = Some s' \<Longrightarrow> same_view s s'"
  by (auto simp: do_action_def Let_def bind_eq_Some_conv same_view_def)

lemma raw_free_view:
  assumes "tcp_raw_free (Some es) s = Some s'"
  shows "pcbs s' = pcbs s" "ess s' = (ess s)(es := None)"
  using assms by (auto simp: tcp_raw_free_def mem_free_es_def bind_eq_Some_conv split: option.splits)

text \<open>What a callback may do to the view: nothing, or detach the connection it was called for.\<close>

definition detached :: "nat \<Rightarrow> nat \<Rightarrow> server \<Rightarrow> server \<Rightarrow> bool" where
  "detached a es s s' \<longleftrightarrow> es_table (ess s') = (es_table (ess s))(es := None) \<and>
    cb_table (pcbs s') \<in> {(cb_table (pcbs s))(a := None), (cb_table (pcbs s))(a \<mapsto> no_callbacks)}"

lemma raw_close_view:
  assumes "tcp_raw_close E a (Some es) s = Some s'" "stack_keeps E"
  shows "detached a es s s'"
proof -
  from assms(1) obtain b t where b: "pcbs s a = Some b"
    and t: "tcp_raw_free (Some es)
      (s\<lparr>pcbs := (pcbs s)(a \<mapsto> b\<lparr>callback_arg := None, sent_fn := None, recv_fn := None, errf := None,
         poll_fn := None, pollinterval := 0\<rparr>)\<rparr>) = Some t"
    "s' = t\<lparr>pcbs := tcp_close_op E a (pcbs t)\<rparr>"
    by (auto simp: tcp_raw_close_def tcp_arg_def tcp_sent_def tcp_recv_def tcp_err_def tcp_poll_def bind_eq_Some_conv)
  have "cb_table (pcbs t) = (cb_table (pcbs s))(a \<mapsto> no_callbacks)"
    using raw_free_view(1) [OF t(1)] by (simp add: callbacks_def no_callbacks_def)
  moreover have "cb_table (tcp_close_op E a (pcbs t)) \<in> {cb_table (pcbs t), (cb_table (pcbs t))(a := None)}"
    using assms(2) by (simp add: stack_keeps_def)
  ultimately show ?thesis using raw_free_view(2) [OF t(1)] t(2) by (auto simp: detached_def)
qed

lemma detached_view: "same_view s t \<Longrightarrow> detached a es t u \<Longrightarrow> detached a es s u"
  by (simp add: same_view_def detached_def)

lemma state_view:
  "ess s es = Some e \<Longrightarrow> (es_pcb f, state f = ES_NONE, retries f) = (es_pcb e, state e = ES_NONE, retries e) \<Longrightarrow>
   same_view s (s\<lparr>ess := (ess s)(es \<mapsto> f)\<rparr>)"
  by (simp add: same_view_def es_table_keep)

lemma raw_recv_view:
  assumes "tcp_raw_recv nl E (Some es) a p err s = Some (r, s')" "stack_keeps E"
    and e: "ess s es = Some e" "state e \<noteq> ES_NONE"
  shows "same_view s s' \<or> detached a es s s'"
proof (cases p)
  case None
  let ?t = "s\<lparr>ess := (ess s)(es \<mapsto> e\<lparr>state := ES_CLOSING\<rparr>)\<rparr>"
  have v: "same_view s ?t" using e by (simp add: state_view)
  from assms(1) None e consider "tcp_raw_close E a (Some es) ?t = Some s'" | "tcp_raw_send E a es ?t = Some s'"
    by (auto simp: tcp_raw_recv_def Let_def bind_eq_Some_conv split: if_splits)
  then show ?thesis
  proof cases
    case 1
    with v assms(2) show ?thesis by (blast intro: raw_close_view detached_view)
  next
    case 2
    with v assms(2) show ?thesis by (blast intro: send_view same_view_trans)
  qed
next
  case (Some q)
  let ?t = "s\<lparr>ess := (ess s)(es \<mapsto> e\<lparr>state := ES_RECEIVED, es_p := p\<rparr>)\<rparr>"
  let ?u = "s\<lparr>ess := (ess s)(es \<mapsto> e\<lparr>es_p := p\<rparr>)\<rparr>"
  have v: "same_view s ?t" "same_view s ?u" using e by (simp_all add: state_view)
  have act: "same_view s s'" if "same_view s w" "do_action nl es w = Some x" "tcp_raw_send E a es x = Some s'" for w x
    using that assms(2) by (blast intro: do_action_view send_view same_view_trans)
  have rec: "same_view s (s\<lparr>pcbs := m, heap := h\<rparr>)" if "tcp_recved (tcp_output_op E) (Some a) n (pcbs s) = Some m" for m h n
    using recved_keeps [OF that assms(2)] by (simp add: same_view_def)
  have hp: "same_view s (s\<lparr>heap := h\<rparr>)" for h by (simp add: same_view_def)
  from assms(1) Some e show ?thesis
    unfolding tcp_raw_recv_def
    by (auto simp: bind_eq_Some_conv hp intro: act [OF v(1)] act [OF v(2)] rec split: if_splits option.splits)
qed

lemma raw_sent_view:
  assumes "tcp_raw_sent E (Some es) a s = Some (r, s')" "stack_keeps E" "sent_fn c = Some ''tcp_raw_sent''" "pcbs s a = Some c"
    and e: "ess s es = Some e" "retries e = 0"
  shows "same_view s s' \<or> detached a es s s'"
proof -
  let ?t = "s\<lparr>ess := (ess s)(es \<mapsto> e\<lparr>retries := 0\<rparr>)\<rparr>"
  have v: "same_view s ?t" using e by (simp add: state_view)
  have m: "cb_table ((pcbs s)(a \<mapsto> c\<lparr>sent_fn := Some ''tcp_raw_sent''\<rparr>)) = cb_table (pcbs s)"
    unfolding cb_table_upd using cb_table_keep [of "pcbs s" a c "c\<lparr>sent_fn := Some ''tcp_raw_sent''\<rparr>"] assms(3,4)
    by (simp add: callbacks_def)
  have d: "tcp_raw_sent E (Some es) a s =
      (if es_p e \<noteq> None then do {
         m \<leftarrow> tcp_sent (Some a) (Some ''tcp_raw_sent'') (pcbs s);
         s \<leftarrow> tcp_raw_send E a es (?t\<lparr>pcbs := m\<rparr>); Some (ERR_OK, s) }
       else if state e = ES_CLOSING then do { s \<leftarrow> tcp_raw_close E a (Some es) ?t; Some (ERR_OK, s) }
       else Some (ERR_OK, ?t))"
    using e by (simp add: tcp_raw_sent_def)
  from assms(1) consider "s' = ?t" | "tcp_raw_close E a (Some es) ?t = Some s'"
    | "tcp_raw_send E a es (?t\<lparr>pcbs := (pcbs s)(a \<mapsto> c\<lparr>sent_fn := Some ''tcp_raw_sent''\<rparr>)\<rparr>) = Some s'"
    using assms(4) unfolding d tcp_sent_def by (auto simp: bind_eq_Some_conv simp del: fun_upd_apply split: if_split_asm)
  then show ?thesis
  proof cases
    case 2
    with v assms(2) show ?thesis by (blast intro: raw_close_view detached_view)
  next
    case 3
    have "same_view s (?t\<lparr>pcbs := (pcbs s)(a \<mapsto> c\<lparr>sent_fn := Some ''tcp_raw_sent''\<rparr>)\<rparr>)"
      using v m by (simp add: same_view_def)
    then show ?thesis using send_view [OF 3 assms(2)] same_view_trans by blast
  qed (use v in simp)
qed

lemma raw_poll_view:
  assumes "tcp_raw_poll E (Some es) a s = Some (r, s')" "stack_keeps E"
  shows "same_view s s' \<or> detached a es s s'"
proof -
  from assms(1) consider "s' = s" | "tcp_raw_send E a es s = Some s'" | "tcp_raw_close E a (Some es) s = Some s'"
    by (auto simp: tcp_raw_poll_def bind_eq_Some_conv split: if_splits)
  then show ?thesis using assms(2) by cases (auto intro: send_view raw_close_view)
qed

lemma inv_view: "same_view s s' \<Longrightarrow> server_inv s \<Longrightarrow> server_inv s'"
  by (simp add: same_view_def server_inv_def)

lemma callbacks_distinct [simp]: "raw_callbacks es \<noteq> no_callbacks" "no_callbacks \<noteq> raw_callbacks es"
  "raw_callbacks es = raw_callbacks es' \<longleftrightarrow> es = es'"
  by (auto simp: raw_callbacks_def no_callbacks_def)

lemma table_inv_attached: "table_inv C V \<Longrightarrow> C a = Some (raw_callbacks es) \<Longrightarrow> V es = Some (a, False, 0)"
  unfolding table_inv_def by (metis callbacks_distinct(1,3))

lemma table_inv_detach:
  assumes "table_inv C V" "C a = Some (raw_callbacks es)" "x = None \<or> x = Some no_callbacks"
  shows "table_inv (C(a := x)) (V(es := None))"
  unfolding table_inv_def
proof (intro conjI allI impI)
  fix b t assume t: "(C(a := x)) b = Some t"
  show "t = no_callbacks \<or> (\<exists>es'. t = raw_callbacks es' \<and> (V(es := None)) es' = Some (b, False, 0))"
  proof (cases "b = a")
    case False
    then have cb: "C b = Some t" using t by simp
    show ?thesis
    proof (rule disjCI)
      assume "\<not> (\<exists>es'. t = raw_callbacks es' \<and> (V(es := None)) es' = Some (b, False, 0))"
      moreover have "es' \<noteq> es" if "t = raw_callbacks es'" "V es' = Some (b, False, 0)" for es'
        using that False table_inv_attached [OF assms(1,2)] by auto
      ultimately show "t = no_callbacks" using assms(1) cb unfolding table_inv_def by (metis fun_upd_other)
    qed
  qed (use t assms(3) in auto)
next
  fix e v assume v: "(V(es := None)) e = Some v"
  then have "e \<noteq> es" "V e = Some v" by (auto split: if_splits)
  with assms(1) obtain b where b: "v = (b, False, 0)" "C b = Some (raw_callbacks e)"
    unfolding table_inv_def by blast
  then have "b \<noteq> a" using assms(2) \<open>e \<noteq> es\<close> by auto
  with b show "\<exists>b. v = (b, False, 0) \<and> (C(a := x)) b = Some (raw_callbacks e)" by auto
qed

lemma table_inv_attach:
  assumes "table_inv C V" "C a = None" "V es = None"
  shows "table_inv (C(a \<mapsto> raw_callbacks es)) (V(es \<mapsto> (a, False, 0)))"
  unfolding table_inv_def
proof (intro conjI allI impI)
  fix b t assume t: "(C(a \<mapsto> raw_callbacks es)) b = Some t"
  show "t = no_callbacks \<or> (\<exists>es'. t = raw_callbacks es' \<and> (V(es \<mapsto> (a, False, 0))) es' = Some (b, False, 0))"
  proof (cases "b = a")
    case False
    with t have "C b = Some t" by simp
    with assms(1) have "t = no_callbacks \<or> (\<exists>es'. t = raw_callbacks es' \<and> V es' = Some (b, False, 0))"
      unfolding table_inv_def by blast
    with assms(3) show ?thesis by auto
  qed (use t in auto)
next
  fix e v assume v: "(V(es \<mapsto> (a, False, 0))) e = Some v"
  show "\<exists>b. v = (b, False, 0) \<and> (C(a \<mapsto> raw_callbacks es)) b = Some (raw_callbacks e)"
  proof (cases "e = es")
    case False
    with v have "V e = Some v" by simp
    with assms(1) obtain b where "v = (b, False, 0)" "C b = Some (raw_callbacks e)" unfolding table_inv_def by blast
    with assms(2) show ?thesis by (intro exI [of _ b]) auto
  qed (use v in auto)
qed

lemma table_inv_plain: "table_inv C V \<Longrightarrow> C a \<in> {None, Some no_callbacks} \<Longrightarrow> x \<in> {None, Some no_callbacks} \<Longrightarrow> table_inv (C(a := x)) V"
  unfolding table_inv_def by (auto split: if_splits; metis callbacks_distinct(1) option.distinct(1) option.inject)

lemma inv_detached:
  assumes "detached a es s s'" "server_inv s" "cb_table (pcbs s) a = Some (raw_callbacks es)"
  shows "server_inv s'"
  using assms table_inv_detach [of "cb_table (pcbs s)" "es_table (ess s)" a es]
  unfolding server_inv_def detached_def by auto

text \<open>The four effects a step can have on the tables.\<close>

definition step_effect :: "server \<Rightarrow> server \<Rightarrow> bool" where
  "step_effect s s' \<longleftrightarrow> same_view s s' \<or>
     (\<exists>a es. cb_table (pcbs s) a = Some (raw_callbacks es) \<and> detached a es s s') \<or>
     (\<exists>a x. cb_table (pcbs s) a \<in> {None, Some no_callbacks} \<and> x \<in> {None, Some no_callbacks} \<and>
        cb_table (pcbs s') = (cb_table (pcbs s))(a := x) \<and> es_table (ess s') = es_table (ess s)) \<or>
     (\<exists>a es. cb_table (pcbs s) a = None \<and> es_table (ess s) es = None \<and>
        cb_table (pcbs s') = (cb_table (pcbs s))(a \<mapsto> raw_callbacks es) \<and>
        es_table (ess s') = (es_table (ess s))(es \<mapsto> (a, False, 0)))"

lemma pcb_cases:
  assumes "server_inv s" "pcbs s a = Some c"
  obtains "cb_table (pcbs s) a = Some no_callbacks" "callback_arg c = None" "sent_fn c = None" "recv_fn c = None"
    "poll_fn c = None" "errf c = None"
  | es e where "cb_table (pcbs s) a = Some (raw_callbacks es)" "callback_arg c = Some es"
    "sent_fn c = Some ''tcp_raw_sent''" "recv_fn c = Some ''tcp_raw_recv''" "poll_fn c = Some ''tcp_raw_poll''"
    "errf c = Some ''tcp_raw_error''" "ess s es = Some e" "state e \<noteq> ES_NONE" "retries e = 0"
proof -
  have t: "cb_table (pcbs s) a = Some (callbacks c)" using assms(2) by (simp add: cb_table_def)
  with assms(1) consider "callbacks c = no_callbacks"
    | es where "callbacks c = raw_callbacks es" "es_table (ess s) es = Some (a, False, 0)"
    unfolding server_inv_def table_inv_def by blast
  then show ?thesis
  proof cases
    case 1
    then show ?thesis using that(1) t by (simp add: callbacks_def no_callbacks_def)
  next
    case (2 es)
    then obtain e where "ess s es = Some e" "state e \<noteq> ES_NONE" "retries e = 0" by (auto simp: es_table_def)
    with 2 show ?thesis using that(2) [of es e] t unfolding callbacks_def raw_callbacks_def by (simp only: prod.inject simp_thms)
  qed
qed

lemma recv_effect:
  assumes "TCP_EVENT_RECV nl E a p err s = Some (r, s')" "server_inv s" "stack_keeps E"
  shows "step_effect s s'"
proof -
  obtain c where c: "pcbs s a = Some c" using assms(1) by (auto simp: TCP_EVENT_RECV_def bind_eq_Some_conv)
  from assms(2) c show ?thesis
  proof (cases rule: pcb_cases)
    case 1
    then have n: "tcp_recv_null E a p err s = Some (r, s')" using assms(1) c by (simp add: TCP_EVENT_RECV_def)
    have k: "cb_table (tcp_close_op E a (pcbs s)) \<in> {cb_table (pcbs s), (cb_table (pcbs s))(a := None)}"
      using assms(3) by (simp add: stack_keeps_def)
    consider m h k where "tcp_recved (tcp_output_op E) (Some a) k (pcbs s) = Some m" "s' = s\<lparr>pcbs := m, heap := h\<rparr>"
      | "s' = s" | "s' = s\<lparr>pcbs := tcp_close_op E a (pcbs s)\<rparr>"
    proof (cases p)
      case None
      with n show ?thesis using that(2,3) by (simp add: tcp_recv_null_def split: if_split_asm)
    next
      case (Some q)
      with n that(1) show ?thesis by (auto simp: tcp_recv_null_def bind_eq_Some_conv)
    qed
    then show ?thesis
    proof cases
      case (1 m h k)
      then have "same_view s s'" using recved_keeps assms(3) by (simp add: same_view_def)
      then show ?thesis by (simp add: step_effect_def)
    next
      case 2
      then show ?thesis by (simp add: step_effect_def)
    next
      case 3
      then show ?thesis using k \<open>cb_table (pcbs s) a = Some no_callbacks\<close>
        unfolding step_effect_def same_view_def by (elim insertE) auto
    qed
  next
    case (2 es e)
    then have "tcp_raw_recv nl E (Some es) a p err s = Some (r, s')" using assms(1) c by (simp add: TCP_EVENT_RECV_def)
    from raw_recv_view [OF this assms(3) 2(7,8)] 2(1) show ?thesis by (auto simp: step_effect_def)
  qed
qed

lemma closed_effect:
  assumes "TCP_EVENT_CLOSED nl E a s = Some (r, s')" "server_inv s" "stack_keeps E"
  shows "step_effect s s'"
proof -
  obtain c where c: "pcbs s a = Some c" using assms(1) by (auto simp: TCP_EVENT_CLOSED_def bind_eq_Some_conv)
  from assms(2) c show ?thesis
  proof (cases rule: pcb_cases)
    case 1
    then show ?thesis using assms(1) c by (simp add: TCP_EVENT_CLOSED_def step_effect_def)
  next
    case (2 es e)
    then have "tcp_raw_recv nl E (Some es) a None ERR_OK s = Some (r, s')" using assms(1) c by (simp add: TCP_EVENT_CLOSED_def)
    from raw_recv_view [OF this assms(3) 2(7,8)] 2(1) show ?thesis by (auto simp: step_effect_def)
  qed
qed

lemma sent_effect:
  assumes "TCP_EVENT_SENT E a s = Some (r, s')" "server_inv s" "stack_keeps E"
  shows "step_effect s s'"
proof -
  obtain c where c: "pcbs s a = Some c" using assms(1) by (auto simp: TCP_EVENT_SENT_def bind_eq_Some_conv)
  from assms(2) c show ?thesis
  proof (cases rule: pcb_cases)
    case 1
    then show ?thesis using assms(1) c by (simp add: TCP_EVENT_SENT_def step_effect_def)
  next
    case (2 es e)
    then have "tcp_raw_sent E (Some es) a s = Some (r, s')" using assms(1) c by (simp add: TCP_EVENT_SENT_def)
    from raw_sent_view [OF this assms(3) 2(3) c 2(7,9)] 2(1) show ?thesis by (auto simp: step_effect_def)
  qed
qed

lemma poll_effect:
  assumes "TCP_EVENT_POLL E a s = Some (r, s')" "server_inv s" "stack_keeps E"
  shows "step_effect s s'"
proof -
  obtain c where c: "pcbs s a = Some c" using assms(1) by (auto simp: TCP_EVENT_POLL_def bind_eq_Some_conv)
  from assms(2) c show ?thesis
  proof (cases rule: pcb_cases)
    case 1
    then show ?thesis using assms(1) c by (simp add: TCP_EVENT_POLL_def step_effect_def)
  next
    case (2 es e)
    then have "tcp_raw_poll E (Some es) a s = Some (r, s')" using assms(1) c by (simp add: TCP_EVENT_POLL_def)
    from raw_poll_view [OF this assms(3)] 2(1) show ?thesis by (auto simp: step_effect_def)
  qed
qed

lemma err_effect:
  assumes "TCP_EVENT_ERR (errf c) (callback_arg c) (s\<lparr>pcbs := (pcbs s)(a := None)\<rparr>) = Some s'" "server_inv s"
    "pcbs s a = Some c"
  shows "step_effect s s'"
  using assms(2,3)
proof (cases rule: pcb_cases)
  case 1
  then have "s' = s\<lparr>pcbs := (pcbs s)(a := None)\<rparr>" using assms(1) by (simp add: TCP_EVENT_ERR_def)
  with 1(1) show ?thesis unfolding step_effect_def by auto
next
  case (2 es e)
  then have f: "tcp_raw_free (Some es) (s\<lparr>pcbs := (pcbs s)(a := None)\<rparr>) = Some s'"
    using assms(1) by (simp add: TCP_EVENT_ERR_def tcp_raw_error_def)
  have "detached a es s s'" using raw_free_view [OF f] by (simp add: detached_def)
  with 2(1) show ?thesis by (auto simp: step_effect_def)
qed

lemma accept_effect:
  assumes "pcbs s a = None" "callbacks c = no_callbacks"
    and "tcp_raw_accept malloc None (Some a) ERR_OK (s\<lparr>pcbs := (pcbs s)(a \<mapsto> c)\<rparr>) = Some (r, s')"
    and "s'' = (if r = ERR_OK then s' else s'\<lparr>pcbs := (pcbs s')(a := None)\<rparr>)"
    and fresh: "\<And>s es. malloc s = Some es \<Longrightarrow> ess s es = None"
  shows "step_effect s s''"
proof (cases "malloc (s\<lparr>pcbs := (pcbs s)(a \<mapsto> c)\<rparr>)")
  case None
  then have "s' = s\<lparr>pcbs := (pcbs s)(a \<mapsto> c\<lparr>prio := TCP_PRIO_MIN\<rparr>)\<rparr>" "r = ERR_MEM"
    using assms(3) by (auto simp: tcp_raw_accept_def tcp_setprio_def)
  then have "same_view s s''" using assms(1,4) by (auto simp: same_view_def cb_table_def)
  then show ?thesis by (simp add: step_effect_def)
next
  case (Some es)
  let ?c = "c\<lparr>prio := TCP_PRIO_MIN, callback_arg := Some es, recv_fn := Some ''tcp_raw_recv'',
    errf := Some ''tcp_raw_error'', poll_fn := Some ''tcp_raw_poll'', pollinterval := 0, sent_fn := Some ''tcp_raw_sent''\<rparr>"
  have "ess s es = None" using fresh [OF Some] by simp
  moreover have "s' = s\<lparr>pcbs := (pcbs s)(a \<mapsto> ?c),
      ess := (ess s)(es \<mapsto> \<lparr>state = ES_ACCEPTED, retries = 0, es_pcb = a, es_p = None\<rparr>)\<rparr>" "r = ERR_OK"
    using assms(3) Some
    by (auto simp: tcp_raw_accept_def tcp_setprio_def tcp_arg_def tcp_recv_def tcp_err_def tcp_poll_def
        tcp_sent_def bind_eq_Some_conv)
  ultimately have "cb_table (pcbs s) a = None \<and> es_table (ess s) es = None \<and>
        cb_table (pcbs s'') = (cb_table (pcbs s))(a \<mapsto> raw_callbacks es) \<and>
        es_table (ess s'') = (es_table (ess s))(es \<mapsto> (a, False, 0))"
    using assms(1,4) by (simp add: callbacks_def raw_callbacks_def) (simp add: cb_table_def es_table_def)
  then show ?thesis unfolding step_effect_def by blast
qed

lemma step_has_effect:
  assumes "server_step nl E malloc s s'" "server_inv s" "stack_keeps E"
    and fresh: "\<And>s es. malloc s = Some es \<Longrightarrow> ess s es = None"
  shows "step_effect s s'"
  using assms(1)
proof cases
  case (accepted a c r t)
  then show ?thesis using accept_effect [OF accepted(1,2,3,4) fresh] by simp
next
  case (removed a)
  then show ?thesis unfolding step_effect_def by auto
next
  case (stack m h)
  then show ?thesis by (simp add: step_effect_def same_view_def)
qed (use assms(2,3) in \<open>auto intro: recv_effect closed_effect sent_effect poll_effect err_effect\<close>)

lemma effect_inv: "step_effect s s' \<Longrightarrow> server_inv s \<Longrightarrow> server_inv s'"
  unfolding step_effect_def
proof (elim disjE exE conjE)
  fix a es assume "server_inv s" "cb_table (pcbs s) a = None" "es_table (ess s) es = None"
    "cb_table (pcbs s') = (cb_table (pcbs s))(a \<mapsto> raw_callbacks es)"
    "es_table (ess s') = (es_table (ess s))(es \<mapsto> (a, False, 0))"
  then show "server_inv s'" unfolding server_inv_def by (simp only: table_inv_attach)
qed (simp_all add: inv_view inv_detached, simp add: server_inv_def table_inv_plain)

lemma reach_inv:
  assumes "server_reach nl E malloc s" "stack_keeps E"
    and fresh: "\<And>s es. malloc s = Some es \<Longrightarrow> ess s es = None"
  shows "server_inv s"
  using assms(1)
proof induction
  case (start s)
  then have "es_table (ess s) = (\<lambda>_. None)" by (simp add: es_table_def fun_eq_iff)
  with start show ?case unfolding server_inv_def table_inv_def by simp
next
  case (step s s')
  then show ?case using step_has_effect [OF step(2,3) assms(2) fresh] effect_inv by simp
qed

text \<open>C24: no dangling callback argument and no leaked connection. In every state the server can
  reach, over any sequence of connections, packets, acknowledgements, polls, closes and failures:
  the argument of every control block with an argument is a live connection structure that names
  that control block and is in a proper state, and all callbacks are registered; and every live
  connection structure is the argument of the control block it names.\<close>

theorem server_no_dangling:
  assumes "server_reach nl E malloc s" "stack_keeps E"
    and "\<And>s es. malloc s = Some es \<Longrightarrow> ess s es = None"
  shows "(\<forall>a c es. pcbs s a = Some c \<and> callback_arg c = Some es \<longrightarrow>
      callbacks c = raw_callbacks es \<and> (\<exists>e. ess s es = Some e \<and> es_pcb e = a \<and> state e \<noteq> ES_NONE \<and> retries e = 0)) \<and>
    (\<forall>es e. ess s es = Some e \<longrightarrow> (\<exists>c. pcbs s (es_pcb e) = Some c \<and> callback_arg c = Some es))"
proof (intro conjI allI impI)
  note inv = reach_inv [OF assms]
  fix a c es assume c: "pcbs s a = Some c \<and> callback_arg c = Some es"
  then have t: "cb_table (pcbs s) a = Some (callbacks c)" "callbacks c \<noteq> no_callbacks"
    by (simp_all add: cb_table_def callbacks_def no_callbacks_def)
  then obtain es' where "callbacks c = raw_callbacks es'" using inv unfolding server_inv_def table_inv_def by blast
  with c have r: "callbacks c = raw_callbacks es" by (simp add: callbacks_def raw_callbacks_def)
  with t table_inv_attached [of "cb_table (pcbs s)" "es_table (ess s)" a es] inv
  have "es_table (ess s) es = Some (a, False, 0)" by (simp add: server_inv_def)
  with r show "callbacks c = raw_callbacks es"
    "\<exists>e. ess s es = Some e \<and> es_pcb e = a \<and> state e \<noteq> ES_NONE \<and> retries e = 0" by (auto simp: es_table_def)
next
  note inv = reach_inv [OF assms]
  fix es e assume e: "ess s es = Some e"
  then have "es_table (ess s) es = Some (es_pcb e, state e = ES_NONE, retries e)" by (simp add: es_table_def)
  with inv have "cb_table (pcbs s) (es_pcb e) = Some (raw_callbacks es)"
    unfolding server_inv_def table_inv_def by blast
  then show "\<exists>c. pcbs s (es_pcb e) = Some c \<and> callback_arg c = Some es"
    by (auto simp: cb_table_def callbacks_def raw_callbacks_def)
qed

text \<open>The abstract server: a table from control blocks to connections.\<close>

definition conns :: "server \<Rightarrow> nat \<rightharpoonup> nat" where
  "conns s a = Option.bind (pcbs s a) callback_arg"

inductive conn_step :: "(nat \<rightharpoonup> nat) \<Rightarrow> (nat \<rightharpoonup> nat) \<Rightarrow> bool" where
  conn_idle: "conn_step t t"
| conn_open: "t a = None \<Longrightarrow> es \<notin> ran t \<Longrightarrow> conn_step t (t(a \<mapsto> es))"
| conn_close: "t a = Some es \<Longrightarrow> conn_step t (t(a := None))"

lemma conns_table: "conns s a = Option.bind (cb_table (pcbs s) a) fst"
  by (cases "pcbs s a") (simp_all add: conns_def cb_table_def callbacks_def)

lemma conns_upd:
  "cb_table (pcbs s') = (cb_table (pcbs s))(a := x) \<Longrightarrow> conns s' = (conns s)(a := Option.bind x fst)"
  by (auto simp: conns_table fun_eq_iff)

lemma fst_callbacks [simp]: "fst (raw_callbacks es) = Some es" "fst no_callbacks = None"
  by (simp_all add: raw_callbacks_def no_callbacks_def)

lemma conns_Some: "conns s a = Some es \<Longrightarrow> \<exists>t. cb_table (pcbs s) a = Some t \<and> fst t = Some es"
  by (cases "cb_table (pcbs s) a") (simp_all add: conns_table)

lemma table_inv_arg:
  assumes "table_inv C V" "C b = Some t" "fst t = Some es"
  shows "t = raw_callbacks es"
proof -
  from assms(1,2) have "t = no_callbacks \<or> (\<exists>es'. t = raw_callbacks es')" unfolding table_inv_def by blast
  with assms(3) show ?thesis by auto
qed

lemma effect_conn_step:
  assumes "step_effect s s'" "server_inv s"
  shows "conn_step (conns s) (conns s')"
  using assms(1) unfolding step_effect_def
proof (elim disjE exE conjE)
  assume "same_view s s'"
  then have "conns s' = conns s" by (simp add: fun_eq_iff conns_table same_view_def)
  then show ?thesis by (simp add: conn_idle)
next
  fix a es assume c: "cb_table (pcbs s) a = Some (raw_callbacks es)" and d: "detached a es s s'"
  then have "conns s' = (conns s)(a := None)"
    using conns_upd [of s' s a None] conns_upd [of s' s a "Some no_callbacks"]
    by (auto simp: detached_def no_callbacks_def)
  moreover have "conns s a = Some es" using c by (simp add: conns_table raw_callbacks_def)
  ultimately show ?thesis using conn_close by metis
next
  fix a x assume c: "cb_table (pcbs s) a \<in> {None, Some no_callbacks}" "x \<in> {None, Some no_callbacks}"
    "cb_table (pcbs s') = (cb_table (pcbs s))(a := x)"
  then have "conns s' = (conns s)(a := None)" using conns_upd [OF c(3)] by (auto simp: no_callbacks_def)
  moreover have "conns s a = None" using c(1) by (auto simp: conns_table no_callbacks_def)
  ultimately have "conns s' = conns s" by auto
  then show ?thesis by (simp add: conn_idle)
next
  fix a es assume c: "cb_table (pcbs s) a = None" "es_table (ess s) es = None"
    "cb_table (pcbs s') = (cb_table (pcbs s))(a \<mapsto> raw_callbacks es)"
  have "es \<notin> ran (conns s)"
  proof
    assume "es \<in> ran (conns s)"
    then obtain b where "conns s b = Some es" unfolding ran_def by blast
    then obtain t where t: "cb_table (pcbs s) b = Some t" "fst t = Some es" using conns_Some by blast
    have "t = raw_callbacks es"
      by (rule table_inv_arg [of "cb_table (pcbs s)" "es_table (ess s)" b]) (use t assms(2) in \<open>simp_all add: server_inv_def\<close>)
    with t table_inv_attached [of "cb_table (pcbs s)" "es_table (ess s)" b es] assms(2) c(2) show False
      by (simp add: server_inv_def)
  qed
  moreover have "conns s a = None" using c(1) by (simp add: conns_table)
  ultimately show ?thesis using conns_upd [OF c(3)] conn_open [of "conns s" a es] by simp
qed

text \<open>C25: the server implements a table of connections. Every step of a reachable server is a step
  of the table (open a connection on a free control block with an unused structure, close one, or
  nothing), and the structures allocated are exactly the entries of the table.\<close>

theorem server_refines_connections:
  assumes "server_reach nl E malloc s" "server_step nl E malloc s s'" "stack_keeps E"
    and "\<And>s es. malloc s = Some es \<Longrightarrow> ess s es = None"
  shows "conn_step (conns s) (conns s') \<and> dom (ess s') = ran (conns s')"
proof
  have inv: "server_inv s" by (rule reach_inv [OF assms(1,3,4)])
  show "conn_step (conns s) (conns s')"
    by (rule effect_conn_step [OF step_has_effect [OF assms(2) inv assms(3,4)] inv])
  have inv': "table_inv (cb_table (pcbs s')) (es_table (ess s'))"
    using effect_inv [OF step_has_effect [OF assms(2) inv assms(3,4)] inv] by (simp add: server_inv_def)
  have 1: "ess s' es \<noteq> None \<longleftrightarrow> es_table (ess s') es \<noteq> None" for es by (simp add: es_table_def)
  have 2: "es_table (ess s') es \<noteq> None \<longleftrightarrow> (\<exists>a. cb_table (pcbs s') a = Some (raw_callbacks es))" for es
    using inv' table_inv_attached [OF inv'] unfolding table_inv_def by blast
  have 3: "(\<exists>a. cb_table (pcbs s') a = Some (raw_callbacks es)) \<longleftrightarrow> (\<exists>a. conns s' a = Some es)" for es
  proof
    assume "\<exists>a. cb_table (pcbs s') a = Some (raw_callbacks es)"
    then obtain a where "cb_table (pcbs s') a = Some (raw_callbacks es)" by blast
    then have "conns s' a = Some es" by (simp add: conns_table)
    then show "\<exists>a. conns s' a = Some es" by blast
  next
    assume "\<exists>a. conns s' a = Some es"
    then obtain a where "conns s' a = Some es" by blast
    from conns_Some [OF this] obtain t where "cb_table (pcbs s') a = Some t" "fst t = Some es" by blast
    with table_inv_arg [OF inv'] show "\<exists>a. cb_table (pcbs s') a = Some (raw_callbacks es)" by metis
  qed
  show "dom (ess s') = ran (conns s')" by (simp only: dom_def ran_def 1 2 3)
qed

definition example_start :: server where
  "example_start = (example_server 0 0)\<lparr>ess := (\<lambda>_. None), pcbs := (\<lambda>_. None)\<rparr>"

definition example_malloc :: "server \<Rightarrow> nat option" where
  "example_malloc s = (if ess s 5 = None then Some 5 else None)"

lemma example_stack_keeps: "stack_keeps example_env"
proof -
  have w: "cb_table m' = cb_table m" if "tcp_write_op example_env a n ds m = Some (r, m')" for a n ds m r m'
  proof -
    from that obtain c ds' where "m a = Some c" "m' = m(a \<mapsto> c\<lparr>snd_queue := snd_queue c @ ds',
        snd_buf := snd_buf c - of_nat (length ds')\<rparr>)"
      by (auto simp: example_env_def bind_eq_Some_conv)
    then show ?thesis by (simp add: cb_table_keep callbacks_def) (auto simp: cb_table_def callbacks_def)
  qed
  have "tcp_output_op example_env a m = m" "tcp_close_op example_env a m = m(a := None)"
    "tcp_abort_op example_env a m = m(a := None)" for a m by (simp_all add: example_env_def)
  with w show ?thesis unfolding stack_keeps_def by simp
qed

lemma example_fresh: "example_malloc s = Some es \<Longrightarrow> ess s es = None"
  by (auto simp: example_malloc_def split: if_splits)

lemma example_accept:
  obtains s c where "server_reach nl example_env example_malloc example_start"
    "server_step nl example_env example_malloc example_start s" "pcbs s 7 = Some c" "callback_arg c = Some 5"
proof -
  obtain s c where s: "tcp_raw_accept example_malloc None (Some 7) ERR_OK
      (example_start\<lparr>pcbs := (pcbs example_start)(7 \<mapsto> example_pcb)\<rparr>) = Some (ERR_OK, s)"
    "pcbs s 7 = Some c" "callback_arg c = Some 5"
    by (simp add: tcp_raw_accept_def tcp_setprio_def tcp_arg_def tcp_recv_def tcp_err_def tcp_poll_def
        tcp_sent_def example_malloc_def example_start_def example_pcb_def)
  have "server_reach nl example_env example_malloc example_start"
    by (rule server_reach.start) (simp_all add: example_start_def cb_table_def)
  moreover have "server_step nl example_env example_malloc example_start s"
    by (rule server_step.accepted [OF _ _ s(1)]) (simp_all add: example_start_def callbacks_def no_callbacks_def example_pcb_def)
  ultimately show ?thesis using that s(2,3) by blast
qed

theorem server_no_dangling_witness:
  "\<exists>s c. server_reach (\<lambda>_. NL_fail) example_env example_malloc s \<and> pcbs s 7 = Some c \<and> callback_arg c = Some 5 \<and>
     callbacks c = raw_callbacks 5 \<and> (\<exists>e. ess s 5 = Some e \<and> es_pcb e = 7)"
proof -
  obtain s c where s: "server_reach (\<lambda>_. NL_fail) example_env example_malloc example_start"
    "server_step (\<lambda>_. NL_fail) example_env example_malloc example_start s" "pcbs s 7 = Some c" "callback_arg c = Some 5"
    by (rule example_accept)
  have r: "server_reach (\<lambda>_. NL_fail) example_env example_malloc s" by (rule server_reach.step [OF s(1,2)])
  from server_no_dangling [OF r example_stack_keeps example_fresh] s(3,4)
  have "callbacks c = raw_callbacks 5 \<and> (\<exists>e. ess s 5 = Some e \<and> es_pcb e = 7)" by blast
  with r s(3,4) show ?thesis by blast
qed

theorem server_refines_connections_witness:
  "\<exists>s. server_step (\<lambda>_. NL_fail) example_env example_malloc example_start s \<and> conns s 7 = Some 5 \<and>
     conn_step (conns example_start) (conns s) \<and> 5 \<in> dom (ess s)"
proof -
  obtain s c where s: "server_reach (\<lambda>_. NL_fail) example_env example_malloc example_start"
    "server_step (\<lambda>_. NL_fail) example_env example_malloc example_start s" "pcbs s 7 = Some c" "callback_arg c = Some 5"
    by (rule example_accept)
  have c: "conns s 7 = Some 5" using s(3,4) by (simp add: conns_def)
  then have "5 \<in> ran (conns s)" by (rule ranI)
  with server_refines_connections [OF s(1,2) example_stack_keeps example_fresh] s(2) c show ?thesis by blast
qed

end
