(* ===== verification/Timeouts.thy ===== *)
theory Timeouts
  imports Prelude "HOL-Library.Multiset"
begin

text \<open>
  The timers of lwIP, \<^verbatim>\<open>lwip/src/core/timeouts.c\<close> in the configuration of the server
  (\<^verbatim>\<open>NO_SYS\<close>, with the TCP, IP reassembly and ARP timers). The timers form a linked list in which
  each element holds the time after the one before it; the list is a HOL list here. The handlers
  that the timers call (\<^verbatim>\<open>tcp_tmr\<close>, \<^verbatim>\<open>ip_reass_tmr\<close>, \<^verbatim>\<open>etharp_tmr\<close>) and
  \<^verbatim>\<open>pbuf_free_ooseq\<close> are parameters: functions on the rest of the stack, the field \<open>world\<close>.
  The clock \<open>sys_now\<close> belongs to the platform: the field \<open>clock\<close> holds what its calls return, in
  order, and the field \<open>reads\<close> counts the calls, so that two calls may return different times and
  handlers may take any time. \<open>None\<close> is a failed assertion, a call of an unknown handler, or a loop
  that does not end.
\<close>

section \<open>Data\<close>

record sys_timeo =
  time :: u32
  timeo_h :: "string option"
  harg :: nat

record 'w timers =
  next_timeout :: "sys_timeo list"
  timeouts_last_time :: u32
  tcpip_tcp_timer_active :: bool
  timeo_free :: nat
  clock :: "nat \<Rightarrow> u32"
  reads :: nat
  world :: 'w

definition TCP_TMR_INTERVAL :: u32 where "TCP_TMR_INTERVAL = 250"
definition IP_TMR_INTERVAL :: u32 where "IP_TMR_INTERVAL = 1000"
definition ARP_TMR_INTERVAL :: u32 where "ARP_TMR_INTERVAL = 1000"
definition MEMP_NUM_SYS_TIMEOUT :: nat where "MEMP_NUM_SYS_TIMEOUT = 4"

text \<open>The handlers of the stack and whether TCP has active or waiting control blocks.\<close>

record 'w timer_env =
  tcp_tmr :: "'w \<Rightarrow> 'w"
  ip_reass_tmr :: "'w \<Rightarrow> 'w"
  etharp_tmr_op :: "'w \<Rightarrow> 'w"
  tcp_pcbs_exist :: "'w \<Rightarrow> bool"
  pbuf_check_free_ooseq :: "'w \<Rightarrow> 'w"

text \<open>The table of cyclic timers: the interval and the handler.\<close>

definition lwip_cyclic_timers :: "'w timer_env \<Rightarrow> (u32 \<times> ('w \<Rightarrow> 'w)) list" where
  "lwip_cyclic_timers E =
     [(TCP_TMR_INTERVAL, tcp_tmr E), (IP_TMR_INTERVAL, ip_reass_tmr E), (ARP_TMR_INTERVAL, etharp_tmr_op E)]"

text \<open>Reading the clock.\<close>

definition sys_now :: "'w timers \<Rightarrow> u32 \<times> 'w timers" where
  "sys_now s = (clock s (reads s), s\<lparr>reads := Suc (reads s)\<rparr>)"

section \<open>Starting and stopping timers\<close>

text \<open>
  The loop that looks for the place of a timer that does not come first; \<open>first\<close> is the time of the
  head of the list.
\<close>

fun timeo_insert :: "u32 \<Rightarrow> u32 \<Rightarrow> sys_timeo \<Rightarrow> sys_timeo list \<Rightarrow> sys_timeo list" where
  "timeo_insert msecs first timeout [] = []"
| "timeo_insert msecs first timeout (t # ts) =
     (let timeout = timeout\<lparr>time := time timeout - time t\<rparr>
      in case ts of
          [] \<Rightarrow> [t, if msecs < time timeout then timeout\<lparr>time := msecs + first\<rparr> else timeout]
        | n # ns \<Rightarrow>
            if time timeout < time n then t # timeout # n\<lparr>time := time n - time timeout\<rparr> # ns
            else t # timeo_insert msecs first timeout ts)"

definition sys_timeout :: "u32 \<Rightarrow> string option \<Rightarrow> nat \<Rightarrow> 'w timers \<Rightarrow> 'w timers option" where
  "sys_timeout msecs handler arg s =
     (if timeo_free s = 0 then None
      else let s = s\<lparr>timeo_free := timeo_free s - 1\<rparr>;
               (now, s) = sys_now s;
               diff = (if next_timeout s = [] then 0 else now - timeouts_last_time s);
               s = (if next_timeout s = [] then s\<lparr>timeouts_last_time := now\<rparr> else s);
               timeout = \<lparr>time = msecs + diff, timeo_h = handler, harg = arg\<rparr>
           in case next_timeout s of
               [] \<Rightarrow> Some (s\<lparr>next_timeout := [timeout]\<rparr>)
             | t # ts \<Rightarrow>
                 if msecs < time t
                 then Some (s\<lparr>next_timeout := timeout # t\<lparr>time := time t - msecs\<rparr> # ts\<rparr>)
                 else Some (s\<lparr>next_timeout := timeo_insert msecs (time t) timeout (t # ts)\<rparr>))"

text \<open>Removing the first timer with the handler and the argument; \<open>None\<close> when there is none.\<close>

fun timeo_remove :: "string option \<Rightarrow> nat \<Rightarrow> sys_timeo list \<Rightarrow> sys_timeo list option" where
  "timeo_remove handler arg [] = None"
| "timeo_remove handler arg (t # ts) =
     (if timeo_h t = handler \<and> harg t = arg
      then Some (case ts of [] \<Rightarrow> [] | n # ns \<Rightarrow> n\<lparr>time := time n + time t\<rparr> # ns)
      else map_option (Cons t) (timeo_remove handler arg ts))"

definition sys_untimeout :: "string option \<Rightarrow> nat \<Rightarrow> 'w timers \<Rightarrow> 'w timers" where
  "sys_untimeout handler arg s =
     (case timeo_remove handler arg (next_timeout s) of
        None \<Rightarrow> s
      | Some ts \<Rightarrow> s\<lparr>next_timeout := ts, timeo_free := timeo_free s + 1\<rparr>)"

section \<open>The timers of the stack\<close>

definition tcpip_tcp_timer :: "'w timer_env \<Rightarrow> 'w timers \<Rightarrow> 'w timers option" where
  "tcpip_tcp_timer E s =
     (let s = s\<lparr>world := tcp_tmr E (world s)\<rparr>
      in if tcp_pcbs_exist E (world s) then sys_timeout TCP_TMR_INTERVAL (Some ''tcpip_tcp_timer'') 0 s
         else Some (s\<lparr>tcpip_tcp_timer_active := False\<rparr>))"

definition tcp_timer_needed :: "'w timer_env \<Rightarrow> 'w timers \<Rightarrow> 'w timers option" where
  "tcp_timer_needed E s =
     (if \<not> tcpip_tcp_timer_active s \<and> tcp_pcbs_exist E (world s)
      then sys_timeout TCP_TMR_INTERVAL (Some ''tcpip_tcp_timer'') 0 (s\<lparr>tcpip_tcp_timer_active := True\<rparr>)
      else Some s)"

text \<open>The argument of a cyclic timer is its index in the table.\<close>

definition cyclic_timer :: "'w timer_env \<Rightarrow> nat \<Rightarrow> 'w timers \<Rightarrow> 'w timers option" where
  "cyclic_timer E arg s =
     (if arg < length (lwip_cyclic_timers E) then
        let (interval_ms, handler) = lwip_cyclic_timers E ! arg
        in sys_timeout interval_ms (Some ''cyclic_timer'') arg (s\<lparr>world := handler (world s)\<rparr>)
      else None)"

fun start_cyclic :: "'w timer_env \<Rightarrow> nat list \<Rightarrow> 'w timers \<Rightarrow> 'w timers option" where
  "start_cyclic E [] s = Some s"
| "start_cyclic E (i # is) s = do {
     s \<leftarrow> sys_timeout (fst (lwip_cyclic_timers E ! i)) (Some ''cyclic_timer'') i s;
     start_cyclic E is s
   }"

definition sys_timeouts_init :: "'w timer_env \<Rightarrow> 'w timers \<Rightarrow> 'w timers option" where
  "sys_timeouts_init E s = do {
     s \<leftarrow> start_cyclic E [1..<length (lwip_cyclic_timers E)] s;
     let (now, s) = sys_now s in Some (s\<lparr>timeouts_last_time := now\<rparr>)
   }"

section \<open>Running timers\<close>

definition call_handler :: "'w timer_env \<Rightarrow> string option \<Rightarrow> nat \<Rightarrow> 'w timers \<Rightarrow> 'w timers option" where
  "call_handler E handler arg s =
     (case handler of
        None \<Rightarrow> Some s
      | Some f \<Rightarrow>
          if f = ''tcpip_tcp_timer'' then tcpip_tcp_timer E s
          else if f = ''cyclic_timer'' then cyclic_timer E arg s
          else None)"

partial_function (option) check_loop :: "'w timer_env \<Rightarrow> u32 \<Rightarrow> 'w timers \<Rightarrow> 'w timers option" where
  "check_loop E diff s =
     (let s = s\<lparr>world := pbuf_check_free_ooseq E (world s)\<rparr>
      in case next_timeout s of
          [] \<Rightarrow> Some s
        | t # ts \<Rightarrow>
            if time t \<le> diff then do {
              s' \<leftarrow> call_handler E (timeo_h t) (harg t)
                (s\<lparr>timeouts_last_time := timeouts_last_time s + time t, next_timeout := ts,
                   timeo_free := timeo_free s + 1\<rparr>);
              check_loop E (diff - time t) s'
            }
            else Some s)"

definition sys_check_timeouts :: "'w timer_env \<Rightarrow> 'w timers \<Rightarrow> 'w timers option" where
  "sys_check_timeouts E s =
     (if next_timeout s \<noteq> []
      then let (now, s) = sys_now s in check_loop E (now - timeouts_last_time s) s
      else Some s)"

definition sys_restart_timeouts :: "'w timers \<Rightarrow> 'w timers" where
  "sys_restart_timeouts s = (let (now, s) = sys_now s in s\<lparr>timeouts_last_time := now\<rparr>)"

definition sys_timeouts_sleeptime :: "'w timers \<Rightarrow> u32 \<times> 'w timers" where
  "sys_timeouts_sleeptime s =
     (case next_timeout s of
        [] \<Rightarrow> (0xffffffff, s)
      | t # _ \<Rightarrow>
          let (now, s) = sys_now s; diff = now - timeouts_last_time s
          in (if time t < diff then 0 else time t - diff, s))"

section \<open>Due times\<close>

text \<open>The times at which the timers are due, counted from \<^verbatim>\<open>timeouts_last_time\<close>.\<close>

fun dues :: "sys_timeo list \<Rightarrow> nat list" where
  "dues [] = []"
| "dues (t # ts) = unat (time t) # map ((+) (unat (time t))) (dues ts)"

lemma dues_empty [simp]: "dues ts = [] \<longleftrightarrow> ts = []"
  by (cases ts) auto

lemma dues_ge: "d \<in> set (dues (t # ts)) \<Longrightarrow> unat (time t) \<le> d"
  by auto

lemma map_add_takeWhile:
  "takeWhile (\<lambda>d. d \<le> k + n) (map ((+) k) ds) = map ((+) k) (takeWhile (\<lambda>d. d \<le> n) ds)"
  "dropWhile (\<lambda>d. d \<le> k + n) (map ((+) k) ds) = map ((+) k) (dropWhile (\<lambda>d. d \<le> n) ds)" for k n :: nat
  by (induction ds) auto

lemma last_dues: "ts \<noteq> [] \<Longrightarrow> last (dues (t # ts)) = unat (time t) + last (dues ts)"
  by (simp add: last_map)

text \<open>Inserting a timer behind the head.\<close>

lemma dues_timeo_insert:
  assumes "ts \<noteq> []" "time (hd ts) \<le> time timeout"
    and "unat (time timeout) \<le> last (dues ts) + unat msecs \<or> unat msecs + unat first < 2 ^ 32"
  shows "dues (timeo_insert msecs first timeout ts) =
    (if unat (time timeout) \<le> last (dues ts) + unat msecs
     then takeWhile (\<lambda>d. d \<le> unat (time timeout)) (dues ts) @ unat (time timeout) #
          dropWhile (\<lambda>d. d \<le> unat (time timeout)) (dues ts)
     else dues ts @ [last (dues ts) + unat msecs + unat first])"
  using assms
proof (induction msecs first timeout ts rule: timeo_insert.induct)
  case (2 msecs first timeout t ts)
  let ?n = "time timeout - time t"
  have le: "unat (time t) \<le> unat (time timeout)" using 2(3) by (simp add: word_le_nat_alt)
  have n: "unat ?n = unat (time timeout) - unat (time t)" using 2(3) by (simp add: unat_sub)
  show ?case
  proof (cases ts)
    case Nil
    show ?thesis
    proof (cases "unat (time timeout) \<le> unat (time t) + unat msecs")
      case True
      then have "\<not> msecs < ?n" using n by (simp add: word_less_nat_alt)
      then show ?thesis using Nil le n True by simp
    next
      case False
      then have "msecs < ?n" using n by (simp add: word_less_nat_alt)
      moreover have "unat (msecs + first) = unat msecs + unat first"
        using 2(4) False Nil by (intro unat_add_u32) auto
      ultimately show ?thesis using Nil le n False by simp
    qed
  next
    case (Cons m ms)
    have l: "last (dues (t # ts)) = unat (time t) + last (dues ts)" using Cons last_dues by blast
    have dm: "\<not> d \<le> unat ?n" if "d \<in> set (dues ts)" "?n < time m" for d
      using that dues_ge [of d m ms] Cons by (auto simp: word_less_nat_alt)
    show ?thesis
    proof (cases "?n < time m")
      case True
      have le': "unat (time timeout) \<le> last (dues (t # ts)) + unat msecs"
      proof -
        have "last (dues ts) \<in> set (dues ts)" using Cons by (intro last_in_set) simp
        then show ?thesis using dm True n le l by fastforce
      qed
      have tw: "takeWhile (\<lambda>d. d \<le> unat (time timeout)) (dues (t # ts)) = [unat (time t)]"
        "dropWhile (\<lambda>d. d \<le> unat (time timeout)) (dues (t # ts)) = map ((+) (unat (time t))) (dues ts)"
      proof -
        have t: "unat (time timeout) = unat (time t) + unat ?n" using n le by simp
        have "takeWhile (\<lambda>d. d \<le> unat ?n) (dues ts) = []" "dropWhile (\<lambda>d. d \<le> unat ?n) (dues ts) = dues ts"
          using dm True Cons by (auto simp: takeWhile_eq_Nil_iff dropWhile_eq_self_iff)
        then show "takeWhile (\<lambda>d. d \<le> unat (time timeout)) (dues (t # ts)) = [unat (time t)]"
          "dropWhile (\<lambda>d. d \<le> unat (time timeout)) (dues (t # ts)) = map ((+) (unat (time t))) (dues ts)"
          unfolding t dues.simps by (simp_all add: map_add_takeWhile)
      qed
      have mm: "unat (time m - ?n) = unat (time m) - unat ?n" using True by (simp add: unat_sub less_imp_le)
      have ge: "unat ?n \<le> unat (time m)" using True by (simp add: word_less_nat_alt)
      have "dues (timeo_insert msecs first timeout (t # ts)) =
          unat (time t) # unat (time timeout) # map ((+) (unat (time t))) (dues ts)"
        using Cons True n le mm ge by (auto simp: comp_def)
      then show ?thesis unfolding tw if_P [OF le'] by simp
    next
      case False
      let ?t = "timeout\<lparr>time := ?n\<rparr>"
      have step: "timeo_insert msecs first timeout (t # ts) = t # timeo_insert msecs first ?t ts"
        using Cons False by (simp add: Let_def)
      have iff: "unat (time ?t) \<le> last (dues ts) + unat msecs \<longleftrightarrow> unat (time timeout) \<le> last (dues (t # ts)) + unat msecs"
        unfolding l using n le by auto
      have IH: "dues (timeo_insert msecs first ?t ts) =
          (if unat (time ?t) \<le> last (dues ts) + unat msecs
           then takeWhile (\<lambda>d. d \<le> unat (time ?t)) (dues ts) @ unat (time ?t) # dropWhile (\<lambda>d. d \<le> unat (time ?t)) (dues ts)
           else dues ts @ [last (dues ts) + unat msecs + unat first])"
        by (rule "2.IH" [OF refl Cons]) (use False Cons 2(4) iff in auto)
      have t: "unat (time timeout) = unat (time t) + unat (time ?t)" using n le by simp
      show ?thesis
        unfolding step dues.simps(2) [of t "timeo_insert msecs first ?t ts"] IH iff l unfolding t dues.simps(2)
        by (simp add: map_add_takeWhile del: sys_timeo.select_convs)
    qed
  qed
qed simp

text \<open>C40: where a new timer goes. With the list not empty, let \<open>D\<close> be the time since
  \<^verbatim>\<open>timeouts_last_time\<close> and the due times be counted from there. A timer that comes before the head is
  due \<open>msecs\<close> from now, but all timers behind it are put off by \<open>D\<close>; a timer that comes later is due
  \<open>msecs\<close> from now and no other timer moves; if the last timer is already overdue, the new one is put
  \<open>msecs\<close> plus the time of the head after it.\<close>

theorem sys_timeout_due_times:
  assumes "timeo_free s \<noteq> 0" "next_timeout s = t # ts"
  defines "D \<equiv> unat (fst (sys_now s) - timeouts_last_time s)" and "ds \<equiv> dues (t # ts)"
  assumes "unat msecs + D < 2 ^ 32" "unat msecs + unat (time t) < 2 ^ 32"
  shows "\<exists>s'. sys_timeout msecs handler arg s = Some s' \<and> timeouts_last_time s' = timeouts_last_time s \<and>
    dues (next_timeout s') =
      (if unat msecs < unat (time t) then (unat msecs + D) # map ((+) D) ds
       else if D \<le> last ds then takeWhile (\<lambda>d. d \<le> unat msecs + D) ds @ (unat msecs + D) # dropWhile (\<lambda>d. d \<le> unat msecs + D) ds
       else ds @ [last ds + unat msecs + unat (time t)])"
proof -
  let ?n = "\<lparr>time = msecs + (fst (sys_now s) - timeouts_last_time s), timeo_h = handler, harg = arg\<rparr>"
  have n: "unat (time ?n) = unat msecs + D" unfolding D_def using assms(5) D_def by (simp add: unat_add_u32)
  show ?thesis
  proof (cases "msecs < time t")
    case True
    then have "unat (time t - msecs) = unat (time t) - unat msecs" "unat msecs < unat (time t)"
      by (simp_all add: unat_sub less_imp_le word_less_nat_alt)
    then show ?thesis using True assms(1,2) n by (auto simp: sys_timeout_def sys_now_def Let_def ds_def)
  next
    case False
    then have f: "\<not> unat msecs < unat (time t)" "unat (time t) \<le> unat msecs" by (simp_all add: word_less_nat_alt)
    have "dues (timeo_insert msecs (time t) ?n (t # ts)) =
      (if unat (time ?n) \<le> last (dues (t # ts)) + unat msecs
       then takeWhile (\<lambda>d. d \<le> unat (time ?n)) (dues (t # ts)) @ unat (time ?n) # dropWhile (\<lambda>d. d \<le> unat (time ?n)) (dues (t # ts))
       else dues (t # ts) @ [last (dues (t # ts)) + unat msecs + unat (time t)])"
      by (rule dues_timeo_insert) (use f n assms(6) in \<open>simp_all add: word_le_nat_alt del: dues.simps\<close>)
    then show ?thesis using False f assms(1,2) unfolding n ds_def
      by (simp add: sys_timeout_def sys_now_def Let_def del: dues.simps)
  qed
qed

definition example_timers :: "nat timers" where
  "example_timers =
     \<lparr>next_timeout = [\<lparr>time = 500, timeo_h = Some ''cyclic_timer'', harg = 1\<rparr>, \<lparr>time = 300, timeo_h = Some ''cyclic_timer'', harg = 2\<rparr>],
      timeouts_last_time = 1000, tcpip_tcp_timer_active = False, timeo_free = 2, clock = (\<lambda>i. 1100 + 7 * of_nat i), reads = 0, world = 0\<rparr>"

theorem sys_timeout_due_times_witness:
  "dues (next_timeout example_timers) = [500, 800] \<and>
   (\<exists>s'. sys_timeout 250 None 0 example_timers = Some s' \<and> dues (next_timeout s') = [350, 600, 900])"
proof
  show "dues (next_timeout example_timers) = [500, 800]" by (simp add: example_timers_def)
  have e: "next_timeout example_timers = \<lparr>time = 500, timeo_h = Some ''cyclic_timer'', harg = 1\<rparr> #
      [\<lparr>time = 300, timeo_h = Some ''cyclic_timer'', harg = 2\<rparr>]"
    and f: "timeo_free example_timers \<noteq> 0" "unat (fst (sys_now example_timers) - timeouts_last_time example_timers) = 100"
    by (simp_all add: example_timers_def sys_now_def)
  show "\<exists>s'. sys_timeout 250 None 0 example_timers = Some s' \<and> dues (next_timeout s') = [350, 600, 900]"
    using sys_timeout_due_times [OF f(1) e, of 250 None 0] unfolding f(2) by auto
qed

section \<open>The set of timers\<close>

definition timeo_key :: "sys_timeo \<Rightarrow> string option \<times> nat" where
  "timeo_key t = (timeo_h t, harg t)"

definition timer_keys :: "'w timers \<Rightarrow> (string option \<times> nat) multiset" where
  "timer_keys s = mset (map timeo_key (next_timeout s))"

text \<open>The timers that run: the two cyclic ones and, while TCP needs it, the TCP timer.\<close>

definition running :: "bool \<Rightarrow> (string option \<times> nat) multiset" where
  "running active = {#(Some ''cyclic_timer'', 1), (Some ''cyclic_timer'', 2)#} +
     (if active then {#(Some ''tcpip_tcp_timer'', 0)#} else {#})"

definition pool_sound :: "'w timers \<Rightarrow> bool" where
  "pool_sound s \<longleftrightarrow> timeo_free s + length (next_timeout s) = MEMP_NUM_SYS_TIMEOUT"

definition timer_inv :: "'w timers \<Rightarrow> bool" where
  "timer_inv s \<longleftrightarrow> timer_keys s = running (tcpip_tcp_timer_active s) \<and> pool_sound s"

text \<open>The number of timers due at once.\<close>

definition zeros :: "sys_timeo list \<Rightarrow> nat" where
  "zeros ts = length (takeWhile (\<lambda>t. time t = 0) ts)"

lemma keys_timeo_insert:
  "ts \<noteq> [] \<Longrightarrow> mset (map timeo_key (timeo_insert msecs first timeout ts)) =
     add_mset (timeo_key timeout) (mset (map timeo_key ts)) \<and>
   length (timeo_insert msecs first timeout ts) = Suc (length ts)"
proof (induction msecs first timeout ts rule: timeo_insert.induct)
  case (2 msecs first timeout t ts)
  then show ?case by (cases ts) (auto simp: timeo_key_def Let_def)
qed simp

lemma zeros_timeo_insert:
  "ts \<noteq> [] \<Longrightarrow> time timeout \<noteq> 0 \<Longrightarrow> msecs \<noteq> 0 \<Longrightarrow> first = 0 \<or> time (hd ts) \<noteq> 0 \<Longrightarrow>
   zeros (timeo_insert msecs first timeout ts) \<le> zeros ts"
proof (induction msecs first timeout ts rule: timeo_insert.induct)
  case (2 msecs first timeout t ts)
  show ?case
  proof (cases "time t = 0")
    case True
    then have first: "first = 0" using 2 by simp
    show ?thesis
    proof (cases ts)
      case Nil
      then show ?thesis using True 2 first by (simp add: zeros_def)
    next
      case (Cons n ns)
      show ?thesis
      proof (cases "time timeout < time n")
        case lt: True
        then show ?thesis using Cons True 2 by (simp add: zeros_def)
      next
        case False
        then show ?thesis using "2.IH" [OF refl Cons] Cons True 2 first by (simp add: zeros_def)
      qed
    qed
  next
    case False
    then show ?thesis by (cases ts) (auto simp: zeros_def Let_def)
  qed
qed simp

lemma sys_timeout_step:
  fixes s :: "'w timers"
  assumes "timeo_free s \<noteq> 0" "next_timeout s \<noteq> []" "pool_sound s"
  shows "\<exists>s'. sys_timeout msecs handler arg s = Some s' \<and> timer_keys s' = add_mset (handler, arg) (timer_keys s) \<and>
    pool_sound s' \<and> tcpip_tcp_timer_active s' = tcpip_tcp_timer_active s \<and> clock s' = clock s \<and> reads s' = Suc (reads s) \<and>
    timeouts_last_time s' = timeouts_last_time s \<and>
    (msecs \<noteq> 0 \<and> unat msecs + unat (clock s (reads s) - timeouts_last_time s) < 2 ^ 32 \<longrightarrow>
     zeros (next_timeout s') \<le> zeros (next_timeout s))"
proof -
  obtain t ts where ts: "next_timeout s = t # ts" using assms(2) by (cases "next_timeout s") auto
  let ?d = "clock s (reads s) - timeouts_last_time s"
  let ?n = "\<lparr>time = msecs + ?d, timeo_h = handler, harg = arg\<rparr>"
  let ?l = "if msecs < time t then ?n # t\<lparr>time := time t - msecs\<rparr> # ts else timeo_insert msecs (time t) ?n (t # ts)"
  have e: "sys_timeout msecs handler arg s =
      Some (s\<lparr>timeo_free := timeo_free s - 1, reads := Suc (reads s), next_timeout := ?l\<rparr>)"
    using assms(1) ts by (simp add: sys_timeout_def sys_now_def Let_def)
  have "mset (map timeo_key ?l) = add_mset (handler, arg) (timer_keys s)" "length ?l = Suc (length (t # ts))"
    using keys_timeo_insert [of "t # ts" msecs "time t" ?n] ts
    by (simp_all add: timer_keys_def timeo_key_def del: timeo_insert.simps)
  moreover have "zeros ?l \<le> zeros (t # ts)" if m: "msecs \<noteq> 0" "unat msecs + unat ?d < 2 ^ 32"
  proof -
    have "unat (msecs + ?d) = unat msecs + unat ?d" using m(2) by (intro unat_add_u32) simp
    moreover have "0 < unat msecs" using m(1) by (simp add: unat_gt_0)
    ultimately have nz: "msecs + ?d \<noteq> 0" by (metis add_is_0 less_numeral_extra(3) unat_eq_0)
    have "zeros (timeo_insert msecs (time t) ?n (t # ts)) \<le> zeros (t # ts)"
      by (rule zeros_timeo_insert) (use nz m(1) in simp_all)
    moreover have "zeros (?n # xs) = 0" for xs using nz by (simp add: zeros_def)
    ultimately show ?thesis by (simp del: timeo_insert.simps)
  qed
  ultimately show ?thesis using assms(1,3) e ts by (simp add: timer_keys_def pool_sound_def)
qed

text \<open>A handler restarts its timer, or for TCP may stop it; it reads the clock at most once.\<close>

lemma call_handler_step:
  fixes s :: "'w timers"
  assumes k: "add_mset (hd', arg) (timer_keys s) = running (tcpip_tcp_timer_active s)" and p: "pool_sound s"
  shows "\<exists>s'. call_handler E hd' arg s = Some s' \<and> timer_inv s' \<and> clock s' = clock s \<and>
    reads s \<le> reads s' \<and> reads s' \<le> Suc (reads s) \<and> timeouts_last_time s' = timeouts_last_time s \<and>
    (unat (clock s (reads s) - timeouts_last_time s) + 1000 < 2 ^ 32 \<longrightarrow>
     zeros (next_timeout s') \<le> zeros (next_timeout s))"
proof -
  have size: "Suc (length (next_timeout s)) = size (running (tcpip_tcp_timer_active s))"
    using arg_cong [OF k, of size] by (simp add: timer_keys_def)
  have ne: "next_timeout s \<noteq> []" and free: "timeo_free s \<noteq> 0"
    using size p by (auto simp: running_def pool_sound_def MEMP_NUM_SYS_TIMEOUT_def split: if_splits)
  have mem: "(hd', arg) \<in># running (tcpip_tcp_timer_active s)" using k by (metis union_single_eq_member add_mset_add_single union_commute)
  have keep: "timer_keys (s\<lparr>world := w, tcpip_tcp_timer_active := a\<rparr>) = timer_keys s"
    "pool_sound (s\<lparr>world := w, tcpip_tcp_timer_active := a\<rparr>) = pool_sound s"
    "timer_keys (s\<lparr>world := w\<rparr>) = timer_keys s" "pool_sound (s\<lparr>world := w\<rparr>) = pool_sound s" for w a
    by (simp_all add: timer_keys_def pool_sound_def)
  have again: "\<exists>s'. sys_timeout msecs hd' arg (s\<lparr>world := w\<rparr>) = Some s' \<and> timer_inv s' \<and> clock s' = clock s \<and>
      reads s' = Suc (reads s) \<and> timeouts_last_time s' = timeouts_last_time s \<and>
      (unat (clock s (reads s) - timeouts_last_time s) + 1000 < 2 ^ 32 \<longrightarrow>
       zeros (next_timeout s') \<le> zeros (next_timeout s))"
    if m: "msecs \<noteq> 0" "unat msecs \<le> 1000" for msecs w
  proof -
    obtain s' where s': "sys_timeout msecs hd' arg (s\<lparr>world := w\<rparr>) = Some s'"
      "timer_keys s' = add_mset (hd', arg) (timer_keys s)" "pool_sound s'"
      "tcpip_tcp_timer_active s' = tcpip_tcp_timer_active s" "clock s' = clock s" "reads s' = Suc (reads s)"
      "timeouts_last_time s' = timeouts_last_time s"
      "unat msecs + unat (clock s (reads s) - timeouts_last_time s) < 2 ^ 32 \<longrightarrow> zeros (next_timeout s') \<le> zeros (next_timeout s)"
      using sys_timeout_step [of "s\<lparr>world := w\<rparr>" msecs hd' arg] ne free m(1) p keep by auto
    have "zeros (next_timeout s') \<le> zeros (next_timeout s)" if "unat (clock s (reads s) - timeouts_last_time s) + 1000 < 2 ^ 32"
      using s'(8) m(2) that by linarith
    with s' k show ?thesis by (auto simp: timer_inv_def)
  qed
  consider "hd' = Some ''cyclic_timer''" "arg = 1 \<or> arg = 2"
    | "hd' = Some ''tcpip_tcp_timer''" "arg = 0" "tcpip_tcp_timer_active s"
    using mem by (auto simp: running_def split: if_splits)
  then show ?thesis
  proof cases
    case 1
    then obtain w where "call_handler E hd' arg s = sys_timeout 1000 hd' arg (s\<lparr>world := w\<rparr>)"
      by (auto simp: call_handler_def cyclic_timer_def lwip_cyclic_timers_def IP_TMR_INTERVAL_def ARP_TMR_INTERVAL_def)
    then show ?thesis using again [of 1000 w] by auto
  next
    case 2
    let ?w = "tcp_tmr E (world s)"
    show ?thesis
    proof (cases "tcp_pcbs_exist E ?w")
      case True
      then have "call_handler E hd' arg s = sys_timeout 250 hd' arg (s\<lparr>world := ?w\<rparr>)"
        using 2 by (simp add: call_handler_def tcpip_tcp_timer_def TCP_TMR_INTERVAL_def)
      then show ?thesis using again [of 250 ?w] by auto
    next
      case False
      then have "call_handler E hd' arg s = Some (s\<lparr>world := ?w, tcpip_tcp_timer_active := False\<rparr>)"
        using 2 by (simp add: call_handler_def tcpip_tcp_timer_def)
      moreover have "timer_keys s = running False" using k 2 by (auto simp: running_def add_mset_commute)
      ultimately show ?thesis using p keep by (simp add: timer_inv_def)
    qed
  qed
qed

text \<open>
  The clock while a check runs: it does not fall behind the time read at its start, and the check
  ends less than 49 days after \<^verbatim>\<open>timeouts_last_time\<close>, as far as the readings that the check can make
  are concerned. \<open>n\<close> is their number.
\<close>

definition clock_within :: "u32 \<Rightarrow> nat \<Rightarrow> 'w timers \<Rightarrow> bool" where
  "clock_within diff n s \<longleftrightarrow>
     (\<forall>i<n. unat diff \<le> unat (clock s (reads s + i) - timeouts_last_time s) \<and>
            unat (clock s (reads s + i) - timeouts_last_time s) + 1000 < 2 ^ 32)"

definition check_reads :: "'w timers \<Rightarrow> nat" where
  "check_reads s = 4 * (unat (fst (sys_now s) - timeouts_last_time s) + 1)"

lemma clock_within_step:
  assumes "clock_within diff n s" "tt \<le> diff" "m < n" "clock s' = clock s" "timeouts_last_time s' = timeouts_last_time s + tt"
    "reads s \<le> reads s'" "reads s' \<le> Suc (reads s)"
  shows "clock_within (diff - tt) m s'"
  unfolding clock_within_def
proof (intro allI impI)
  fix i assume i: "i < m"
  define j where "j = reads s' - reads s + i"
  have j: "j < n" "reads s' + i = reads s + j" using i assms(3,6,7) by (auto simp: j_def)
  let ?c = "clock s (reads s + j) - timeouts_last_time s"
  have c: "unat diff \<le> unat ?c" "unat ?c + 1000 < 2 ^ 32" using assms(1) j(1) by (auto simp: clock_within_def)
  have tt: "unat tt \<le> unat diff" using assms(2) by (simp add: word_le_nat_alt)
  have e: "clock s' (reads s' + i) - timeouts_last_time s' = ?c - tt" unfolding j(2) assms(4,5) by (simp add: algebra_simps)
  have "unat (?c - tt) = unat ?c - unat tt" "unat (diff - tt) = unat diff - unat tt"
    using tt c(1) by (simp_all add: unat_sub word_le_nat_alt)
  then show "unat (diff - tt) \<le> unat (clock s' (reads s' + i) - timeouts_last_time s') \<and>
      unat (clock s' (reads s' + i) - timeouts_last_time s') + 1000 < 2 ^ 32"
    unfolding e using c by linarith
qed

lemma timer_inv_length: "timer_inv s \<Longrightarrow> next_timeout s \<noteq> [] \<and> length (next_timeout s) \<le> 3"
proof -
  assume "timer_inv s"
  then have "size (timer_keys s) = size (running (tcpip_tcp_timer_active s))" by (simp add: timer_inv_def)
  then show ?thesis by (auto simp: timer_keys_def running_def split: if_splits)
qed

lemma zeros_le: "zeros ts \<le> length ts"
  by (simp add: zeros_def length_takeWhile_le)

text \<open>Taking the first timer off the list and calling its handler.\<close>

definition pop_timer :: "'w timer_env \<Rightarrow> sys_timeo \<Rightarrow> sys_timeo list \<Rightarrow> 'w timers \<Rightarrow> 'w timers" where
  "pop_timer E t ts s = s\<lparr>world := pbuf_check_free_ooseq E (world s), timeouts_last_time := timeouts_last_time s + time t,
     next_timeout := ts, timeo_free := timeo_free s + 1\<rparr>"

lemma pop_timer_step:
  assumes "timer_inv s" "next_timeout s = t # ts"
  shows "\<exists>s'. call_handler E (timeo_h t) (harg t) (pop_timer E t ts s) = Some s' \<and> timer_inv s' \<and> clock s' = clock s \<and>
    reads s \<le> reads s' \<and> reads s' \<le> Suc (reads s) \<and> timeouts_last_time s' = timeouts_last_time s + time t \<and>
    (unat (clock s (reads s) - (timeouts_last_time s + time t)) + 1000 < 2 ^ 32 \<longrightarrow> zeros (next_timeout s') \<le> zeros ts)"
proof -
  let ?s = "pop_timer E t ts s"
  have "add_mset (timeo_h t, harg t) (timer_keys ?s) = running (tcpip_tcp_timer_active ?s)" "pool_sound ?s"
    using assms by (simp_all add: timer_inv_def timer_keys_def timeo_key_def pool_sound_def pop_timer_def)
  from call_handler_step [OF this, of E] show ?thesis by (simp add: pop_timer_def)
qed

text \<open>The loop ends: each round uses up a part of \<open>diff\<close>, or one of the timers due at once.\<close>

lemma check_loop_returns:
  fixes s :: "'w timers"
  assumes "timer_inv s" "clock_within diff (4 * unat diff + zeros (next_timeout s)) s"
  shows "\<exists>s'. check_loop E diff s = Some s' \<and> timer_inv s' \<and> clock s' = clock s \<and>
    reads s' \<le> reads s + (4 * unat diff + zeros (next_timeout s)) \<and>
    diff + timeouts_last_time s - timeouts_last_time s' < time (hd (next_timeout s'))"
  using assms
proof (induction "4 * unat diff + zeros (next_timeout s)" arbitrary: s diff rule: less_induct)
  case less
  obtain t ts where ts: "next_timeout s = t # ts" using timer_inv_length [OF less(2)] by (cases "next_timeout s") auto
  show ?case
  proof (cases "time t \<le> diff")
    case False
    let ?s = "s\<lparr>world := pbuf_check_free_ooseq E (world s)\<rparr>"
    have "check_loop E diff s = Some ?s" using ts False by (subst check_loop.simps) simp
    moreover have "timer_inv ?s" using less(2) by (simp add: timer_inv_def timer_keys_def pool_sound_def)
    ultimately show ?thesis using False ts by simp
  next
    case True
    obtain s' where s': "call_handler E (timeo_h t) (harg t) (pop_timer E t ts s) = Some s'" "timer_inv s'" "clock s' = clock s"
      "reads s \<le> reads s'" "reads s' \<le> Suc (reads s)" "timeouts_last_time s' = timeouts_last_time s + time t"
      "unat (clock s (reads s) - (timeouts_last_time s + time t)) + 1000 < 2 ^ 32 \<longrightarrow> zeros (next_timeout s') \<le> zeros ts"
      using pop_timer_step [OF less(2) ts, of E] by blast
    let ?n = "4 * unat diff + zeros (next_timeout s)" and ?m = "4 * unat (diff - time t) + zeros (next_timeout s')"
    have u: "unat (diff - time t) = unat diff - unat (time t)" using True by (simp add: unat_sub)
    have le: "unat (time t) \<le> unat diff" using True by (simp add: word_le_nat_alt)
    have pos: "?m < ?n"
    proof (cases "time t = 0")
      case z: True
      then have n: "zeros (next_timeout s) = Suc (zeros ts)" using ts by (simp add: zeros_def)
      then have "unat (clock s (reads s + 0) - timeouts_last_time s) + 1000 < 2 ^ 32"
        using less(3) unfolding clock_within_def by (metis add_Suc_right zero_less_Suc)
      with s'(7) z n show ?thesis by simp
    next
      case False
      then have "0 < unat (time t)" by (simp add: unat_gt_0)
      moreover have "zeros (next_timeout s') \<le> 3"
        using timer_inv_length [OF s'(2)] zeros_le [of "next_timeout s'"] by simp
      ultimately show ?thesis using u le by linarith
    qed
    have "check_loop E diff s = check_loop E (diff - time t) s'"
      using True ts s'(1) by (subst check_loop.simps) (simp add: pop_timer_def)
    moreover have "clock_within (diff - time t) ?m s'" by (rule clock_within_step [OF less(3) True pos s'(3,6,4,5)])
    note IH = less(1) [OF pos s'(2) this]
    ultimately show ?thesis using IH s'(3,5,6) pos by (auto simp: algebra_simps)
  qed
qed

lemma sys_check_timeouts_ok:
  fixes s :: "'w timers"
  defines "now \<equiv> fst (sys_now s)"
  assumes "timer_inv s" "clock_within (now - timeouts_last_time s) (check_reads s) s"
  shows "\<exists>s'. sys_check_timeouts E s = Some s' \<and> timer_inv s' \<and> reads s' \<le> reads s + check_reads s \<and>
    now - timeouts_last_time s' < time (hd (next_timeout s'))"
proof -
  let ?d = "now - timeouts_last_time s" and ?s = "snd (sys_now s)"
  have ne: "next_timeout s \<noteq> []" "zeros (next_timeout s) \<le> 3"
    using timer_inv_length [OF assms(2)] zeros_le [of "next_timeout s"] by simp_all
  let ?n = "4 * unat ?d + zeros (next_timeout ?s)"
  have n: "?n < check_reads s" using ne(2) by (simp add: check_reads_def now_def sys_now_def)
  have "timer_inv ?s" using assms(2) by (simp add: sys_now_def timer_inv_def timer_keys_def pool_sound_def)
  moreover have "clock_within (?d - 0) ?n ?s"
    by (rule clock_within_step [OF assms(3) _ n]) (simp_all add: sys_now_def)
  ultimately have "\<exists>s'. check_loop E ?d ?s = Some s' \<and> timer_inv s' \<and> clock s' = clock ?s \<and>
      reads s' \<le> reads ?s + ?n \<and> ?d + timeouts_last_time ?s - timeouts_last_time s' < time (hd (next_timeout s'))"
    by (intro check_loop_returns) simp_all
  moreover have "sys_check_timeouts E s = check_loop E ?d ?s" using ne(1) by (simp add: sys_check_timeouts_def now_def sys_now_def)
  ultimately show ?thesis using n by (auto simp: sys_now_def)
qed

text \<open>C38: the main loop cannot hang in the timers. Let the timers of the stack run, and let the
  readings of the clock from the one \<open>now\<close> that starts the check on lie not before it and less than
  49 days after \<^verbatim>\<open>timeouts_last_time\<close>; a handler may take any time within that. Then
  \<open>sys_check_timeouts\<close> returns, although every handler starts its timer again and handlers run as long
  as a timer is due: with \<open>D\<close> milliseconds from \<^verbatim>\<open>timeouts_last_time\<close> to \<open>now\<close>, it reads the clock at
  most \<open>4 * (D + 1)\<close> times, once for itself and once for each timer it restarts; the timers of the
  stack are running again; and the first of them is due after \<open>now\<close>.\<close>

theorem sys_check_timeouts_returns:
  fixes s :: "'w timers"
  defines "now \<equiv> fst (sys_now s)"
  defines "N \<equiv> 4 * (unat (now - timeouts_last_time s) + 1)"
  assumes "timer_inv s"
    "\<forall>i<N. unat (now - timeouts_last_time s) \<le> unat (clock s (reads s + i) - timeouts_last_time s) \<and>
       unat (clock s (reads s + i) - timeouts_last_time s) + 1000 < 2 ^ 32"
  shows "\<exists>s'. sys_check_timeouts E s = Some s' \<and> timer_inv s' \<and> reads s' \<le> reads s + N \<and>
    (\<exists>t ts. next_timeout s' = t # ts \<and> now - timeouts_last_time s' < time t)"
proof -
  have "N = check_reads s" by (simp add: N_def check_reads_def now_def)
  then have "clock_within (now - timeouts_last_time s) (check_reads s) s" using assms(4) by (simp add: clock_within_def)
  with sys_check_timeouts_ok [OF assms(3), of E] \<open>N = check_reads s\<close>
  obtain s' where s': "sys_check_timeouts E s = Some s'" "timer_inv s'" "reads s' \<le> reads s + N"
    "now - timeouts_last_time s' < time (hd (next_timeout s'))" by (auto simp: now_def)
  moreover have "\<exists>t ts. next_timeout s' = t # ts" using timer_inv_length [OF s'(2)] by (cases "next_timeout s'") auto
  ultimately show ?thesis by fastforce
qed

definition example_timer_env :: "nat timer_env" where
  "example_timer_env = \<lparr>tcp_tmr = Suc, ip_reass_tmr = Suc, etharp_tmr_op = Suc, tcp_pcbs_exist = (\<lambda>w. w < 10),
     pbuf_check_free_ooseq = (\<lambda>w. w)\<rparr>"

text \<open>Eight seconds after the last check, with a clock that goes on by seven milliseconds from one
  reading to the next.\<close>

definition late_timers :: "nat timers" where
  "late_timers = example_timers\<lparr>clock := (\<lambda>i. 9000 + 7 * of_nat i)\<rparr>"

lemma late_timers_ok:
  "timer_inv late_timers" "fst (sys_now late_timers) = 9000" "timeouts_last_time late_timers = 1000"
  by (simp_all add: timer_inv_def timer_keys_def timeo_key_def running_def pool_sound_def MEMP_NUM_SYS_TIMEOUT_def
      late_timers_def example_timers_def sys_now_def)

lemma late_timers_clock:
  assumes "i < 32004"
  shows "unat (clock late_timers (reads late_timers + i) - timeouts_last_time late_timers) = 8000 + 7 * i"
proof -
  have "clock late_timers (reads late_timers + i) - timeouts_last_time late_timers = of_nat (8000 + 7 * i)"
    by (simp add: late_timers_def example_timers_def)
  also have "unat \<dots> = 8000 + 7 * i" using assms by (intro unat_of_nat_u32) simp
  finally show ?thesis .
qed

theorem sys_check_timeouts_returns_witness:
  "fst (sys_now late_timers) = 9000 \<and>
   (\<exists>s'. sys_check_timeouts example_timer_env late_timers = Some s' \<and> timer_inv s' \<and> reads s' \<le> 32004 \<and>
     (\<exists>t ts. next_timeout s' = t # ts \<and> 9000 - timeouts_last_time s' < time t))"
proof -
  have "reads late_timers = 0" by (simp add: late_timers_def example_timers_def)
  then show ?thesis
    using sys_check_timeouts_returns [OF late_timers_ok(1), unfolded late_timers_ok(2), of example_timer_env]
      late_timers_clock by (auto simp: late_timers_ok)
qed

text \<open>The states of the timers: initialised, checked, started by TCP, and the clock and the rest of
  the stack going on.\<close>

inductive timers_reach :: "'w timer_env \<Rightarrow> 'w timers \<Rightarrow> bool" for E where
  init: "next_timeout s = [] \<Longrightarrow> timeo_free s = MEMP_NUM_SYS_TIMEOUT \<Longrightarrow> \<not> tcpip_tcp_timer_active s \<Longrightarrow>
    sys_timeouts_init E s = Some s' \<Longrightarrow> timers_reach E s'"
| check: "timers_reach E s \<Longrightarrow> sys_check_timeouts E s = Some s' \<Longrightarrow> timers_reach E s'"
| needed: "timers_reach E s \<Longrightarrow> tcp_timer_needed E s = Some s' \<Longrightarrow> timers_reach E s'"
| tick: "timers_reach E s \<Longrightarrow> timers_reach E (s\<lparr>clock := c, reads := n, world := w\<rparr>)"

lemma init_inv:
  assumes "next_timeout s = []" "timeo_free s = MEMP_NUM_SYS_TIMEOUT" "\<not> tcpip_tcp_timer_active s"
    "sys_timeouts_init E s = Some s'"
  shows "timer_inv s'"
proof -
  let ?t = "\<lparr>time = 1000, timeo_h = Some ''cyclic_timer'', harg = 1\<rparr>"
  let ?s = "s\<lparr>timeo_free := MEMP_NUM_SYS_TIMEOUT - 1, reads := Suc (reads s), timeouts_last_time := clock s (reads s),
     next_timeout := [?t]\<rparr>"
  have u: "[1..<length (lwip_cyclic_timers E)] = [1, 2]" by (simp add: lwip_cyclic_timers_def upt_conv_Cons)
  have 1: "sys_timeout (fst (lwip_cyclic_timers E ! 1)) (Some ''cyclic_timer'') 1 s = Some ?s"
    using assms(1,2) by (simp add: sys_timeout_def sys_now_def lwip_cyclic_timers_def IP_TMR_INTERVAL_def MEMP_NUM_SYS_TIMEOUT_def)
  have p: "timeo_free ?s \<noteq> 0" "next_timeout ?s \<noteq> []" "pool_sound ?s"
    by (simp_all add: MEMP_NUM_SYS_TIMEOUT_def pool_sound_def)
  obtain s2 where 2: "sys_timeout 1000 (Some ''cyclic_timer'') 2 ?s = Some s2"
    "timer_keys s2 = add_mset (Some ''cyclic_timer'', 2) (timer_keys ?s)" "pool_sound s2"
    "tcpip_tcp_timer_active s2 = tcpip_tcp_timer_active ?s"
    using sys_timeout_step [OF p, of 1000 "Some ''cyclic_timer''" 2] by auto
  have "fst (lwip_cyclic_timers E ! 2) = 1000" by (simp add: lwip_cyclic_timers_def ARP_TMR_INTERVAL_def)
  then have "s' = s2\<lparr>reads := Suc (reads s2), timeouts_last_time := clock s2 (reads s2)\<rparr>"
    using assms(4) 2(1) unfolding sys_timeouts_init_def u start_cyclic.simps 1 by (simp add: 2(1) sys_now_def)
  moreover have "timer_keys s2 = running False" using 2(2) by (simp add: timer_keys_def timeo_key_def running_def)
  ultimately show ?thesis using 2(3,4) assms(3) by (auto simp: timer_inv_def timer_keys_def pool_sound_def)
qed

lemma needed_inv:
  fixes s :: "'w timers"
  assumes "timer_inv s"
  shows "\<exists>s'. tcp_timer_needed E s = Some s' \<and> timer_inv s'"
proof (cases "\<not> tcpip_tcp_timer_active s \<and> tcp_pcbs_exist E (world s)")
  case True
  let ?s = "s\<lparr>tcpip_tcp_timer_active := True\<rparr>"
  have k: "timer_keys ?s = running False" "pool_sound ?s" using assms(1) True by (auto simp: timer_inv_def timer_keys_def pool_sound_def)
  have "size (timer_keys ?s) = 2" unfolding k(1) by (simp add: running_def)
  then have l: "length (next_timeout ?s) = 2" by (simp add: timer_keys_def)
  then have p: "timeo_free ?s \<noteq> 0" "next_timeout ?s \<noteq> []" using k(2) by (auto simp: pool_sound_def MEMP_NUM_SYS_TIMEOUT_def)
  obtain s' where "sys_timeout 250 (Some ''tcpip_tcp_timer'') 0 ?s = Some s'"
    "timer_keys s' = add_mset (Some ''tcpip_tcp_timer'', 0) (timer_keys ?s)" "pool_sound s'"
    "tcpip_tcp_timer_active s' = tcpip_tcp_timer_active ?s"
    using sys_timeout_step [OF p k(2), of 250 "Some ''tcpip_tcp_timer''" 0] by auto
  with True k(1) show ?thesis by (simp add: tcp_timer_needed_def TCP_TMR_INTERVAL_def timer_inv_def running_def)
next
  case False
  then have "tcp_timer_needed E s = Some s" by (auto simp: tcp_timer_needed_def)
  with assms(1) show ?thesis by simp
qed

lemma check_loop_inv:
  assumes "check_loop E diff s = Some s'"
  shows "timer_inv s \<longrightarrow> timer_inv s'"
  using assms
proof (rule check_loop.raw_induct [rotated])
  fix loop E diff and s s' :: "'a timers"
  assume 1: "\<And>E diff s s'. loop E diff s = Some s' \<Longrightarrow> timer_inv s \<longrightarrow> timer_inv s'"
    "(let s = s\<lparr>world := pbuf_check_free_ooseq E (world s)\<rparr>
      in case next_timeout s of
          [] \<Rightarrow> Some s
        | t # ts \<Rightarrow>
            if time t \<le> diff then do {
              s' \<leftarrow> call_handler E (timeo_h t) (harg t)
                (s\<lparr>timeouts_last_time := timeouts_last_time s + time t, next_timeout := ts,
                   timeo_free := timeo_free s + 1\<rparr>);
              loop E (diff - time t) s'
            }
            else Some s) = Some s'"
  show "timer_inv s \<longrightarrow> timer_inv s'"
  proof
    assume inv: "timer_inv s"
    obtain t ts where ts: "next_timeout s = t # ts" using timer_inv_length [OF inv] by (cases "next_timeout s") auto
    obtain s1 where s1: "call_handler E (timeo_h t) (harg t) (pop_timer E t ts s) = Some s1" "timer_inv s1"
      using pop_timer_step [OF inv ts, of E] by blast
    show "timer_inv s'"
    proof (cases "time t \<le> diff")
      case True
      then have "loop E (diff - time t) s1 = Some s'" using 1(2) ts s1(1) by (simp add: pop_timer_def)
      then show ?thesis using 1(1) s1(2) by blast
    next
      case False
      then show ?thesis using 1(2) ts inv by (auto simp: timer_inv_def timer_keys_def pool_sound_def)
    qed
  qed
qed

lemma timers_reach_inv: "timers_reach E s \<Longrightarrow> timer_inv s"
proof (induction rule: timers_reach.induct)
  case (init s s')
  then show ?case by (rule init_inv)
next
  case (check s s')
  have "timer_inv (snd (sys_now s))" using check(3) by (simp add: sys_now_def timer_inv_def timer_keys_def pool_sound_def)
  then show ?case using check(2,3) check_loop_inv [of E _ "snd (sys_now s)" s']
    by (auto simp: sys_check_timeouts_def split_beta split: if_splits)
next
  case (needed s s')
  then show ?case using needed_inv [of s E] by auto
next
  case (tick s c n w)
  then show ?case by (simp add: timer_inv_def timer_keys_def pool_sound_def)
qed

text \<open>C39: the pool of timers is never exhausted. In every state after \<open>sys_timeouts_init\<close>, whatever
  the clock shows, the list holds the two cyclic timers once each, and the TCP timer once exactly while
  it is marked active; so at least one of the four pool elements is free, \<open>tcp_timer_needed\<close> does not
  fail the assertion of \<open>sys_timeout\<close>, and neither does \<open>sys_check_timeouts\<close> when the clock does not
  fall back or run for 49 days during the check.\<close>

theorem timer_pool_never_exhausted:
  assumes "timers_reach E s"
  shows "mset (map timeo_key (next_timeout s)) =
      {#(Some ''cyclic_timer'', 1), (Some ''cyclic_timer'', 2)#} +
      (if tcpip_tcp_timer_active s then {#(Some ''tcpip_tcp_timer'', 0)#} else {#}) \<and>
    1 \<le> timeo_free s \<and> tcp_timer_needed E s \<noteq> None \<and>
    (clock_within (fst (sys_now s) - timeouts_last_time s) (check_reads s) s \<longrightarrow> sys_check_timeouts E s \<noteq> None)"
proof (intro conjI impI)
  note inv = timers_reach_inv [OF assms]
  show k: "mset (map timeo_key (next_timeout s)) =
      {#(Some ''cyclic_timer'', 1), (Some ''cyclic_timer'', 2)#} +
      (if tcpip_tcp_timer_active s then {#(Some ''tcpip_tcp_timer'', 0)#} else {#})"
    using inv by (simp add: timer_inv_def timer_keys_def running_def)
  show "1 \<le> timeo_free s" using inv timer_inv_length [OF inv] by (simp add: timer_inv_def pool_sound_def MEMP_NUM_SYS_TIMEOUT_def)
  show "tcp_timer_needed E s \<noteq> None" using needed_inv [OF inv, of E] by auto
  show "sys_check_timeouts E s \<noteq> None" if "clock_within (fst (sys_now s) - timeouts_last_time s) (check_reads s) s"
    using sys_check_timeouts_ok [OF inv that, of E] by auto
qed

theorem timer_pool_never_exhausted_witness:
  "\<exists>s. timers_reach example_timer_env s \<and> tcpip_tcp_timer_active s \<and> 1 \<le> timeo_free s \<and>
     sys_check_timeouts example_timer_env s \<noteq> None"
proof -
  let ?s = "example_timers\<lparr>next_timeout := [], timeo_free := 4\<rparr>"
  obtain s s' where s: "sys_timeouts_init example_timer_env ?s = Some s" "tcp_timer_needed example_timer_env s = Some s'"
    "tcpip_tcp_timer_active s'" "timeouts_last_time s' = 1114" "reads s' = 4"
    by (simp add: sys_timeouts_init_def lwip_cyclic_timers_def upt_conv_Cons sys_timeout_def example_timers_def sys_now_def
        IP_TMR_INTERVAL_def ARP_TMR_INTERVAL_def Let_def tcp_timer_needed_def example_timer_env_def TCP_TMR_INTERVAL_def)
  have "timers_reach example_timer_env s"
    by (rule timers_reach.init [OF _ _ _ s(1)]) (simp_all add: MEMP_NUM_SYS_TIMEOUT_def example_timers_def)
  then have "timers_reach example_timer_env s'" using s(2) by (rule timers_reach.needed)
  then have r: "timers_reach example_timer_env (s'\<lparr>clock := (\<lambda>i. 1200 + of_nat i), reads := 0, world := world s'\<rparr>)"
    (is "timers_reach _ ?r") by (rule timers_reach.tick)
  have "unat (clock ?r (reads ?r + i) - timeouts_last_time ?r) = 86 + i" if "i < 348" for i
  proof -
    have "clock ?r (reads ?r + i) - timeouts_last_time ?r = of_nat (86 + i)" using s(4) by simp
    also have "unat \<dots> = 86 + i" using that by (intro unat_of_nat_u32) simp
    finally show ?thesis .
  qed
  moreover have "fst (sys_now ?r) - timeouts_last_time ?r = 86" using s(4) by (simp add: sys_now_def)
  ultimately have "clock_within (fst (sys_now ?r) - timeouts_last_time ?r) (check_reads ?r) ?r"
    by (simp add: clock_within_def check_reads_def)
  with timer_pool_never_exhausted [OF r] r s(3) show ?thesis by (intro exI [of _ ?r]) simp
qed

end
