(* ===== verification/Allocator.thy ===== *)
theory Allocator
  imports Main
begin

text \<open>
  The contract between a memory allocator and its clients, shared by the heap (\<open>MemHeap\<close>) and the
  pools (\<open>Memp\<close>). A region is a pair of the first address and the address after the last one.
\<close>

definition disjoint_regions :: "(nat \<times> nat) set \<Rightarrow> bool" where
  "disjoint_regions R \<longleftrightarrow> (\<forall>p e q f. (p, e) \<in> R \<and> (q, f) \<in> R \<and> (p, e) \<noteq> (q, f) \<longrightarrow> e \<le> q \<or> f \<le> p)"

text \<open>
  The outcome of asking for \<open>n\<close> bytes while the regions \<open>R\<close> are owned: NULL and no change, or a region
  of at least that size, disjoint from all others, which is owned from then on.
\<close>

definition grants :: "(nat \<times> nat) set \<Rightarrow> nat \<Rightarrow> nat option \<Rightarrow> (nat \<times> nat) set \<Rightarrow> bool" where
  "grants R n r R' \<longleftrightarrow>
     (case r of None \<Rightarrow> R' = R
      | Some p \<Rightarrow> \<exists>e. p + n \<le> e \<and> (\<forall>q f. (q, f) \<in> R \<longrightarrow> e \<le> q \<or> f \<le> p) \<and> R' = insert (p, e) R)"

text \<open>
  A client that asks for memory at will and gives back only regions that it owns, in any order.
\<close>

inductive client_run ::
  "('r \<Rightarrow> 's \<Rightarrow> (nat option \<times> 's) option) \<Rightarrow> (nat \<Rightarrow> 's \<Rightarrow> 's option) \<Rightarrow> ('s \<Rightarrow> (nat \<times> nat) set) \<Rightarrow> 's \<Rightarrow> 's \<Rightarrow> bool"
  for alloc release owned where
  idle: "client_run alloc release owned s s"
| got: "client_run alloc release owned s t \<Longrightarrow> alloc n t = Some (r, u) \<Longrightarrow> client_run alloc release owned s u"
| gave: "client_run alloc release owned s t \<Longrightarrow> (p, e) \<in> owned t \<Longrightarrow> release p t = Some u \<Longrightarrow>
    client_run alloc release owned s u"

text \<open>
  \<open>alloc\<close> never fails, it returns NULL and changes nothing that is owned, or a region of at least the
  size wanted that is disjoint from all regions owned. \<open>release\<close> of an owned region never fails and
  gives up just that region.
\<close>

locale allocator =
  fixes inv :: "'s \<Rightarrow> bool"
    and owned :: "'s \<Rightarrow> (nat \<times> nat) set"
    and want :: "'r \<Rightarrow> nat"
    and alloc :: "'r \<Rightarrow> 's \<Rightarrow> (nat option \<times> 's) option"
    and release :: "nat \<Rightarrow> 's \<Rightarrow> 's option"
  assumes alloc_ok: "inv s \<Longrightarrow> \<exists>r s'. alloc n s = Some (r, s') \<and> inv s' \<and>
      grants (owned s) (want n) r (owned s')"
    and release_ok: "inv s \<Longrightarrow> (p, e) \<in> owned s \<Longrightarrow>
      \<exists>s'. release p s = Some s' \<and> inv s' \<and> owned s' = owned s - {(p, e)}"
begin

lemma run_inv:
  assumes "client_run alloc release owned s t" "inv s" "disjoint_regions (owned s)"
  shows "inv t \<and> disjoint_regions (owned t)"
  using assms
proof (induction rule: client_run.induct)
  case (got s t n r u)
  then have t: "inv t" "disjoint_regions (owned t)" by simp_all
  from alloc_ok [OF t(1), of n] got(2) have u: "inv u" "grants (owned t) (want n) r (owned u)"
    by auto
  have "disjoint_regions (owned u)"
  proof (cases r)
    case None
    then show ?thesis using u(2) t(2) by (simp add: grants_def)
  next
    case (Some p)
    then obtain e where "\<forall>q f. (q, f) \<in> owned t \<longrightarrow> e \<le> q \<or> f \<le> p" "owned u = insert (p, e) (owned t)"
      using u(2) by (auto simp: grants_def)
    then show ?thesis using t(2) unfolding disjoint_regions_def by auto blast+
  qed
  with u(1) show ?case by simp
next
  case (gave s t p e u)
  then have t: "inv t" "disjoint_regions (owned t)" by simp_all
  from release_ok [OF t(1) gave(2)] gave(3) have "inv u" "owned u = owned t - {(p, e)}" by auto
  with t(2) show ?case unfolding disjoint_regions_def by auto
qed simp

lemma run_safe:
  assumes "client_run alloc release owned s t" "inv s" "owned s = {}"
  shows "disjoint_regions (owned t) \<and> (\<forall>n. \<exists>r u. alloc n t = Some (r, u) \<and> grants (owned t) (want n) r (owned u)) \<and>
    (\<forall>p e. (p, e) \<in> owned t \<longrightarrow> (\<exists>u. release p t = Some u \<and> owned u = owned t - {(p, e)}))"
proof -
  have "disjoint_regions (owned s)" using assms(3) by (simp add: disjoint_regions_def)
  from run_inv [OF assms(1,2) this] have "inv t" "disjoint_regions (owned t)" by simp_all
  then show ?thesis using alloc_ok release_ok by blast
qed

end

end
