(* ===== verification/MemHeap.thy ===== *)
theory MemHeap
  imports Prelude Allocator
begin

text \<open>
  The heap of lwIP, \<^verbatim>\<open>lwip/src/core/mem.c\<close> (the variant without pools and without the C library, with
  one thread). The memory is seen through the \<^verbatim>\<open>struct mem\<close> headers at the start of the blocks: a
  partial map from offsets in \<^verbatim>\<open>ram\<close>. A pointer to a header is its offset, a pointer to user data
  the offset after the header. The headers of blocks that were merged stay in the map, as they stay
  in memory. \<open>None\<close> is a failed assertion, a read where there is no header, or a loop that does not
  end. Offsets fit the 16 bits of \<^verbatim>\<open>mem_size_t\<close> because the heap has 16000 bytes.
\<close>

section \<open>Data\<close>

record mem_hdr =
  mnext :: nat
  mprev :: nat
  used :: bool

record mem_heap =
  hdrs :: "nat \<rightharpoonup> mem_hdr"
  lfree :: nat

definition SIZEOF_STRUCT_MEM :: nat where "SIZEOF_STRUCT_MEM = 6"
definition MIN_SIZE_ALIGNED :: nat where "MIN_SIZE_ALIGNED = 12"
definition MEM_SIZE_ALIGNED :: nat where "MEM_SIZE_ALIGNED = 16000"

lemmas mem_sizes = SIZEOF_STRUCT_MEM_def MIN_SIZE_ALIGNED_def MEM_SIZE_ALIGNED_def

abbreviation set_hdr :: "nat \<Rightarrow> mem_hdr \<Rightarrow> mem_heap \<Rightarrow> mem_heap" where
  "set_hdr a m h \<equiv> h\<lparr>hdrs := (hdrs h)(a \<mapsto> m)\<rparr>"

text \<open>\<^verbatim>\<open>ram[n].prev = a\<close>.\<close>

definition set_prev :: "nat \<Rightarrow> nat \<Rightarrow> mem_heap \<Rightarrow> mem_heap option" where
  "set_prev n a h = do { m \<leftarrow> hdrs h n; Some (set_hdr n (m\<lparr>mprev := a\<rparr>) h) }"

text \<open>The size of the user data of a block, computed in \<^verbatim>\<open>size_t\<close>.\<close>

definition data_size :: "nat \<Rightarrow> nat \<Rightarrow> int" where
  "data_size n ptr = (int n - int (ptr + SIZEOF_STRUCT_MEM)) mod 2 ^ 64"

section \<open>Operations\<close>

definition mem_init :: mem_heap where
  "mem_init =
     \<lparr>hdrs = [0 \<mapsto> \<lparr>mnext = MEM_SIZE_ALIGNED, mprev = 0, used = False\<rparr>,
              MEM_SIZE_ALIGNED \<mapsto> \<lparr>mnext = MEM_SIZE_ALIGNED, mprev = MEM_SIZE_ALIGNED, used = True\<rparr>],
      lfree = 0\<rparr>"

definition plug_forward :: "nat \<Rightarrow> mem_heap \<Rightarrow> mem_heap option" where
  "plug_forward mem h = do {
     m \<leftarrow> hdrs h mem;
     lwip_assert (mnext m \<le> MEM_SIZE_ALIGNED);
     let nmem = mnext m;
     n \<leftarrow> hdrs h nmem;
     if mem \<noteq> nmem \<and> \<not> used n \<and> nmem \<noteq> MEM_SIZE_ALIGNED then do {
       let h = (if lfree h = nmem then h\<lparr>lfree := mem\<rparr> else h);
       set_prev (mnext n) mem (set_hdr mem (m\<lparr>mnext := mnext n\<rparr>) h)
     }
     else Some h
   }"

definition plug_backward :: "nat \<Rightarrow> mem_heap \<Rightarrow> mem_heap option" where
  "plug_backward mem h = do {
     m \<leftarrow> hdrs h mem;
     let pmem = mprev m;
     p \<leftarrow> hdrs h pmem;
     if pmem \<noteq> mem \<and> \<not> used p then do {
       let h = (if lfree h = mem then h\<lparr>lfree := pmem\<rparr> else h);
       set_prev (mnext m) pmem (set_hdr pmem (p\<lparr>mnext := mnext m\<rparr>) h)
     }
     else Some h
   }"

definition plug_holes :: "nat \<Rightarrow> mem_heap \<Rightarrow> mem_heap option" where
  "plug_holes mem h = do {
     lwip_assert (mem < MEM_SIZE_ALIGNED);
     m \<leftarrow> hdrs h mem;
     lwip_assert (\<not> used m);
     h \<leftarrow> plug_forward mem h;
     plug_backward mem h
   }"

text \<open>The header belonging to user data; \<open>None\<close> when it would lie before the heap.\<close>

definition hdr_of :: "nat \<Rightarrow> nat option" where
  "hdr_of rmem = (if SIZEOF_STRUCT_MEM \<le> rmem then Some (rmem - SIZEOF_STRUCT_MEM) else None)"

definition mem_free :: "nat option \<Rightarrow> mem_heap \<Rightarrow> mem_heap option" where
  "mem_free rmem h =
     (case rmem of
        None \<Rightarrow> Some h
      | Some r \<Rightarrow> do {
          lwip_assert (r < MEM_SIZE_ALIGNED);
          mem \<leftarrow> hdr_of r;
          m \<leftarrow> hdrs h mem;
          lwip_assert (used m);
          let h = set_hdr mem (m\<lparr>used := False\<rparr>) h;
          let h = (if mem < lfree h then h\<lparr>lfree := mem\<rparr> else h);
          plug_holes mem h
        })"

text \<open>A header at \<open>ptr2\<close> for the free rest of a block: linked after \<open>mem\<close> and before \<open>next\<close>.\<close>

definition insert_rest :: "nat \<Rightarrow> mem_hdr \<Rightarrow> nat \<Rightarrow> nat \<Rightarrow> mem_heap \<Rightarrow> mem_heap option" where
  "insert_rest mem m ptr2 next' h = do {
     let h = set_hdr ptr2 \<lparr>mnext = next', mprev = mem, used = False\<rparr> h;
     let h = set_hdr mem (m\<lparr>mnext := ptr2\<rparr>) h;
     if next' \<noteq> MEM_SIZE_ALIGNED then set_prev next' ptr2 h else Some h
   }"

definition mem_trim :: "nat option \<Rightarrow> u16 \<Rightarrow> mem_heap \<Rightarrow> (nat option \<times> mem_heap) option" where
  "mem_trim rmem newsize' h =
     (let newsize = max (unat newsize') MIN_SIZE_ALIGNED
      in if newsize > MEM_SIZE_ALIGNED then Some (None, h)
         else do {
           r \<leftarrow> rmem;
           lwip_assert (r < MEM_SIZE_ALIGNED);
           ptr \<leftarrow> hdr_of r;
           m \<leftarrow> hdrs h ptr;
           let sz = unat (of_nat (mnext m) - of_nat ptr - of_nat SIZEOF_STRUCT_MEM :: u16);
           lwip_assert (newsize \<le> sz);
           if newsize = sz then Some (rmem, h)
           else do {
             m2 \<leftarrow> hdrs h (mnext m);
             let ptr2 = ptr + SIZEOF_STRUCT_MEM + newsize;
             if \<not> used m2 then do {
               let h = (if lfree h = mnext m then h\<lparr>lfree := ptr2\<rparr> else h);
               h \<leftarrow> insert_rest ptr m ptr2 (mnext m2) h;
               Some (rmem, h)
             }
             else if newsize + SIZEOF_STRUCT_MEM + MIN_SIZE_ALIGNED \<le> sz then do {
               let h = (if ptr2 < lfree h then h\<lparr>lfree := ptr2\<rparr> else h);
               h \<leftarrow> insert_rest ptr m ptr2 (mnext m) h;
               Some (rmem, h)
             }
             else Some (rmem, h)
           }
         })"

text \<open>The first block from \<open>cur\<close> on that is not used, or the end of the heap.\<close>

partial_function (option) next_free :: "nat \<Rightarrow> mem_heap \<Rightarrow> nat option" where
  "next_free cur h = do {
     m \<leftarrow> hdrs h cur;
     (if used m \<and> cur \<noteq> MEM_SIZE_ALIGNED then next_free (mnext m) h else Some cur)
   }"

text \<open>Taking the block at \<open>ptr\<close>.\<close>

definition malloc_take :: "nat \<Rightarrow> nat \<Rightarrow> mem_hdr \<Rightarrow> mem_heap \<Rightarrow> (nat option \<times> mem_heap) option" where
  "malloc_take sz ptr m h = do {
     h \<leftarrow> (if int (sz + SIZEOF_STRUCT_MEM + MIN_SIZE_ALIGNED) \<le> data_size (mnext m) ptr
           then insert_rest ptr (m\<lparr>used := True\<rparr>) (ptr + SIZEOF_STRUCT_MEM + sz) (mnext m) h
           else Some (set_hdr ptr (m\<lparr>used := True\<rparr>) h));
     h \<leftarrow> (if ptr = lfree h then do {
              cur \<leftarrow> next_free ptr h;
              c \<leftarrow> hdrs h cur;
              lwip_assert (cur = MEM_SIZE_ALIGNED \<or> \<not> used c);
              Some (h\<lparr>lfree := cur\<rparr>)
            }
            else Some h);
     lwip_assert (ptr + SIZEOF_STRUCT_MEM + sz \<le> MEM_SIZE_ALIGNED);
     Some (Some (ptr + SIZEOF_STRUCT_MEM), h)
   }"

partial_function (option) malloc_loop :: "nat \<Rightarrow> nat \<Rightarrow> mem_heap \<Rightarrow> (nat option \<times> mem_heap) option" where
  "malloc_loop sz ptr h =
     (if ptr < MEM_SIZE_ALIGNED - sz then do {
        m \<leftarrow> hdrs h ptr;
        (if \<not> used m \<and> int sz \<le> data_size (mnext m) ptr then malloc_take sz ptr m h
         else malloc_loop sz (mnext m) h)
      }
      else Some (None, h))"

definition mem_malloc :: "u16 \<Rightarrow> mem_heap \<Rightarrow> (nat option \<times> mem_heap) option" where
  "mem_malloc sz' h =
     (if sz' = 0 then Some (None, h)
      else let sz = max (unat sz') MIN_SIZE_ALIGNED
      in if sz > MEM_SIZE_ALIGNED then Some (None, h)
      else malloc_loop sz (lfree h) h)"

text \<open>
  The product is cut to 16 bits for the allocation, but not for the clearing: the last component is
  the number of bytes that \<^verbatim>\<open>memset\<close> writes.
\<close>

definition mem_calloc :: "u16 \<Rightarrow> u16 \<Rightarrow> mem_heap \<Rightarrow> (nat option \<times> mem_heap \<times> nat) option" where
  "mem_calloc count' sz h = do {
     (p, h) \<leftarrow> mem_malloc (count' * sz) h;
     Some (p, h, if p = None then 0 else unat count' * unat sz)
   }"

section \<open>Blocks\<close>

text \<open>
  The blocks from \<open>n\<close> to the end of the heap, with offset, end and use, given the block before; the
  link back from the end of the heap is not kept up by the code.
\<close>

fun blocks :: "(nat \<rightharpoonup> mem_hdr) \<Rightarrow> nat \<Rightarrow> nat \<Rightarrow> (nat \<times> nat \<times> bool) list \<Rightarrow> bool" where
  "blocks H p n [] \<longleftrightarrow> n = MEM_SIZE_ALIGNED \<and> (\<exists>m. H n = Some m \<and> used m \<and> mnext m = MEM_SIZE_ALIGNED)"
| "blocks H p n ((a, e, u) # xs) \<longleftrightarrow> n = a \<and> H a = Some \<lparr>mnext = e, mprev = p, used = u\<rparr> \<and>
     a + SIZEOF_STRUCT_MEM + MIN_SIZE_ALIGNED \<le> e \<and> blocks H a e xs"

text \<open>The blocks from \<open>n\<close> up to \<open>e\<close>, where \<open>q\<close> is the last of them.\<close>

fun segment :: "(nat \<rightharpoonup> mem_hdr) \<Rightarrow> nat \<Rightarrow> nat \<Rightarrow> (nat \<times> nat \<times> bool) list \<Rightarrow> nat \<Rightarrow> nat \<Rightarrow> bool" where
  "segment H p n [] q e \<longleftrightarrow> p = q \<and> n = e"
| "segment H p n ((a, f, u) # xs) q e \<longleftrightarrow> n = a \<and> H a = Some \<lparr>mnext = f, mprev = p, used = u\<rparr> \<and>
     a + SIZEOF_STRUCT_MEM + MIN_SIZE_ALIGNED \<le> f \<and> segment H a f xs q e"

definition first_free :: "(nat \<times> nat \<times> bool) list \<Rightarrow> nat" where
  "first_free xs = (case find (\<lambda>(a, e, u). \<not> u) xs of None \<Rightarrow> MEM_SIZE_ALIGNED | Some (a, _) \<Rightarrow> a)"

fun coalesced :: "(nat \<times> nat \<times> bool) list \<Rightarrow> bool" where
  "coalesced ((a, e, u) # (b, f, v) # xs) \<longleftrightarrow> (u \<or> v) \<and> coalesced ((b, f, v) # xs)"
| "coalesced _ \<longleftrightarrow> True"

definition mem_inv :: "mem_heap \<Rightarrow> (nat \<times> nat \<times> bool) list \<Rightarrow> bool" where
  "mem_inv h xs \<longleftrightarrow> blocks (hdrs h) 0 0 xs \<and> lfree h = first_free xs \<and> coalesced xs"

lemma blocks_append:
  "blocks H p n (xs @ ys) \<longleftrightarrow> (\<exists>q e. segment H p n xs q e \<and> blocks H q e ys)"
proof (induction xs arbitrary: p n)
  case (Cons x xs)
  then show ?case by (cases x) (auto; blast)
qed simp

lemma segment_append:
  "segment H p n (xs @ ys) q e \<longleftrightarrow> (\<exists>r f. segment H p n xs r f \<and> segment H r f ys q e)"
proof (induction xs arbitrary: p n)
  case (Cons x xs)
  then show ?case by (cases x) (auto; blast)
qed simp

lemma blocks_le: "blocks H p n xs \<Longrightarrow> n \<le> MEM_SIZE_ALIGNED"
  by (induction H p n xs rule: blocks.induct) auto

lemma blocks_bounds: "blocks H p n xs \<Longrightarrow> (a, e, u) \<in> set xs \<Longrightarrow>
  n \<le> a \<and> a + SIZEOF_STRUCT_MEM + MIN_SIZE_ALIGNED \<le> e \<and> e \<le> MEM_SIZE_ALIGNED"
  by (induction H p n xs rule: blocks.induct) (auto dest: blocks_le)

lemma segment_le: "segment H p n xs q e \<Longrightarrow> n \<le> e"
  by (induction H p n xs q e rule: segment.induct) auto

lemma segment_bounds: "segment H p n xs q e \<Longrightarrow> (a, f, u) \<in> set xs \<Longrightarrow> n \<le> a \<and> a < f \<and> f \<le> e"
  by (induction H p n xs q e rule: segment.induct) (auto dest: segment_le simp: mem_sizes)

lemma blocks_upd: "k \<notin> fst ` set xs \<Longrightarrow> k \<noteq> MEM_SIZE_ALIGNED \<Longrightarrow> blocks (H(k := v)) p n xs = blocks H p n xs"
  by (induction H p n xs rule: blocks.induct) auto

lemma segment_upd: "k \<notin> fst ` set xs \<Longrightarrow> segment (H(k := v)) p n xs q e = segment H p n xs q e"
  by (induction H p n xs q e rule: segment.induct) auto

lemma segment_upd_above [simp]: "segment H p n xs q e \<Longrightarrow> e \<le> k \<Longrightarrow> segment (H(k := v)) p n xs q e"
proof -
  assume s: "segment H p n xs q e" "e \<le> k"
  have "k \<notin> fst ` set xs" using segment_bounds [OF s(1)] s(2) by force
  then show ?thesis using s segment_upd by blast
qed

lemma blocks_upd_below [simp]: "blocks H p n xs \<Longrightarrow> k < n \<Longrightarrow> blocks (H(k := v)) p n xs"
proof -
  assume s: "blocks H p n xs" "k < n"
  have "k \<notin> fst ` set xs" "k \<noteq> MEM_SIZE_ALIGNED" using blocks_bounds [OF s(1)] blocks_le [OF s(1)] s(2) by force+
  then show ?thesis using s blocks_upd by blast
qed

lemma blocks_hdr: "blocks H p n xs \<Longrightarrow> \<exists>m. H n = Some m \<and> (xs = [] \<longrightarrow> used m)"
  by (cases xs) auto

text \<open>The first block may be linked back to another block before it.\<close>

lemma blocks_relink:
  assumes "blocks H p n xs" "H n = Some m"
  shows "blocks (H(n \<mapsto> m\<lparr>mprev := a\<rparr>)) a n xs"
proof (cases xs)
  case (Cons x ys)
  obtain b e u where x: "x = (b, e, u)" by (cases x)
  then have "blocks H b e ys" "b < e" using assms Cons by (auto simp: mem_sizes)
  then show ?thesis using assms Cons x by auto
qed (use assms in auto)

lemma blocks_relink_end: "blocks H p MEM_SIZE_ALIGNED xs \<Longrightarrow> blocks H a MEM_SIZE_ALIGNED xs"
proof -
  assume b: "blocks H p MEM_SIZE_ALIGNED xs"
  have "xs = []"
  proof (cases xs)
    case (Cons x ys)
    obtain c e u where "x = (c, e, u)" by (cases x)
    then show ?thesis using blocks_bounds [OF b, of c e u] Cons by (auto simp: mem_sizes)
  qed
  with b show ?thesis by simp
qed

lemma set_prev_blocks:
  assumes "blocks (hdrs h) p n xs"
  shows "\<exists>h'. set_prev n a h = Some h' \<and> lfree h' = lfree h \<and> blocks (hdrs h') a n xs \<and>
    (\<forall>k. k \<noteq> n \<longrightarrow> hdrs h' k = hdrs h k)"
proof -
  obtain m where "hdrs h n = Some m" using blocks_hdr [OF assms] by blast
  then show ?thesis using blocks_relink [OF assms] by (simp add: set_prev_def)
qed

lemma segment_cong: "segment H p n xs q e \<Longrightarrow> (\<And>k. k < e \<Longrightarrow> H' k = H k) \<Longrightarrow> segment H' p n xs q e"
proof (induction H p n xs q e rule: segment.induct)
  case (2 H p n a f u xs q e)
  then have "a < e" using segment_le [of H a f xs q e] by (auto simp: mem_sizes)
  with 2 show ?case by auto
qed simp

text \<open>A free rest is split off a block.\<close>

lemma insert_rest_blocks:
  assumes seg: "segment (hdrs h) 0 0 ys q mem" and rest: "blocks (hdrs h) r e zs"
    and m: "m = \<lparr>mnext = e', mprev = q, used = u\<rparr>" and mb: "mem + 18 \<le> b" "b + 18 \<le> e"
  shows "\<exists>h'. insert_rest mem m b e h = Some h' \<and> lfree h' = lfree h \<and>
    blocks (hdrs h') 0 0 (ys @ (mem, b, u) # (b, e, False) # zs)"
proof -
  let ?h1 = "set_hdr mem (m\<lparr>mnext := b\<rparr>) (set_hdr b \<lparr>mnext = e, mprev = mem, used = False\<rparr> h)"
  have z: "blocks (hdrs ?h1) r e zs" using rest mb by simp
  have final: "blocks (hdrs h') 0 0 (ys @ (mem, b, u) # (b, e, False) # zs)"
    if "blocks (hdrs h') b e zs" "\<And>k. k < e \<Longrightarrow> hdrs h' k = hdrs ?h1 k" for h'
  proof -
    have "hdrs h' k = hdrs h k" if "k < mem" for k
      using that mb \<open>\<And>k. k < e \<Longrightarrow> hdrs h' k = hdrs ?h1 k\<close> [of k] by simp
    then have "segment (hdrs h') 0 0 ys q mem" using segment_cong [OF seg] by blast
    moreover have "hdrs h' mem = Some (m\<lparr>mnext := b\<rparr>)" "hdrs h' b = Some \<lparr>mnext = e, mprev = mem, used = False\<rparr>"
      using that(2) [of mem] that(2) [of b] mb by simp_all
    ultimately show ?thesis unfolding blocks_append using that(1) mb m
      by (intro exI [of _ q] exI [of _ mem]) (simp add: mem_sizes)
  qed
  show ?thesis
  proof (cases "e = MEM_SIZE_ALIGNED")
    case True
    then have "insert_rest mem m b e h = Some ?h1" by (simp add: insert_rest_def)
    moreover have "blocks (hdrs ?h1) b e zs" using z True blocks_relink_end by blast
    ultimately show ?thesis using final [of ?h1] by simp
  next
    case False
    then have i: "insert_rest mem m b e h = set_prev e b ?h1" by (simp add: insert_rest_def)
    obtain h' where h': "set_prev e b ?h1 = Some h'" "lfree h' = lfree ?h1" "blocks (hdrs h') b e zs"
      "\<And>k. k \<noteq> e \<Longrightarrow> hdrs h' k = hdrs ?h1 k"
      using set_prev_blocks [OF z, of b] by blast
    then show ?thesis using i final [of h'] by simp
  qed
qed

lemma first_free_append:
  "first_free (xs @ ys) = (if \<exists>x\<in>set xs. \<not> snd (snd x) then first_free xs else first_free ys)"
  by (induction xs) (auto simp: first_free_def)

lemma first_free_Cons [simp]:
  "first_free ((a, e, u) # xs) = (if u then first_free xs else a)" "first_free [] = MEM_SIZE_ALIGNED"
  by (simp_all add: first_free_def)

lemma next_free_blocks: "blocks (hdrs h) p n xs \<Longrightarrow> next_free n h = Some (first_free xs) \<and>
  (\<exists>c. hdrs h (first_free xs) = Some c \<and> (first_free xs = MEM_SIZE_ALIGNED \<or> \<not> used c))"
proof (induction xs arbitrary: p n)
  case Nil
  then show ?case by (subst next_free.simps) auto
next
  case (Cons x xs)
  obtain a e u where x: "x = (a, e, u)" by (cases x)
  have b: "a = n" "hdrs h n = Some \<lparr>mnext = e, mprev = p, used = u\<rparr>" "blocks (hdrs h) n e xs" "n < e" "e \<le> MEM_SIZE_ALIGNED"
    using Cons.prems x blocks_le by (auto simp: mem_sizes)
  show ?case using Cons.IH [OF b(3)] b x by (subst next_free.simps) auto
qed

section \<open>Allocation\<close>

lemma data_size_eq: "ptr + SIZEOF_STRUCT_MEM \<le> n \<Longrightarrow> n \<le> MEM_SIZE_ALIGNED \<Longrightarrow>
  data_size n ptr = int (n - (ptr + SIZEOF_STRUCT_MEM))"
  unfolding data_size_def by (subst mod_pos_pos_trivial) (auto simp: mem_sizes)

lemma coalesced_append:
  "coalesced (xs @ ys) \<longleftrightarrow> coalesced xs \<and> coalesced ys \<and>
     (xs = [] \<or> ys = [] \<or> snd (snd (last xs)) \<or> snd (snd (hd ys)))"
proof (induction xs)
  case (Cons x xs)
  then show ?case by (cases xs; cases ys; cases x) auto
qed simp

text \<open>The blocks that replace a free block when \<open>sz\<close> bytes of it are taken.\<close>

definition taken :: "nat \<Rightarrow> nat \<Rightarrow> nat \<Rightarrow> (nat \<times> nat \<times> bool) list" where
  "taken sz a e =
     (if a + SIZEOF_STRUCT_MEM + sz + SIZEOF_STRUCT_MEM + MIN_SIZE_ALIGNED \<le> e
      then [(a, a + SIZEOF_STRUCT_MEM + sz, True), (a + SIZEOF_STRUCT_MEM + sz, e, False)] else [(a, e, True)])"

definition fits :: "nat \<Rightarrow> nat \<times> nat \<times> bool \<Rightarrow> bool" where
  "fits sz x = (case x of (a, e, u) \<Rightarrow> \<not> u \<and> a + SIZEOF_STRUCT_MEM + sz \<le> e)"

lemma coalesced_taken:
  assumes "coalesced (ys @ (a, e, False) # zs)"
  shows "coalesced (ys @ taken sz a e @ zs)"
  using assms unfolding coalesced_append taken_def
  by (cases zs) (auto simp: coalesced_append)

lemma first_free_segment:
  "segment H p n ys q e \<Longrightarrow> \<exists>x\<in>set ys. \<not> snd (snd x) \<Longrightarrow> first_free ys < e"
proof (induction ys arbitrary: p n)
  case (Cons y ys)
  obtain b f u where y: "y = (b, f, u)" by (cases y)
  then have "segment H b f ys q e" "b < f" using Cons.prems by (auto simp: mem_sizes)
  then show ?case using Cons y segment_le [of H b f ys q e] by auto
qed simp

lemma first_free_unused:
  assumes "blocks H p n (ys @ (a, e, False) # zs)"
  shows "first_free (ys @ (a, e, False) # zs) = a \<longleftrightarrow> (\<forall>x\<in>set ys. snd (snd x))"
proof -
  obtain q where s: "segment H p n ys q a" using assms unfolding blocks_append by auto
  have "first_free ys < a" if "x \<in> set ys" "\<not> snd (snd x)" for x
    using first_free_segment [OF s] that by blast
  then show ?thesis unfolding first_free_append by auto
qed

lemma malloc_take_inv:
  assumes inv: "mem_inv h (ys @ (a, e, False) # zs)" and fit: "a + SIZEOF_STRUCT_MEM + sz \<le> e" "12 \<le> sz"
    and m: "hdrs h a = Some m"
  shows "\<exists>h'. malloc_take sz a m h = Some (Some (a + SIZEOF_STRUCT_MEM), h') \<and> mem_inv h' (ys @ taken sz a e @ zs)"
proof -
  have bl: "blocks (hdrs h) 0 0 (ys @ (a, e, False) # zs)" using inv by (simp add: mem_inv_def)
  obtain q where s: "segment (hdrs h) 0 0 ys q a" "blocks (hdrs h) a e zs" "m = \<lparr>mnext = e, mprev = q, used = False\<rparr>"
    using bl m unfolding blocks_append by auto
  have e: "e \<le> MEM_SIZE_ALIGNED" "a + 18 \<le> e" using blocks_le [OF s(2)] blocks_bounds [OF bl, of a e False] by (auto simp: mem_sizes)
  have ds: "data_size (mnext m) a = int (e - (a + SIZEOF_STRUCT_MEM))"
    using data_size_eq [of a e] e s(3) by (simp add: mem_sizes)
  let ?b = "a + SIZEOF_STRUCT_MEM + sz"
  let ?big = "a + SIZEOF_STRUCT_MEM + sz + SIZEOF_STRUCT_MEM + MIN_SIZE_ALIGNED \<le> e"
  have big: "int (sz + SIZEOF_STRUCT_MEM + MIN_SIZE_ALIGNED) \<le> data_size (mnext m) a \<longleftrightarrow> ?big"
    unfolding ds using e by (auto simp: mem_sizes)
  obtain h1 where h1: "(if int (sz + SIZEOF_STRUCT_MEM + MIN_SIZE_ALIGNED) \<le> data_size (mnext m) a
           then insert_rest a (m\<lparr>used := True\<rparr>) ?b (mnext m) h
           else Some (set_hdr a (m\<lparr>used := True\<rparr>) h)) = Some h1" "lfree h1 = lfree h"
    "blocks (hdrs h1) 0 0 (ys @ taken sz a e @ zs)"
  proof (cases ?big)
    case True
    then show ?thesis
      using that big insert_rest_blocks [OF s(1,2), of "m\<lparr>used := True\<rparr>" e True ?b] s(3) fit(2)
      by (auto simp: taken_def mem_sizes)
  next
    case False
    then have "blocks ((hdrs h)(a \<mapsto> m\<lparr>used := True\<rparr>)) 0 0 (ys @ taken sz a e @ zs)"
      unfolding blocks_append using s e by (auto simp: taken_def mem_sizes intro!: exI [of _ q] exI [of _ a])
    then show ?thesis using that [of "set_hdr a (m\<lparr>used := True\<rparr>) h"] big False by simp
  qed
  have lf: "lfree h = first_free (ys @ (a, e, False) # zs)" using inv by (simp add: mem_inv_def)
  have co: "coalesced (ys @ taken sz a e @ zs)" using inv coalesced_taken by (simp add: mem_inv_def)
  have end_ok: "?b \<le> MEM_SIZE_ALIGNED" using fit(1) e(1) by simp
  show ?thesis
  proof (cases "a = lfree h")
    case True
    then have ys: "\<forall>x\<in>set ys. snd (snd x)" using first_free_unused [OF bl] lf by simp
    have h1': "\<exists>r. blocks (hdrs h1) r a (taken sz a e @ zs)"
    proof -
      obtain r f where r: "segment (hdrs h1) 0 0 ys r f" "blocks (hdrs h1) r f (taken sz a e @ zs)"
        using h1(3) unfolding blocks_append [of _ _ _ ys] by blast
      then have "f = a" by (auto simp: taken_def split: if_splits)
      then show ?thesis using r by blast
    qed
    then obtain c where c: "next_free a h1 = Some (first_free (taken sz a e @ zs))"
      "hdrs h1 (first_free (taken sz a e @ zs)) = Some c" "first_free (taken sz a e @ zs) = MEM_SIZE_ALIGNED \<or> \<not> used c"
      using next_free_blocks by blast
    have ff: "first_free (ys @ taken sz a e @ zs) = first_free (taken sz a e @ zs)"
      unfolding first_free_append [of ys] using ys by auto
    let ?h = "h1\<lparr>lfree := first_free (taken sz a e @ zs)\<rparr>"
    have "malloc_take sz a m h = Some (Some (a + SIZEOF_STRUCT_MEM), ?h)"
      unfolding malloc_take_def h1(1) using True h1(2) c end_ok by simp
    moreover have "mem_inv ?h (ys @ taken sz a e @ zs)" using h1(3) co ff by (simp add: mem_inv_def)
    ultimately show ?thesis by blast
  next
    case False
    then have "\<exists>x\<in>set ys. \<not> snd (snd x)" using first_free_unused [OF bl] lf by auto
    then have "first_free (ys @ taken sz a e @ zs) = lfree h" unfolding lf first_free_append [of ys] by simp
    then have "mem_inv h1 (ys @ taken sz a e @ zs)" using h1 co by (simp add: mem_inv_def)
    moreover have "malloc_take sz a m h = Some (Some (a + SIZEOF_STRUCT_MEM), h1)"
      unfolding malloc_take_def h1(1) using False h1(2) end_ok by simp
    ultimately show ?thesis by blast
  qed
qed

lemma malloc_loop_none:
  "blocks (hdrs h) p ptr zs \<Longrightarrow> \<forall>x\<in>set zs. \<not> fits sz x \<Longrightarrow> malloc_loop sz ptr h = Some (None, h)"
proof (induction zs arbitrary: p ptr)
  case Nil
  then have "\<not> ptr < MEM_SIZE_ALIGNED - sz" by simp
  then show ?case by (subst malloc_loop.simps) simp
next
  case (Cons x zs)
  obtain a e u where x: "x = (a, e, u)" by (cases x)
  have b: "a = ptr" "hdrs h ptr = Some \<lparr>mnext = e, mprev = p, used = u\<rparr>" "blocks (hdrs h) ptr e zs" "ptr + 18 \<le> e"
    using Cons.prems x by (auto simp: mem_sizes)
  have "data_size e ptr = int (e - (ptr + SIZEOF_STRUCT_MEM))"
    using data_size_eq [of ptr e] blocks_le [OF b(3)] b(4) by (simp add: mem_sizes)
  then have n: "\<not> (\<not> u \<and> int sz \<le> data_size e ptr)" using Cons.prems(2) x b by (auto simp: fits_def mem_sizes)
  have "malloc_loop sz e h = Some (None, h)" using Cons.IH [OF b(3)] Cons.prems(2) by simp
  then show ?case using b n by (subst malloc_loop.simps) auto
qed

lemma malloc_loop_first:
  "blocks (hdrs h) p ptr (us @ (a, e, False) # vs) \<Longrightarrow> \<forall>x\<in>set us. \<not> fits sz x \<Longrightarrow> fits sz (a, e, False) \<Longrightarrow>
   \<exists>m. hdrs h a = Some m \<and> malloc_loop sz ptr h = malloc_take sz a m h"
proof (induction us arbitrary: p ptr)
  case Nil
  then have b: "a = ptr" "hdrs h ptr = Some \<lparr>mnext = e, mprev = p, used = False\<rparr>" "blocks (hdrs h) ptr e vs" "ptr + 18 \<le> e"
    by (auto simp: mem_sizes)
  have "data_size e ptr = int (e - (ptr + SIZEOF_STRUCT_MEM))"
    using data_size_eq [of ptr e] blocks_le [OF b(3)] b(4) by (simp add: mem_sizes)
  then have "int sz \<le> data_size e ptr" "ptr < MEM_SIZE_ALIGNED - sz"
    using Nil(3) b blocks_le [OF b(3)] by (auto simp: fits_def mem_sizes)
  then show ?case using b by (subst malloc_loop.simps) simp
next
  case (Cons x us)
  obtain b f u where x: "x = (b, f, u)" by (cases x)
  have b: "b = ptr" "hdrs h ptr = Some \<lparr>mnext = f, mprev = p, used = u\<rparr>" "blocks (hdrs h) ptr f (us @ (a, e, False) # vs)"
    "ptr + 18 \<le> f" using Cons.prems x by (auto simp: mem_sizes)
  have "data_size f ptr = int (f - (ptr + SIZEOF_STRUCT_MEM))"
    using data_size_eq [of ptr f] blocks_le [OF b(3)] b(4) by (simp add: mem_sizes)
  then have n: "\<not> (\<not> u \<and> int sz \<le> data_size f ptr)" using Cons.prems(2) x b by (auto simp: fits_def mem_sizes)
  have "f \<le> a" "e \<le> MEM_SIZE_ALIGNED" using blocks_bounds [OF b(3), of a e False] by simp_all
  then have "ptr < MEM_SIZE_ALIGNED - sz" using Cons.prems(3) b(4) by (auto simp: fits_def mem_sizes)
  moreover have "\<exists>m. hdrs h a = Some m \<and> malloc_loop sz f h = malloc_take sz a m h"
    using Cons.IH [OF b(3)] Cons.prems by simp
  ultimately show ?case using b n by (subst malloc_loop.simps) auto
qed

text \<open>The search starts at the lowest free block.\<close>

lemma lfree_split:
  assumes "mem_inv h xs"
  shows "\<exists>p ys zs. xs = ys @ zs \<and> (\<forall>x\<in>set ys. snd (snd x)) \<and> blocks (hdrs h) p (lfree h) zs"
proof -
  let ?ys = "takeWhile (\<lambda>x. snd (snd x)) xs" and ?zs = "dropWhile (\<lambda>x. snd (snd x)) xs"
  have x: "xs = ?ys @ ?zs" by simp
  have b: "blocks (hdrs h) 0 0 (?ys @ ?zs)" using assms by (simp add: mem_inv_def)
  then obtain p n where n: "blocks (hdrs h) p n ?zs" unfolding blocks_append by blast
  have ys: "\<forall>x\<in>set ?ys. snd (snd x)" by (auto dest: set_takeWhileD)
  then have "lfree h = first_free ?zs"
    using assms first_free_append [of ?ys ?zs] by (auto simp: mem_inv_def)
  also have "\<dots> = n"
  proof (cases ?zs)
    case (Cons y zs)
    then have "\<not> snd (snd y)" by (simp add: dropWhile_eq_Cons_conv)
    with Cons n show ?thesis by (cases y) auto
  next
    case Nil
    then show ?thesis using n unfolding Nil by simp
  qed
  finally show ?thesis using x ys n by metis
qed

lemma mem_malloc_none:
  assumes "mem_inv h xs" "\<forall>x\<in>set xs. \<not> fits (max (unat sz) MIN_SIZE_ALIGNED) x"
  shows "mem_malloc sz h = Some (None, h)"
proof -
  obtain p ys zs where s: "xs = ys @ zs" "blocks (hdrs h) p (lfree h) zs" using lfree_split [OF assms(1)] by blast
  then have "malloc_loop (max (unat sz) MIN_SIZE_ALIGNED) (lfree h) h = Some (None, h)"
    using malloc_loop_none [OF s(2)] assms(2) by simp
  then show ?thesis by (simp add: mem_malloc_def Let_def)
qed

lemma first_free_ge: "blocks H p n xs \<Longrightarrow> n \<le> first_free xs"
proof (induction xs arbitrary: p n)
  case (Cons x xs)
  obtain a e u where x: "x = (a, e, u)" by (cases x)
  then have "n \<le> e" "blocks H n e xs" using Cons.prems by auto
  then show ?case using Cons.IH [of n e] Cons.prems x by auto
qed simp

lemma mem_malloc_first:
  assumes inv: "mem_inv h (ys @ (a, e, False) # zs)" and sz: "sz \<noteq> 0"
    and ys: "\<forall>x\<in>set ys. \<not> fits (max (unat sz) MIN_SIZE_ALIGNED) x"
    and fit: "fits (max (unat sz) MIN_SIZE_ALIGNED) (a, e, False)"
  shows "\<exists>h'. mem_malloc sz h = Some (Some (a + SIZEOF_STRUCT_MEM), h') \<and>
    mem_inv h' (ys @ taken (max (unat sz) MIN_SIZE_ALIGNED) a e @ zs)"
proof -
  let ?sz = "max (unat sz) MIN_SIZE_ALIGNED"
  obtain p us vs where s: "ys @ (a, e, False) # zs = us @ vs" "\<forall>x\<in>set us. snd (snd x)" "blocks (hdrs h) p (lfree h) vs"
    using lfree_split [OF inv] by blast
  obtain ws where ws: "ys = us @ ws" "vs = ws @ (a, e, False) # zs"
    using s(1,2) by (auto simp: append_eq_append_conv2 Cons_eq_append_conv)
  have "e \<le> MEM_SIZE_ALIGNED" using inv blocks_bounds [of "hdrs h" 0 0 _ a e False] by (auto simp: mem_inv_def)
  moreover have "a + SIZEOF_STRUCT_MEM + ?sz \<le> e" using fit by (simp add: fits_def)
  ultimately have "?sz \<le> MEM_SIZE_ALIGNED" by linarith
  moreover obtain m where m: "hdrs h a = Some m" "malloc_loop ?sz (lfree h) h = malloc_take ?sz a m h"
    using malloc_loop_first [OF s(3)[unfolded ws(2)] _ fit] ys ws(1) by auto
  ultimately have "mem_malloc sz h = malloc_take ?sz a m h" using sz by (auto simp: mem_malloc_def Let_def less_max_iff_disj)
  then show ?thesis using malloc_take_inv [OF inv _ _ m(1), of ?sz] fit by (simp add: fits_def mem_sizes)
qed

section \<open>Release\<close>

lemma merge_blocks:
  assumes seg: "segment (hdrs h) 0 0 ys q a" and rest: "blocks (hdrs h) r e zs" and ae: "a + 18 \<le> e"
  shows "\<exists>h'. set_prev e a (set_hdr a \<lparr>mnext = e, mprev = q, used = w\<rparr> h) = Some h' \<and> lfree h' = lfree h \<and>
    blocks (hdrs h') 0 0 (ys @ (a, e, w) # zs)"
proof -
  let ?h = "set_hdr a \<lparr>mnext = e, mprev = q, used = w\<rparr> h"
  have "blocks (hdrs ?h) r e zs" using rest ae by simp
  then obtain h' where h': "set_prev e a ?h = Some h'" "lfree h' = lfree ?h" "blocks (hdrs h') a e zs"
    "\<And>k. k \<noteq> e \<Longrightarrow> hdrs h' k = hdrs ?h k" using set_prev_blocks [of ?h r e zs a] by blast
  have "segment (hdrs h') 0 0 ys q a" using segment_cong [OF seg] h'(4) ae by simp
  moreover have "hdrs h' a = Some \<lparr>mnext = e, mprev = q, used = w\<rparr>" using h'(4) [of a] ae by simp
  ultimately have "blocks (hdrs h') 0 0 (ys @ (a, e, w) # zs)"
    unfolding blocks_append using h'(3) ae by (intro exI [of _ q] exI [of _ a]) (simp add: mem_sizes)
  with h' show ?thesis by simp
qed

lemma plug_forward_inv:
  assumes bl: "blocks (hdrs h) 0 0 (ys @ (a, e, False) # zs)" and lf: "lfree h = first_free (ys @ (a, e, False) # zs)"
  shows "\<exists>h' f ws. plug_forward a h = Some h' \<and> blocks (hdrs h') 0 0 (ys @ (a, f, False) # ws) \<and>
    lfree h' = first_free (ys @ (a, f, False) # ws) \<and>
    (f, ws) = (case zs of (b, g, False) # vs \<Rightarrow> (g, vs) | _ \<Rightarrow> (e, zs))"
proof -
  obtain q where s: "segment (hdrs h) 0 0 ys q a" "hdrs h a = Some \<lparr>mnext = e, mprev = q, used = False\<rparr>"
    "blocks (hdrs h) a e zs" "a + 18 \<le> e" using bl unfolding blocks_append by (auto simp: mem_sizes)
  have e: "e \<le> MEM_SIZE_ALIGNED" using blocks_le [OF s(3)] .
  show ?thesis
  proof (cases "\<exists>g vs. zs = (e, g, False) # vs")
    case True
    then obtain g vs where zs: "zs = (e, g, False) # vs" by blast
    have z: "hdrs h e = Some \<lparr>mnext = g, mprev = a, used = False\<rparr>" "blocks (hdrs h) e g vs" "e + 18 \<le> g"
      using s(3) zs by (auto simp: mem_sizes)
    have "e \<noteq> MEM_SIZE_ALIGNED" using z(3) blocks_le [OF z(2)] by simp
    moreover have "first_free (ys @ (a, e, False) # zs) \<noteq> e"
      using first_free_segment [OF s(1)] s(4)
      by (cases "\<exists>x\<in>set ys. \<not> snd (snd x)") (simp_all add: first_free_append)
    ultimately have "plug_forward a h = set_prev g a (set_hdr a \<lparr>mnext = g, mprev = q, used = False\<rparr> h)"
      using s z e lf by (simp add: plug_forward_def)
    moreover obtain h' where "set_prev g a (set_hdr a \<lparr>mnext = g, mprev = q, used = False\<rparr> h) = Some h'" "lfree h' = lfree h"
      "blocks (hdrs h') 0 0 (ys @ (a, g, False) # vs)"
      using merge_blocks [OF s(1) z(2), of False] s(4) z(3) by auto
    ultimately show ?thesis using lf zs first_free_append [of ys] by auto
  next
    case False
    obtain n where n: "hdrs h e = Some n" "used n \<or> e = MEM_SIZE_ALIGNED"
    proof (cases zs)
      case Nil
      then show ?thesis using that s(3) by auto
    next
      case (Cons y ws)
      obtain b g u where "y = (b, g, u)" by (cases y)
      then show ?thesis using that s(3) Cons False by auto
    qed
    have "plug_forward a h = Some h" using s n e by (auto simp: plug_forward_def)
    moreover have "(case zs of (b, g, False) # vs \<Rightarrow> (g, vs) | _ \<Rightarrow> (e, zs)) = (e, zs)"
      using False s(3) by (auto split: list.split bool.split)
    ultimately show ?thesis using bl lf by auto
  qed
qed

lemma plug_backward_inv:
  assumes bl: "blocks (hdrs h) 0 0 (ys @ (a, e, False) # zs)" and lf: "lfree h = first_free (ys @ (a, e, False) # zs)"
  shows "\<exists>h' b us. plug_backward a h = Some h' \<and> blocks (hdrs h') 0 0 (us @ (b, e, False) # zs) \<and>
    lfree h' = first_free (us @ (b, e, False) # zs) \<and>
    (if ys \<noteq> [] \<and> \<not> snd (snd (last ys)) then ys = us @ [(b, a, False)] else us = ys \<and> b = a)"
proof -
  obtain q where s: "segment (hdrs h) 0 0 ys q a" "hdrs h a = Some \<lparr>mnext = e, mprev = q, used = False\<rparr>"
    "blocks (hdrs h) a e zs" "a + 18 \<le> e" using bl unfolding blocks_append by (auto simp: mem_sizes)
  show ?thesis
  proof (cases ys rule: rev_cases)
    case Nil
    then have "q = a" using s(1) by simp
    then have "plug_backward a h = Some h" using s by (simp add: plug_backward_def)
    with Nil bl lf show ?thesis by auto
  next
    case (snoc us y)
    obtain b f u where y: "y = (b, f, u)" by (cases y)
    obtain r where us: "segment (hdrs h) 0 0 us r b" "hdrs h b = Some \<lparr>mnext = a, mprev = r, used = u\<rparr>" "b + 18 \<le> a" "q = b" "f = a"
      using s(1) unfolding snoc y segment_append by (auto simp: mem_sizes)
    show ?thesis
    proof (cases u)
      case True
      then have "plug_backward a h = Some h" using s us by (simp add: plug_backward_def)
      with True snoc y bl lf show ?thesis by auto
    next
      case False
      have "first_free (ys @ (a, e, False) # zs) \<noteq> a"
        using first_free_unused [OF bl] snoc y False by auto
      then have "plug_backward a h = set_prev e b (set_hdr b \<lparr>mnext = e, mprev = r, used = False\<rparr> h)"
        using s us False lf by (simp add: plug_backward_def)
      moreover obtain h' where "set_prev e b (set_hdr b \<lparr>mnext = e, mprev = r, used = False\<rparr> h) = Some h'" "lfree h' = lfree h"
        "blocks (hdrs h') 0 0 (us @ (b, e, False) # zs)"
        using merge_blocks [OF us(1) s(3), of False] us(3) s(4) by auto
      moreover have "first_free (us @ (b, e, False) # zs) = first_free (ys @ (a, e, False) # zs)"
        using snoc y False by (simp add: first_free_append)
      ultimately show ?thesis using lf snoc y False us(5) by auto
    qed
  qed
qed

text \<open>The blocks after a release: the free neighbours are merged in.\<close>

definition plugged ::
  "(nat \<times> nat \<times> bool) list \<Rightarrow> nat \<Rightarrow> nat \<Rightarrow> (nat \<times> nat \<times> bool) list \<Rightarrow> (nat \<times> nat \<times> bool) list" where
  "plugged ys a e zs =
     (let (f, ws) = (case zs of (b, g, False) # vs \<Rightarrow> (g, vs) | _ \<Rightarrow> (e, zs))
      in if ys \<noteq> [] \<and> \<not> snd (snd (last ys)) then butlast ys @ (fst (last ys), f, False) # ws
         else ys @ (a, f, False) # ws)"

lemma coalesced_plugged:
  assumes "coalesced (ys @ (a, e, True) # zs)"
  shows "coalesced (plugged ys a e zs)"
proof -
  obtain f ws where fw: "(case zs of (b, g, False) # vs \<Rightarrow> (g, vs) | _ \<Rightarrow> (e, zs)) = (f, ws)" by fastforce
  have z: "coalesced zs" "coalesced ys" using assms by (cases zs; auto simp: coalesced_append)+
  have w: "coalesced ws \<and> (ws = [] \<or> snd (snd (hd ws)))"
  proof (cases "\<exists>b g vs. zs = (b, g, False) # vs")
    case True
    then obtain b g vs where "zs = (b, g, False) # vs" by blast
    then show ?thesis using z(1) fw by (cases vs) auto
  next
    case False
    then have "ws = zs" using fw by (auto split: list.splits bool.splits)
    then show ?thesis using z(1) False by (cases zs) auto
  qed
  have c: "coalesced ((c, g, False) # ws)" for c g using w by (cases ws) auto
  show ?thesis
  proof (cases ys rule: rev_cases)
    case Nil
    then show ?thesis using c fw by (simp add: plugged_def)
  next
    case (snoc us y)
    have "coalesced us" "us = [] \<or> snd (snd (last us)) \<or> snd (snd y)" using z(2) snoc by (simp_all add: coalesced_append)
    then show ?thesis using c fw snoc z(2) by (cases y) (auto simp: plugged_def coalesced_append)
  qed
qed

lemma mem_free_inv:
  assumes inv: "mem_inv h (ys @ (a, e, True) # zs)"
  shows "\<exists>h'. mem_free (Some (a + SIZEOF_STRUCT_MEM)) h = Some h' \<and> mem_inv h' (plugged ys a e zs)"
proof -
  have bl: "blocks (hdrs h) 0 0 (ys @ (a, e, True) # zs)" and lf: "lfree h = first_free (ys @ (a, e, True) # zs)"
    using inv by (simp_all add: mem_inv_def)
  obtain q where s: "segment (hdrs h) 0 0 ys q a" "hdrs h a = Some \<lparr>mnext = e, mprev = q, used = True\<rparr>"
    "blocks (hdrs h) a e zs" "a + 18 \<le> e" using bl unfolding blocks_append by (auto simp: mem_sizes)
  have e: "e \<le> MEM_SIZE_ALIGNED" using blocks_le [OF s(3)] .
  let ?h0 = "set_hdr a \<lparr>mnext = e, mprev = q, used = False\<rparr> h"
  let ?h1 = "if a < lfree ?h0 then ?h0\<lparr>lfree := a\<rparr> else ?h0"
  have b1: "blocks (hdrs ?h1) 0 0 (ys @ (a, e, False) # zs)"
    unfolding blocks_append using s by (auto simp: mem_sizes intro!: exI [of _ q] exI [of _ a])
  have l1: "lfree ?h1 = first_free (ys @ (a, e, False) # zs)"
  proof (cases "\<exists>x\<in>set ys. \<not> snd (snd x)")
    case True
    then have "lfree h = first_free ys" "first_free ys < a" using lf first_free_segment [OF s(1)] by (auto simp: first_free_append)
    then show ?thesis using True by (simp add: first_free_append)
  next
    case False
    then have "lfree h = first_free zs" using lf by (auto simp: first_free_append)
    moreover have "e \<le> first_free zs" by (rule first_free_ge [OF s(3)])
    ultimately show ?thesis using False s(4) by (auto simp: first_free_append)
  qed
  obtain h2 f ws where h2: "plug_forward a ?h1 = Some h2" "blocks (hdrs h2) 0 0 (ys @ (a, f, False) # ws)"
    "lfree h2 = first_free (ys @ (a, f, False) # ws)" "(f, ws) = (case zs of (b, g, False) # vs \<Rightarrow> (g, vs) | _ \<Rightarrow> (e, zs))"
    using plug_forward_inv [OF b1 l1] by blast
  obtain h3 b us where h3: "plug_backward a h2 = Some h3" "blocks (hdrs h3) 0 0 (us @ (b, f, False) # ws)"
    "lfree h3 = first_free (us @ (b, f, False) # ws)"
    "if ys \<noteq> [] \<and> \<not> snd (snd (last ys)) then ys = us @ [(b, a, False)] else us = ys \<and> b = a"
    using plug_backward_inv [OF h2(2,3)] by blast
  have p: "us @ (b, f, False) # ws = plugged ys a e zs"
    using h3(4) unfolding plugged_def h2(4) [symmetric] by (auto split: if_splits)
  have "hdrs ?h1 a = Some \<lparr>mnext = e, mprev = q, used = False\<rparr>" by simp
  then have "plug_holes a ?h1 = Some h3" using h2(1) h3(1) s(4) e by (simp add: plug_holes_def)
  moreover have "mem_free (Some (a + SIZEOF_STRUCT_MEM)) h = plug_holes a ?h1"
    using s e by (simp add: mem_free_def hdr_of_def Let_def mem_sizes)
  ultimately show ?thesis using h3 p coalesced_plugged inv by (simp add: mem_inv_def)
qed

section \<open>Shrinking\<close>

lemma mem_trim_inv:
  assumes inv: "mem_inv h (ys @ (a, e, True) # zs)"
    and sz: "a + SIZEOF_STRUCT_MEM + max (unat newsize) MIN_SIZE_ALIGNED \<le> e"
  shows "\<exists>h' f us. mem_trim (Some (a + SIZEOF_STRUCT_MEM)) newsize h = Some (Some (a + SIZEOF_STRUCT_MEM), h') \<and>
    mem_inv h' (ys @ (a, f, True) # us) \<and> a + SIZEOF_STRUCT_MEM + max (unat newsize) MIN_SIZE_ALIGNED \<le> f \<and> f \<le> e \<and>
    filter (\<lambda>(a, e, u). u) us = filter (\<lambda>(a, e, u). u) zs"
proof -
  let ?n = "max (unat newsize) MIN_SIZE_ALIGNED" and ?b = "a + SIZEOF_STRUCT_MEM + max (unat newsize) MIN_SIZE_ALIGNED"
  have bl: "blocks (hdrs h) 0 0 (ys @ (a, e, True) # zs)" and lf: "lfree h = first_free (ys @ (a, e, True) # zs)"
    and co: "coalesced (ys @ (a, e, True) # zs)" using inv by (simp_all add: mem_inv_def)
  obtain q where s: "segment (hdrs h) 0 0 ys q a" "hdrs h a = Some \<lparr>mnext = e, mprev = q, used = True\<rparr>"
    "blocks (hdrs h) a e zs" using bl unfolding blocks_append by auto
  have e: "e \<le> MEM_SIZE_ALIGNED" using blocks_le [OF s(3)] .
  have "(of_nat e - of_nat a - of_nat SIZEOF_STRUCT_MEM :: u16) = of_nat (e - a - SIZEOF_STRUCT_MEM)"
    using sz by (simp add: of_nat_diff)
  then have size: "unat (of_nat e - of_nat a - of_nat SIZEOF_STRUCT_MEM :: u16) = e - a - SIZEOF_STRUCT_MEM"
    using e by (simp only:) (simp add: unat_of_nat_u16 mem_sizes)
  have n16: "\<not> MEM_SIZE_ALIGNED < ?n" using sz e by linarith
  have le: "?n \<le> e - a - SIZEOF_STRUCT_MEM" "a + SIZEOF_STRUCT_MEM < MEM_SIZE_ALIGNED" using sz e by (auto simp: mem_sizes)
  obtain m2 where m2: "hdrs h e = Some m2" using blocks_hdr [OF s(3)] by blast
  have step: "mem_trim (Some (a + SIZEOF_STRUCT_MEM)) newsize h =
     (if ?n = e - a - SIZEOF_STRUCT_MEM then Some (Some (a + SIZEOF_STRUCT_MEM), h)
      else if \<not> used m2 then do {
        h \<leftarrow> insert_rest a \<lparr>mnext = e, mprev = q, used = True\<rparr> ?b (mnext m2) (if lfree h = e then h\<lparr>lfree := ?b\<rparr> else h);
        Some (Some (a + SIZEOF_STRUCT_MEM), h) }
      else if ?n + SIZEOF_STRUCT_MEM + MIN_SIZE_ALIGNED \<le> e - a - SIZEOF_STRUCT_MEM then do {
        h \<leftarrow> insert_rest a \<lparr>mnext = e, mprev = q, used = True\<rparr> ?b e (if ?b < lfree h then h\<lparr>lfree := ?b\<rparr> else h);
        Some (Some (a + SIZEOF_STRUCT_MEM), h) }
      else Some (Some (a + SIZEOF_STRUCT_MEM), h))"
    unfolding mem_trim_def Let_def if_not_P [OF n16] using s(2) size le m2 by (simp add: hdr_of_def)
  have b18: "a + 18 \<le> ?b" by (simp add: mem_sizes)
  consider (same) "?n = e - a - SIZEOF_STRUCT_MEM \<or> (used m2 \<and> \<not> ?n + SIZEOF_STRUCT_MEM + MIN_SIZE_ALIGNED \<le> e - a - SIZEOF_STRUCT_MEM)"
    | (move) "?n \<noteq> e - a - SIZEOF_STRUCT_MEM" "\<not> used m2"
    | (split) "?n \<noteq> e - a - SIZEOF_STRUCT_MEM" "used m2" "?n + SIZEOF_STRUCT_MEM + MIN_SIZE_ALIGNED \<le> e - a - SIZEOF_STRUCT_MEM"
    by blast
  then show ?thesis
  proof cases
    case same
    then have "mem_trim (Some (a + SIZEOF_STRUCT_MEM)) newsize h = Some (Some (a + SIZEOF_STRUCT_MEM), h)"
      unfolding step by auto
    with inv sz show ?thesis by blast
  next
    case move
    then obtain g vs where zs: "zs = (e, g, False) # vs" using s(3) m2 by (cases zs) auto
    have g: "mnext m2 = g" "blocks (hdrs h) e g vs" "e + 18 \<le> g" using s(3) m2 zs by (auto simp: mem_sizes)
    let ?h = "if lfree h = e then h\<lparr>lfree := ?b\<rparr> else h"
    have hh: "hdrs ?h = hdrs h" by simp
    obtain h' where h': "insert_rest a \<lparr>mnext = e, mprev = q, used = True\<rparr> ?b g ?h = Some h'" "lfree h' = lfree ?h"
      "blocks (hdrs h') 0 0 (ys @ (a, ?b, True) # (?b, g, False) # vs)"
      using insert_rest_blocks [of ?h ys q a e g vs _ e True ?b] s(1) g sz b18 hh by auto
    have "lfree ?h = first_free (ys @ (a, ?b, True) # (?b, g, False) # vs)"
    proof (cases "\<exists>x\<in>set ys. \<not> snd (snd x)")
      case True
      then have "lfree h < a" using lf first_free_segment [OF s(1)] by (simp add: first_free_append)
      then show ?thesis using True lf sz by (simp add: first_free_append mem_sizes)
    next
      case False
      then show ?thesis using lf zs by (auto simp: first_free_append)
    qed
    moreover have "coalesced (ys @ (a, ?b, True) # (?b, g, False) # vs)"
      using co zs by (cases vs) (auto simp: coalesced_append)
    ultimately have "mem_inv h' (ys @ (a, ?b, True) # (?b, g, False) # vs)" using h' by (simp add: mem_inv_def)
    moreover have "mem_trim (Some (a + SIZEOF_STRUCT_MEM)) newsize h = Some (Some (a + SIZEOF_STRUCT_MEM), h')"
      unfolding step using move h'(1) g(1) by simp
    ultimately show ?thesis using zs sz by (intro exI [of _ h'] exI [of _ ?b] exI [of _ "(?b, g, False) # vs"]) simp
  next
    case split
    let ?h = "if ?b < lfree h then h\<lparr>lfree := ?b\<rparr> else h"
    have hh: "hdrs ?h = hdrs h" by simp
    have be: "?b + 18 \<le> e" using split(3) by (simp add: mem_sizes)
    obtain h' where h': "insert_rest a \<lparr>mnext = e, mprev = q, used = True\<rparr> ?b e ?h = Some h'" "lfree h' = lfree ?h"
      "blocks (hdrs h') 0 0 (ys @ (a, ?b, True) # (?b, e, False) # zs)"
      using insert_rest_blocks [of ?h ys q a a e zs _ e True ?b] s(1,3) be b18 hh by auto
    have "lfree ?h = first_free (ys @ (a, ?b, True) # (?b, e, False) # zs)"
    proof (cases "\<exists>x\<in>set ys. \<not> snd (snd x)")
      case True
      then have "lfree h < a" using lf first_free_segment [OF s(1)] by (simp add: first_free_append)
      then show ?thesis using True lf by (simp add: first_free_append)
    next
      case False
      then have "lfree h = first_free zs" using lf by (auto simp: first_free_append)
      moreover have "e \<le> first_free zs" by (rule first_free_ge [OF s(3)])
      ultimately show ?thesis using False be by (auto simp: first_free_append)
    qed
    moreover have "coalesced (ys @ (a, ?b, True) # (?b, e, False) # zs)"
    proof -
      have "zs = [] \<or> snd (snd (hd zs))" using s(3) m2 split(2) by (cases zs) auto
      then show ?thesis using co by (cases zs) (auto simp: coalesced_append)
    qed
    ultimately have "mem_inv h' (ys @ (a, ?b, True) # (?b, e, False) # zs)" using h' by (simp add: mem_inv_def)
    moreover have "mem_trim (Some (a + SIZEOF_STRUCT_MEM)) newsize h = Some (Some (a + SIZEOF_STRUCT_MEM), h')"
      unfolding step using split h'(1) by simp
    ultimately show ?thesis using sz by (intro exI [of _ h'] exI [of _ ?b] exI [of _ "(?b, e, False) # zs"]) simp
  qed
qed

section \<open>The heap as an allocator\<close>

lemma blocks_unique: "blocks H p n xs \<Longrightarrow> blocks H p n ys \<Longrightarrow> xs = ys"
proof (induction xs arbitrary: p n ys)
  case Nil
  then show ?case using blocks_bounds [OF Nil(2)] by (cases ys) (auto simp: mem_sizes)
next
  case (Cons x xs)
  obtain a e u where x: "x = (a, e, u)" by (cases x)
  have a: "a + 18 \<le> e" "e \<le> MEM_SIZE_ALIGNED" using blocks_bounds [OF Cons.prems(1), of a e u] x by (auto simp: mem_sizes)
  then obtain b f v zs where "ys = (b, f, v) # zs" using Cons.prems x by (cases ys) auto
  then show ?case using Cons x by auto
qed

definition heap_inv :: "mem_heap \<Rightarrow> bool" where
  "heap_inv h \<longleftrightarrow> (\<exists>xs. mem_inv h xs)"

definition used_regions :: "(nat \<times> nat \<times> bool) list \<Rightarrow> (nat \<times> nat) set" where
  "used_regions xs = {(a + SIZEOF_STRUCT_MEM, e) | a e. (a, e, True) \<in> set xs}"

definition heap_owned :: "mem_heap \<Rightarrow> (nat \<times> nat) set" where
  "heap_owned h = {r. \<exists>xs. mem_inv h xs \<and> r \<in> used_regions xs}"

lemma heap_owned_eq: "mem_inv h xs \<Longrightarrow> heap_owned h = used_regions xs"
  unfolding heap_owned_def mem_inv_def using blocks_unique by blast

lemma used_regions_simps [simp]: "used_regions [] = {}"
  "used_regions ((a, e, u) # xs) = (if u then insert (a + SIZEOF_STRUCT_MEM, e) (used_regions xs) else used_regions xs)"
  "used_regions (xs @ ys) = used_regions xs \<union> used_regions ys"
  by (auto simp: used_regions_def)

lemma used_regions_filter: "used_regions xs = used_regions (filter (\<lambda>(a, e, u). u) xs)"
  by (auto simp: used_regions_def)

lemma used_plugged: "used_regions (plugged ys a e zs) = used_regions ys \<union> used_regions zs"
proof -
  obtain f ws where fw: "(case zs of (b, g, False) # vs \<Rightarrow> (g, vs) | _ \<Rightarrow> (e, zs)) = (f, ws)" by fastforce
  have "used_regions ws = used_regions zs" using fw by (auto split: list.splits bool.splits)
  moreover have "used_regions ys = used_regions (butlast ys)" if "ys \<noteq> []" "\<not> snd (snd (last ys))"
  proof -
    obtain a b c where "last ys = (a, b, c)" by (cases "last ys")
    then have "ys = butlast ys @ [(a, b, c)]" "\<not> c" using that append_butlast_last_id [of ys] by auto
    then show ?thesis by (metis sup_bot.right_neutral used_regions_simps)
  qed
  ultimately show ?thesis using fw by (auto simp: plugged_def)
qed

lemma owned_blocks: "(p, f) \<in> used_regions xs \<longleftrightarrow> (\<exists>a. p = a + SIZEOF_STRUCT_MEM \<and> (a, f, True) \<in> set xs)"
  by (auto simp: used_regions_def)

lemma blocks_disjoint:
  assumes "blocks H p n (ys @ (a, e, u) # zs)" "(b, f, v) \<in> set ys \<union> set zs"
  shows "e \<le> b \<or> f \<le> a"
proof -
  obtain q where s: "segment H p n ys q a" "blocks H a e zs" using assms(1) unfolding blocks_append by auto
  show ?thesis using assms(2) segment_bounds [OF s(1), of b f v] blocks_bounds [OF s(2), of b f v] by auto
qed

lemma malloc_law:
  assumes "heap_inv h"
  shows "\<exists>r h'. mem_malloc sz h = Some (r, h') \<and> heap_inv h' \<and>
    grants (heap_owned h) (unat sz) r (heap_owned h')"
proof -
  obtain xs where inv: "mem_inv h xs" using assms by (auto simp: heap_inv_def)
  let ?n = "max (unat sz) MIN_SIZE_ALIGNED"
  show ?thesis
  proof (cases "sz = 0 \<or> (\<forall>x\<in>set xs. \<not> fits ?n x)")
    case True
    then have "mem_malloc sz h = Some (None, h)" using mem_malloc_none [OF inv, of sz] by (auto simp: mem_malloc_def)
    then show ?thesis using assms by (simp add: grants_def)
  next
    case False
    then have "\<exists>x\<in>set xs. fits ?n x" by blast
    then obtain ys x zs where x: "xs = ys @ x # zs" "fits ?n x" "\<forall>y\<in>set ys. \<not> fits ?n y"
      using split_list_first_prop [of xs "fits ?n"] by blast
    obtain a e where ae: "x = (a, e, False)" "a + SIZEOF_STRUCT_MEM + ?n \<le> e"
      using x(2) by (cases x) (auto simp: fits_def)
    obtain h' where h': "mem_malloc sz h = Some (Some (a + SIZEOF_STRUCT_MEM), h')" "mem_inv h' (ys @ taken ?n a e @ zs)"
      using mem_malloc_first [of h ys a e zs sz] inv x ae False by auto
    obtain b where b: "a + SIZEOF_STRUCT_MEM + unat sz \<le> b" "b \<le> e"
      "used_regions (ys @ taken ?n a e @ zs) = insert (a + SIZEOF_STRUCT_MEM, b) (used_regions xs)"
    proof (cases "a + SIZEOF_STRUCT_MEM + ?n + SIZEOF_STRUCT_MEM + MIN_SIZE_ALIGNED \<le> e")
      case True
      then show ?thesis using that [of "a + SIZEOF_STRUCT_MEM + ?n"] x(1) ae by (auto simp: taken_def)
    next
      case False
      have "unat sz \<le> ?n" by simp
      then show ?thesis using that [of e] False x(1) ae by (auto simp: taken_def)
    qed
    have bl: "blocks (hdrs h) 0 0 (ys @ (a, e, False) # zs)" using inv x(1) ae by (simp add: mem_inv_def)
    have "b \<le> q \<or> f \<le> a + SIZEOF_STRUCT_MEM" if qf: "(q, f) \<in> heap_owned h" for q f
    proof -
      obtain c where c: "q = c + SIZEOF_STRUCT_MEM" "(c, f, True) \<in> set ys \<union> set zs"
        using qf x(1) ae unfolding heap_owned_eq [OF inv] owned_blocks by auto
      from blocks_disjoint [OF bl c(2)] show ?thesis using c(1) b(2) by auto
    qed
    then show ?thesis using h' b heap_owned_eq [OF inv] heap_owned_eq [OF h'(2)]
      by (intro exI [of _ "Some (a + SIZEOF_STRUCT_MEM)"] exI [of _ h']) (auto simp: heap_inv_def grants_def)
  qed
qed

lemma free_law:
  assumes "heap_inv h" "(p, e) \<in> heap_owned h"
  shows "\<exists>h'. mem_free (Some p) h = Some h' \<and> heap_inv h' \<and> heap_owned h' = heap_owned h - {(p, e)}"
proof -
  obtain xs where inv: "mem_inv h xs" using assms by (auto simp: heap_inv_def)
  obtain a where a: "p = a + SIZEOF_STRUCT_MEM" "(a, e, True) \<in> set xs"
    using assms(2) unfolding heap_owned_eq [OF inv] owned_blocks by blast
  then obtain ys zs where xs: "xs = ys @ (a, e, True) # zs" by (meson split_list)
  obtain h' where h': "mem_free (Some p) h = Some h'" "mem_inv h' (plugged ys a e zs)"
    using mem_free_inv [of h ys a e zs] inv xs a by auto
  have bl: "blocks (hdrs h) 0 0 (ys @ (a, e, True) # zs)" using inv xs by (simp add: mem_inv_def)
  have "(p, e) \<notin> used_regions ys \<union> used_regions zs"
  proof
    assume "(p, e) \<in> used_regions ys \<union> used_regions zs"
    then have "(a, e, True) \<in> set ys \<union> set zs" using a(1) by (auto simp: owned_blocks)
    from blocks_disjoint [OF bl this] blocks_bounds [OF bl, of a e True] show False by (auto simp: mem_sizes)
  qed
  then have "heap_owned h' = heap_owned h - {(p, e)}"
    using heap_owned_eq [OF inv] heap_owned_eq [OF h'(2)] xs a(1) by (auto simp: used_plugged)
  then show ?thesis using h' by (auto simp: heap_inv_def)
qed

interpretation heap: allocator heap_inv heap_owned unat mem_malloc "\<lambda>p. mem_free (Some p)"
  by unfold_locales (rule malloc_law, assumption, rule free_law)

lemma mem_init_inv: "mem_inv mem_init [(0, MEM_SIZE_ALIGNED, False)]"
  by (simp add: mem_inv_def mem_init_def mem_sizes)

section \<open>Properties\<close>

text \<open>C28: a client of the heap is safe. Starting with \<open>mem_init\<close>, after any sequence of \<open>mem_malloc\<close>
  (of any 16-bit sizes, also when NULL is returned) and \<open>mem_free\<close> of regions that are owned, in any
  order: the regions owned are pairwise disjoint; the next allocation, of any size, does not fail an
  assertion, follow a broken link or loop, and gives NULL or a region large enough and disjoint from
  all others; and every owned region can be released, which changes no other.\<close>

theorem heap_client_safe:
  assumes "client_run mem_malloc (\<lambda>p. mem_free (Some p)) heap_owned mem_init h"
  shows "disjoint_regions (heap_owned h) \<and>
    (\<forall>sz. \<exists>r h'. mem_malloc sz h = Some (r, h') \<and> grants (heap_owned h) (unat sz) r (heap_owned h')) \<and>
    (\<forall>p e. (p, e) \<in> heap_owned h \<longrightarrow> (\<exists>h'. mem_free (Some p) h = Some h' \<and> heap_owned h' = heap_owned h - {(p, e)}))"
proof -
  have "heap_inv mem_init" "heap_owned mem_init = {}"
    using mem_init_inv heap_owned_eq [OF mem_init_inv] by (auto simp: heap_inv_def)
  then show ?thesis by (rule heap.run_safe [OF assms])
qed

theorem heap_client_safe_witness:
  "\<exists>h p q. client_run mem_malloc (\<lambda>p. mem_free (Some p)) heap_owned mem_init h \<and>
     {(p, 106), (q, 312)} \<subseteq> heap_owned h \<and> p \<noteq> q \<and> (106 \<le> q \<or> 312 \<le> p)"
proof -
  have "fits 100 (0, MEM_SIZE_ALIGNED, False)" by (simp add: fits_def mem_sizes)
  then obtain h1 where h1: "mem_malloc 100 mem_init = Some (Some 6, h1)" "mem_inv h1 [(0, 106, True), (106, 16000, False)]"
    using mem_malloc_first [of mem_init "[]" 0 MEM_SIZE_ALIGNED "[]" 100] mem_init_inv
    by (auto simp: taken_def mem_sizes)
  then obtain h2 where h2: "mem_malloc 200 h1 = Some (Some 112, h2)"
    "mem_inv h2 [(0, 106, True), (106, 312, True), (312, 16000, False)]"
    using mem_malloc_first [of h1 "[(0, 106, True)]" 106 16000 "[]" 200]
    by (auto simp: taken_def mem_sizes fits_def)
  have r: "client_run mem_malloc (\<lambda>p. mem_free (Some p)) heap_owned mem_init h2"
    by (rule client_run.got [where alloc = mem_malloc, OF _ h2(1)], rule client_run.got [where alloc = mem_malloc, OF _ h1(1)])
      (rule client_run.idle)
  have o: "heap_owned h2 = {(6, 106), (112, 312)}" using heap_owned_eq [OF h2(2)] by (auto simp: mem_sizes)
  from heap_client_safe [OF r] have "disjoint_regions (heap_owned h2)" by blast
  then show ?thesis using r o unfolding disjoint_regions_def
    by (intro exI [of _ h2] exI [of _ 6] exI [of _ 112]) auto
qed

text \<open>C29: \<open>mem_malloc\<close> is first fit and complete. On a well-formed heap it returns NULL without any
  change exactly when no free block has room for the size (raised to the minimum of 12 bytes), and
  otherwise the first such block; the rest is split off as a free block if it can hold 12 bytes with
  its header; all other blocks stay as they are, and the result is well formed: the doubly linked
  list is intact, no two free blocks touch, and \<open>lfree\<close> is the lowest free block.\<close>

theorem mem_malloc_first_fit:
  assumes "mem_inv h xs" "sz \<noteq> 0"
  defines "n \<equiv> max (unat sz) MIN_SIZE_ALIGNED"
  shows "(\<forall>x\<in>set xs. \<not> fits n x) \<and> mem_malloc sz h = Some (None, h) \<or>
    (\<exists>ys a e zs h'. xs = ys @ (a, e, False) # zs \<and> (\<forall>x\<in>set ys. \<not> fits n x) \<and> fits n (a, e, False) \<and>
       mem_malloc sz h = Some (Some (a + SIZEOF_STRUCT_MEM), h') \<and> mem_inv h' (ys @ taken n a e @ zs))"
proof (cases "\<forall>x\<in>set xs. \<not> fits n x")
  case True
  then show ?thesis using mem_malloc_none [OF assms(1), of sz] by (simp add: n_def)
next
  case False
  then have "\<exists>x\<in>set xs. fits n x" by blast
  then obtain ys x zs where x: "xs = ys @ x # zs" "fits n x" "\<forall>y\<in>set ys. \<not> fits n y"
    using split_list_first_prop [of xs "fits n"] by blast
  obtain a e where ae: "x = (a, e, False)" using x(2) by (cases x) (auto simp: fits_def)
  then show ?thesis using mem_malloc_first [of h ys a e zs sz] assms x unfolding n_def by blast
qed

theorem mem_malloc_first_fit_witness:
  "\<exists>h'. mem_malloc 100 mem_init = Some (Some 6, h') \<and> mem_inv h' [(0, 106, True), (106, 16000, False)]"
proof -
  have f: "fits 100 (0, MEM_SIZE_ALIGNED, False)" by (simp add: fits_def mem_sizes)
  from mem_malloc_first_fit [OF mem_init_inv, of 100] f obtain ys a e zs h' where
    h': "[(0, MEM_SIZE_ALIGNED, False)] = ys @ (a, e, False) # zs"
    "mem_malloc 100 mem_init = Some (Some (a + SIZEOF_STRUCT_MEM), h')" "mem_inv h' (ys @ taken 100 a e @ zs)"
    by (auto simp: mem_sizes)
  then have "ys = [] \<and> a = 0 \<and> e = MEM_SIZE_ALIGNED \<and> zs = []" by (simp add: Cons_eq_append_conv)
  with h' show ?thesis by (simp add: taken_def mem_sizes)
qed

lemma mem_calloc_overflows:
  assumes "mem_calloc count' sz h = Some (Some p, h', n)"
  shows "n = unat count' * unat sz \<and> mem_malloc (count' * sz) h = Some (Some p, h') \<and>
    unat (count' * sz) = n mod 65536"
proof -
  from assms have m: "mem_malloc (count' * sz) h = Some (Some p, h')" "n = unat count' * unat sz"
    by (auto simp: mem_calloc_def bind_eq_Some_conv)
  then show ?thesis by (simp add: unat_word_ariths)
qed

end
