(* ===== verification/Memp.thy ===== *)
theory Memp
  imports Prelude Allocator
begin

text \<open>
  The memory pools, \<^verbatim>\<open>lwip/src/core/memp.c\<close> without overflow and sanity checks. The elements of a
  pool lie one after the other from \<^verbatim>\<open>base\<close> on; the free ones form a linked list through
  \<^verbatim>\<open>struct memp\<close>, which lies at the start of the element itself. \<open>links\<close> maps the address of an
  element to its \<^verbatim>\<open>next\<close> pointer, \<open>tabs\<close> gives the head of the free list of each pool.
  \<open>None\<close> is a failed assertion or an access outside the elements.
\<close>

section \<open>Data\<close>

record memp_desc =
  desc_size :: nat
  desc_num :: nat
  desc_base :: nat

record memp_state =
  links :: "nat \<rightharpoonup> nat option"
  tabs :: "nat \<Rightarrow> nat option"

definition MEMP_SIZE :: nat where "MEMP_SIZE = 0"

section \<open>Operations\<close>

text \<open>The loop of \<^verbatim>\<open>memp_init_pool\<close>: \<open>n\<close> elements from \<open>memp\<close> on are put on the list.\<close>

fun init_elements :: "nat \<Rightarrow> nat \<Rightarrow> nat \<Rightarrow> nat \<Rightarrow> memp_state \<Rightarrow> memp_state" where
  "init_elements i sz 0 memp s = s"
| "init_elements i sz (Suc n) memp s =
     init_elements i sz n (memp + MEMP_SIZE + sz)
       (s\<lparr>links := (links s)(memp \<mapsto> tabs s i), tabs := (tabs s)(i := Some memp)\<rparr>)"

definition memp_init_pool :: "memp_desc list \<Rightarrow> nat \<Rightarrow> memp_state \<Rightarrow> memp_state" where
  "memp_init_pool pools i s =
     (let d = pools ! i
      in init_elements i (desc_size d) (desc_num d) (desc_base d) (s\<lparr>tabs := (tabs s)(i := None)\<rparr>))"

definition memp_init :: "memp_desc list \<Rightarrow> memp_state \<Rightarrow> memp_state" where
  "memp_init pools s = fold (memp_init_pool pools) [0..<length pools] s"

definition do_memp_malloc_pool :: "nat \<Rightarrow> memp_state \<Rightarrow> (nat option \<times> memp_state) option" where
  "do_memp_malloc_pool i s =
     (case tabs s i of
        None \<Rightarrow> Some (None, s)
      | Some memp \<Rightarrow> do {
          n \<leftarrow> links s memp;
          Some (Some (memp + MEMP_SIZE), s\<lparr>tabs := (tabs s)(i := n)\<rparr>)
        })"

definition memp_malloc_pool :: "nat option \<Rightarrow> memp_state \<Rightarrow> (nat option \<times> memp_state) option" where
  "memp_malloc_pool desc s = do { i \<leftarrow> desc; do_memp_malloc_pool i s }"

definition memp_malloc :: "memp_desc list \<Rightarrow> nat \<Rightarrow> memp_state \<Rightarrow> (nat option \<times> memp_state) option" where
  "memp_malloc pools type s = do { lwip_assert (type < length pools); do_memp_malloc_pool type s }"

definition do_memp_free_pool :: "nat \<Rightarrow> nat \<Rightarrow> memp_state \<Rightarrow> memp_state option" where
  "do_memp_free_pool i mem s = do {
     lwip_assert (MEMP_SIZE \<le> mem);
     let memp = mem - MEMP_SIZE;
     _ \<leftarrow> links s memp;
     Some (s\<lparr>links := (links s)(memp \<mapsto> tabs s i), tabs := (tabs s)(i := Some memp)\<rparr>)
   }"

definition memp_free_pool :: "nat option \<Rightarrow> nat option \<Rightarrow> memp_state \<Rightarrow> memp_state option" where
  "memp_free_pool desc mem s = do {
     i \<leftarrow> desc;
     (case mem of None \<Rightarrow> Some s | Some m \<Rightarrow> do_memp_free_pool i m s)
   }"

definition memp_free :: "memp_desc list \<Rightarrow> nat \<Rightarrow> nat option \<Rightarrow> memp_state \<Rightarrow> memp_state option" where
  "memp_free pools type mem s = do {
     lwip_assert (type < length pools);
     (case mem of None \<Rightarrow> Some s | Some m \<Rightarrow> do_memp_free_pool type m s)
   }"

section \<open>Free lists\<close>

fun free_list :: "(nat \<rightharpoonup> nat option) \<Rightarrow> nat option \<Rightarrow> nat list \<Rightarrow> bool" where
  "free_list L p [] \<longleftrightarrow> p = None"
| "free_list L p (a # as) \<longleftrightarrow> p = Some a \<and> (\<exists>n. L a = Some n \<and> free_list L n as)"

text \<open>The elements of a pool.\<close>

definition elements :: "memp_desc \<Rightarrow> nat set" where
  "elements d = (\<lambda>k. desc_base d + k * (MEMP_SIZE + desc_size d)) ` {..<desc_num d}"

definition free_inv :: "memp_desc \<Rightarrow> nat \<Rightarrow> memp_state \<Rightarrow> nat list \<Rightarrow> bool" where
  "free_inv d i s as \<longleftrightarrow> free_list (links s) (tabs s i) as \<and> distinct as \<and> set as \<subseteq> elements d \<and>
     elements d \<subseteq> dom (links s)"

lemma free_list_upd: "a \<notin> set as \<Longrightarrow> free_list (L(a := v)) p as = free_list L p as"
  by (induction as arbitrary: p) auto

lemma free_list_unique: "free_list L p as \<Longrightarrow> free_list L p bs \<Longrightarrow> as = bs"
proof (induction as arbitrary: p bs)
  case (Cons a as)
  then show ?case by (cases bs) auto
qed (metis free_list.elims(2) free_list.simps(1) option.distinct(1))

lemma elements_disjoint:
  assumes "a \<in> elements d" "b \<in> elements d" "a \<noteq> b"
  shows "a + desc_size d \<le> b \<or> b + desc_size d \<le> a"
proof -
  obtain j k where jk: "a = desc_base d + j * desc_size d" "b = desc_base d + k * desc_size d"
    using assms(1,2) by (auto simp: elements_def MEMP_SIZE_def)
  then have "j < k \<or> k < j" using assms(3) by (auto simp: linorder_neq_iff)
  then have "Suc j \<le> k \<or> Suc k \<le> j" by auto
  then have "Suc j * desc_size d \<le> k * desc_size d \<or> Suc k * desc_size d \<le> j * desc_size d"
    using mult_le_mono1 by blast
  then show ?thesis using jk by auto
qed

section \<open>A pool as an allocator\<close>

definition memp_inv :: "memp_desc list \<Rightarrow> nat \<Rightarrow> memp_state \<Rightarrow> bool" where
  "memp_inv pools i s \<longleftrightarrow> i < length pools \<and> (\<exists>as. free_inv (pools ! i) i s as)"

definition memp_owned :: "memp_desc list \<Rightarrow> nat \<Rightarrow> memp_state \<Rightarrow> (nat \<times> nat) set" where
  "memp_owned pools i s =
     {(a, a + desc_size (pools ! i)) | a. a \<in> elements (pools ! i) \<and>
        (\<forall>as. free_inv (pools ! i) i s as \<longrightarrow> a \<notin> set as)}"

lemma memp_owned_eq:
  assumes "free_inv (pools ! i) i s as"
  shows "memp_owned pools i s = {(a, a + desc_size (pools ! i)) | a. a \<in> elements (pools ! i) - set as}"
proof -
  have "bs = as" if "free_inv (pools ! i) i s bs" for bs
    using that assms free_list_unique unfolding free_inv_def by blast
  then show ?thesis using assms unfolding memp_owned_def by blast
qed

lemma memp_malloc_law:
  assumes "memp_inv pools i s"
  shows "\<exists>r s'. memp_malloc pools i s = Some (r, s') \<and> memp_inv pools i s' \<and>
    grants (memp_owned pools i s) (desc_size (pools ! i)) r (memp_owned pools i s')"
proof -
  obtain as where i: "i < length pools" and inv: "free_inv (pools ! i) i s as" using assms by (auto simp: memp_inv_def)
  show ?thesis
  proof (cases as)
    case Nil
    then have "memp_malloc pools i s = Some (None, s)" using inv i by (simp add: memp_malloc_def do_memp_malloc_pool_def free_inv_def)
    then show ?thesis using assms by (simp add: grants_def)
  next
    case (Cons a bs)
    then obtain n where n: "tabs s i = Some a" "links s a = Some n" "free_list (links s) n bs" using inv by (auto simp: free_inv_def)
    let ?s = "s\<lparr>tabs := (tabs s)(i := n)\<rparr>"
    have m: "memp_malloc pools i s = Some (Some a, ?s)" using i n by (simp add: memp_malloc_def do_memp_malloc_pool_def MEMP_SIZE_def)
    have inv': "free_inv (pools ! i) i ?s bs" using inv n Cons by (simp add: free_inv_def)
    have a: "a \<in> elements (pools ! i)" "a \<notin> set bs" using inv Cons by (auto simp: free_inv_def)
    have o: "memp_owned pools i ?s = insert (a, a + desc_size (pools ! i)) (memp_owned pools i s)"
      using memp_owned_eq [OF inv] memp_owned_eq [OF inv'] a Cons by auto
    have "a + desc_size (pools ! i) \<le> q \<or> f \<le> a" if "(q, f) \<in> memp_owned pools i s" for q f
      using that elements_disjoint [OF a(1), of q] Cons unfolding memp_owned_eq [OF inv] by auto
    then show ?thesis using m inv' o i
      by (intro exI [of _ "Some a"] exI [of _ ?s]) (auto simp: memp_inv_def grants_def)
  qed
qed

lemma memp_free_law:
  assumes "memp_inv pools i s" "(p, e) \<in> memp_owned pools i s"
  shows "\<exists>s'. memp_free pools i (Some p) s = Some s' \<and> memp_inv pools i s' \<and>
    memp_owned pools i s' = memp_owned pools i s - {(p, e)}"
proof -
  obtain as where i: "i < length pools" and inv: "free_inv (pools ! i) i s as" using assms by (auto simp: memp_inv_def)
  have p: "p \<in> elements (pools ! i)" "p \<notin> set as" "e = p + desc_size (pools ! i)"
    using assms(2) unfolding memp_owned_eq [OF inv] by auto
  then obtain n where "links s p = Some n" using inv by (auto simp: free_inv_def)
  let ?s = "s\<lparr>links := (links s)(p \<mapsto> tabs s i), tabs := (tabs s)(i := Some p)\<rparr>"
  have m: "memp_free pools i (Some p) s = Some ?s"
    using i \<open>links s p = Some n\<close> by (simp add: memp_free_def do_memp_free_pool_def MEMP_SIZE_def)
  have inv': "free_inv (pools ! i) i ?s (p # as)" using inv p by (auto simp: free_inv_def free_list_upd)
  have "memp_owned pools i ?s = memp_owned pools i s - {(p, e)}"
    unfolding memp_owned_eq [OF inv] memp_owned_eq [OF inv'] using p by auto
  then show ?thesis using m inv' i by (auto simp: memp_inv_def)
qed

interpretation pool: allocator "memp_inv pools i" "memp_owned pools i" "\<lambda>_ :: unit. desc_size (pools ! i)"
    "\<lambda>_. memp_malloc pools i" "\<lambda>p. memp_free pools i (Some p)" for pools i
  by unfold_locales (rule memp_malloc_law, assumption, rule memp_free_law)

section \<open>Initialisation\<close>

lemma init_elements_inv:
  "free_list (links s) (tabs s i) as \<Longrightarrow> distinct as \<Longrightarrow> 0 < sz \<Longrightarrow>
   (\<forall>a\<in>set as. a < b) \<Longrightarrow>
   (\<exists>bs. free_list (links (init_elements i sz n b s)) (tabs (init_elements i sz n b s) i) (bs @ as) \<and> distinct (bs @ as) \<and>
      set bs = (\<lambda>k. b + k * sz) ` {..<n} \<and> set bs \<subseteq> dom (links (init_elements i sz n b s)) \<and>
      dom (links s) \<subseteq> dom (links (init_elements i sz n b s)))"
proof (induction n arbitrary: b s as)
  case (Suc n)
  let ?s = "s\<lparr>links := (links s)(b \<mapsto> tabs s i), tabs := (tabs s)(i := Some b)\<rparr>"
  let ?t = "init_elements i sz n (b + sz) ?s"
  have b: "b \<notin> set as" using Suc.prems(4) by auto
  have "free_list (links ?s) (tabs ?s i) (b # as)" "distinct (b # as)" "\<forall>a\<in>set (b # as). a < b + sz"
    using Suc.prems b by (auto simp: free_list_upd)
  from Suc.IH [OF this(1,2) Suc.prems(3) this(3)] obtain bs where bs:
    "free_list (links ?t) (tabs ?t i) (bs @ b # as)" "distinct (bs @ b # as)" "set bs = (\<lambda>k. b + sz + k * sz) ` {..<n}"
    "set bs \<subseteq> dom (links ?t)" "dom (links ?s) \<subseteq> dom (links ?t)" by blast
  have "insert b ((\<lambda>k. b + sz + k * sz) ` {..<n}) = (\<lambda>k. b + k * sz) ` {..<Suc n}"
    by (auto simp: lessThan_Suc_eq_insert_0 image_image)
  then have set: "set (bs @ [b]) = (\<lambda>k. b + k * sz) ` {..<Suc n}" using bs(3) by simp
  have dom: "set (bs @ [b]) \<subseteq> dom (links ?t)" "dom (links s) \<subseteq> dom (links ?t)" using bs(4,5) by auto
  have t: "init_elements i sz (Suc n) b s = ?t" by (simp add: MEMP_SIZE_def)
  show ?case unfolding t by (intro exI [of _ "bs @ [b]"] conjI set dom) (use bs(1,2) in simp_all)
qed (auto intro: exI [of _ "[]"])

lemma memp_init_pool_inv:
  assumes "i < length pools" "0 < desc_size (pools ! i)"
  shows "memp_inv pools i (memp_init_pool pools i s) \<and> memp_owned pools i (memp_init_pool pools i s) = {}"
proof -
  let ?d = "pools ! i" and ?s = "memp_init_pool pools i s"
  obtain bs where bs: "free_list (links ?s) (tabs ?s i) bs" "distinct bs"
    "set bs = (\<lambda>k. desc_base ?d + k * desc_size ?d) ` {..<desc_num ?d}" "set bs \<subseteq> dom (links ?s)"
    using init_elements_inv [of "s\<lparr>tabs := (tabs s)(i := None)\<rparr>" i "[]" "desc_size ?d" "desc_base ?d" "desc_num ?d"] assms(2)
    by (auto simp: memp_init_pool_def Let_def)
  then have inv: "free_inv ?d i ?s bs" by (auto simp: free_inv_def elements_def MEMP_SIZE_def)
  then have "memp_owned pools i ?s = {}" using bs(3) by (auto simp: memp_owned_eq elements_def MEMP_SIZE_def)
  with inv assms(1) show ?thesis by (auto simp: memp_inv_def)
qed

text \<open>C30: after the initialisation of a pool, any sequence of allocations and releases of owned elements
  keeps the elements handed out disjoint; the next allocation gives NULL or a new element disjoint
  from all others, and every element handed out can be released, which changes no other.\<close>

theorem memp_client_safe:
  assumes "i < length pools" "0 < desc_size (pools ! i)"
    and "client_run (\<lambda>_ :: unit. memp_malloc pools i) (\<lambda>p. memp_free pools i (Some p)) (memp_owned pools i)
      (memp_init_pool pools i s) t"
  shows "disjoint_regions (memp_owned pools i t) \<and>
    (\<exists>r u. memp_malloc pools i t = Some (r, u) \<and>
       grants (memp_owned pools i t) (desc_size (pools ! i)) r (memp_owned pools i u)) \<and>
    (\<forall>p e. (p, e) \<in> memp_owned pools i t \<longrightarrow>
       (\<exists>u. memp_free pools i (Some p) t = Some u \<and> memp_owned pools i u = memp_owned pools i t - {(p, e)}))"
  using pool.run_safe [OF assms(3)] memp_init_pool_inv [OF assms(1,2), of s] by blast

definition example_pools :: "memp_desc list" where
  "example_pools = [\<lparr>desc_size = 16, desc_num = 2, desc_base = 100\<rparr>]"

definition example_pool_state :: memp_state where
  "example_pool_state = \<lparr>links = Map.empty, tabs = \<lambda>_. None\<rparr>"

text \<open>The pool of two elements after both have been taken.\<close>

definition example_taken :: memp_state where
  "example_taken = \<lparr>links = [100 \<mapsto> None, 116 \<mapsto> Some 100], tabs = (\<lambda>_. None)\<rparr>"

lemma example_taken_run:
  "client_run (\<lambda>_ :: unit. memp_malloc example_pools 0) (\<lambda>p. memp_free example_pools 0 (Some p)) (memp_owned example_pools 0)
     (memp_init_pool example_pools 0 example_pool_state) example_taken"
proof -
  let ?m = "\<lambda>t. \<lparr>links = [100 \<mapsto> None, 116 \<mapsto> Some 100], tabs = t\<rparr>"
  have i: "memp_init_pool example_pools 0 example_pool_state = ?m (\<lambda>i. if i = 0 then Some 116 else None)"
    by (auto simp: memp_init_pool_def example_pools_def example_pool_state_def Let_def MEMP_SIZE_def numeral_2_eq_2 fun_eq_iff)
  have "memp_malloc example_pools 0 (?m (\<lambda>i. if i = 0 then Some 116 else None)) =
      Some (Some 116, ?m (\<lambda>i. if i = 0 then Some 100 else None))"
    by (auto simp: memp_malloc_def do_memp_malloc_pool_def example_pools_def MEMP_SIZE_def fun_eq_iff)
  moreover have "memp_malloc example_pools 0 (?m (\<lambda>i. if i = 0 then Some 100 else None)) = Some (Some 100, example_taken)"
    by (auto simp: memp_malloc_def do_memp_malloc_pool_def example_pools_def MEMP_SIZE_def example_taken_def fun_eq_iff)
  ultimately show ?thesis unfolding i by (blast intro: client_run.intros)
qed

lemma example_taken_inv: "free_inv (example_pools ! 0) 0 example_taken []"
  by (auto simp: free_inv_def example_taken_def example_pools_def elements_def MEMP_SIZE_def lessThan_Suc numeral_2_eq_2)

lemma example_taken_owned: "memp_owned example_pools 0 example_taken = {(100, 116), (116, 132)}"
  unfolding memp_owned_eq [OF example_taken_inv]
  by (auto simp: example_pools_def elements_def MEMP_SIZE_def lessThan_Suc numeral_2_eq_2)

theorem memp_client_safe_witness:
  "disjoint_regions {(100, 116), (116, 132)} \<and> memp_free example_pools 0 (Some 116) example_taken \<noteq> None"
proof -
  have "(116, 132) \<in> memp_owned example_pools 0 example_taken" by (simp add: example_taken_owned)
  moreover have "0 < length example_pools" "0 < desc_size (example_pools ! 0)" by (simp_all add: example_pools_def)
  ultimately show ?thesis using memp_client_safe [OF _ _ example_taken_run] example_taken_owned by force
qed

end
