(* ===== verification/Ethernet.thy ===== *)
theory Ethernet
  imports Pbuf Ip4Addr
begin

text \<open>
  Ethernet frames and the ARP cache: data and output of \<^verbatim>\<open>lwip/src/netif/ethernet.c\<close> and
  \<^verbatim>\<open>lwip/src/core/ipv4/etharp.c\<close>. The state is the ARP table, the entry cached for the output
  path, the pbuf store and the log of the calls of \<^verbatim>\<open>netif->linkoutput\<close>, each with the store at
  the time of the call. A hardware address is a list of six bytes, an interface is named by a
  number. Statistics counters are left out.

  The environment gives the interfaces with their list and the default one, \<^verbatim>\<open>mem_malloc\<close>, and the
  result of the driver's \<^verbatim>\<open>linkoutput\<close> (the driver reads the packet and leaves it with the caller).
  The state can be extended by the layers above.
\<close>

section \<open>Data\<close>

datatype etharp_state =
    ETHARP_STATE_EMPTY | ETHARP_STATE_PENDING | ETHARP_STATE_STABLE
  | ETHARP_STATE_STABLE_REREQUESTING_1 | ETHARP_STATE_STABLE_REREQUESTING_2

record etharp_entry =
  arp_q :: "nat option"
  arp_ip :: u32
  arp_netif :: "nat option"
  ethaddr :: bytes
  ctime :: u16
  arp_state :: etharp_state

record arp =
  arp_table :: "etharp_entry list"
  etharp_cached_entry :: nat
  pheap :: pbuf_heap
  sent :: "(nat \<times> nat \<times> pbuf_heap) list"

record netif =
  hwaddr :: bytes
  hwaddr_len :: nat
  ip_addr :: u32
  netmask :: u32
  gw :: u32
  mtu :: u16
  netif_flags :: u8

record link_env =
  netif_list :: "nat list"
  netif_default :: "nat option"
  netif_of :: "nat \<Rightarrow> netif"
  link_malloc :: "pbuf_heap \<Rightarrow> u16 \<Rightarrow> nat option"
  linkoutput :: "nat \<Rightarrow> nat \<Rightarrow> pbuf_heap \<Rightarrow> err_t"

definition ARP_TABLE_SIZE :: nat where "ARP_TABLE_SIZE = 10"
definition ARP_MAXAGE :: u16 where "ARP_MAXAGE = 300"
definition ARP_MAXPENDING :: u16 where "ARP_MAXPENDING = 5"
definition ARP_AGE_REREQUEST_USED_UNICAST :: u16 where "ARP_AGE_REREQUEST_USED_UNICAST = ARP_MAXAGE - 30"
definition ARP_AGE_REREQUEST_USED_BROADCAST :: u16 where "ARP_AGE_REREQUEST_USED_BROADCAST = ARP_MAXAGE - 15"
definition ETHARP_FLAG_TRY_HARD :: u8 where "ETHARP_FLAG_TRY_HARD = 1"
definition ETHARP_FLAG_FIND_ONLY :: u8 where "ETHARP_FLAG_FIND_ONLY = 2"
definition ETH_HWADDR_LEN :: nat where "ETH_HWADDR_LEN = 6"
definition SIZEOF_ETH_HDR :: nat where "SIZEOF_ETH_HDR = 14"
definition SIZEOF_ETHARP_HDR :: nat where "SIZEOF_ETHARP_HDR = 28"
definition ETHTYPE_IP :: u16 where "ETHTYPE_IP = 0x0800"
definition ETHTYPE_ARP :: u16 where "ETHTYPE_ARP = 0x0806"
definition HWTYPE_ETHERNET :: u16 where "HWTYPE_ETHERNET = 1"
definition ARP_REQUEST :: u16 where "ARP_REQUEST = 1"
definition ARP_REPLY :: u16 where "ARP_REPLY = 2"
definition NETIF_FLAG_BROADCAST :: u8 where "NETIF_FLAG_BROADCAST = 0x02"
definition NETIF_FLAG_ETHARP :: u8 where "NETIF_FLAG_ETHARP = 0x08"
definition LL_IP4_MULTICAST_ADDR_0 :: u8 where "LL_IP4_MULTICAST_ADDR_0 = 0x01"
definition LL_IP4_MULTICAST_ADDR_1 :: u8 where "LL_IP4_MULTICAST_ADDR_1 = 0x00"
definition LL_IP4_MULTICAST_ADDR_2 :: u8 where "LL_IP4_MULTICAST_ADDR_2 = 0x5e"
definition ethbroadcast :: bytes where "ethbroadcast = replicate 6 0xff"
definition ethzero :: bytes where "ethzero = replicate 6 0"

text \<open>The macro \<^verbatim>\<open>ip4_addr_isbroadcast\<close>.\<close>

definition ip4_addr_isbroadcast :: "u32 \<Rightarrow> netif \<Rightarrow> bool" where
  "ip4_addr_isbroadcast addr ni =
     ip4_addr_isbroadcast_u32 addr (netif_flags ni AND NETIF_FLAG_BROADCAST \<noteq> 0) (ip_addr ni) (netmask ni)"

text \<open>The comparison \<^verbatim>\<open>state >= ETHARP_STATE_STABLE\<close>.\<close>

fun stable :: "etharp_state \<Rightarrow> bool" where
  "stable ETHARP_STATE_EMPTY = False"
| "stable ETHARP_STATE_PENDING = False"
| "stable _ = True"

definition empty_entry :: etharp_entry where
  "empty_entry = \<lparr>arp_q = None, arp_ip = 0, arp_netif = None, ethaddr = ethzero, ctime = 0,
     arp_state = ETHARP_STATE_EMPTY\<rparr>"

section \<open>Access to the state\<close>

definition table_get :: "nat \<Rightarrow> 'a arp_scheme \<Rightarrow> etharp_entry option" where
  "table_get i s = (if i < length (arp_table s) then Some (arp_table s ! i) else None)"

abbreviation table_set :: "nat \<Rightarrow> etharp_entry \<Rightarrow> 'a arp_scheme \<Rightarrow> 'a arp_scheme" where
  "table_set i e s \<equiv> s\<lparr>arp_table := (arp_table s)[i := e]\<rparr>"

text \<open>\<^verbatim>\<open>pbuf_free\<close> on the store of the state; its result is not used here.\<close>

definition free_pbuf :: "nat \<Rightarrow> 'a arp_scheme \<Rightarrow> 'a arp_scheme option" where
  "free_pbuf p s = do { (_, h) \<leftarrow> pbuf_free (Some p) (pheap s); Some (s\<lparr>pheap := h\<rparr>) }"

text \<open>Writing \<open>ds\<close> at \<^verbatim>\<open>payload + off\<close> of a pbuf.\<close>

definition poke :: "nat \<Rightarrow> nat \<Rightarrow> bytes \<Rightarrow> 'a arp_scheme \<Rightarrow> 'a arp_scheme option" where
  "poke p off ds s = do {
     b \<leftarrow> pbufs (pheap s) p;
     b \<leftarrow> payload_write b off ds;
     Some (s\<lparr>pheap := put p b (pheap s)\<rparr>)
   }"

definition peek_at :: "nat \<Rightarrow> nat \<Rightarrow> nat \<Rightarrow> 'a arp_scheme \<Rightarrow> bytes option" where
  "peek_at p off n s = do { b \<leftarrow> pbufs (pheap s) p; payload_read b off n }"

definition peek16 :: "nat \<Rightarrow> nat \<Rightarrow> 'a arp_scheme \<Rightarrow> u16 option" where
  "peek16 p off s = do { ds \<leftarrow> peek_at p off 2 s; Some (le16_of_bytes (ds ! 0) (ds ! 1)) }"

definition peek32 :: "nat \<Rightarrow> nat \<Rightarrow> 'a arp_scheme \<Rightarrow> u32 option" where
  "peek32 p off s = do { ds \<leftarrow> peek_at p off 4 s; Some (le32_of_bytes (ds ! 0) (ds ! 1) (ds ! 2) (ds ! 3)) }"

section \<open>Output of a frame\<close>

text \<open>\<^verbatim>\<open>struct eth_hdr\<close> in memory; the type is in network byte order.\<close>

definition eth_hdr :: "bytes \<Rightarrow> bytes \<Rightarrow> u16 \<Rightarrow> bytes" where
  "eth_hdr dest src type = dest @ src @ le16_bytes type"

definition ethernet_output ::
  "link_env \<Rightarrow> nat \<Rightarrow> nat \<Rightarrow> bytes \<Rightarrow> bytes \<Rightarrow> u16 \<Rightarrow> 'a arp_scheme \<Rightarrow> (err_t \<times> 'a arp_scheme) option" where
  "ethernet_output env ni p src dst eth_type s = do {
     (failed, h) \<leftarrow> pbuf_header (Some p) (int SIZEOF_ETH_HDR) (pheap s);
     if failed \<noteq> 0 then Some (ERR_BUF, s\<lparr>pheap := h\<rparr>)
     else do {
       s \<leftarrow> poke p 0 (eth_hdr dst src (lwip_htons eth_type)) (s\<lparr>pheap := h\<rparr>);
       lwip_assert (hwaddr_len (netif_of env ni) = ETH_HWADDR_LEN);
       Some (linkoutput env ni p (pheap s), s\<lparr>sent := sent s @ [(ni, p, pheap s)]\<rparr>)
     }
   }"

section \<open>ARP requests\<close>

definition etharp_raw ::
  "link_env \<Rightarrow> nat \<Rightarrow> bytes \<Rightarrow> bytes \<Rightarrow> bytes \<Rightarrow> u32 \<Rightarrow> bytes \<Rightarrow> u32 \<Rightarrow> u16 \<Rightarrow> 'a arp_scheme \<Rightarrow> (err_t \<times> 'a arp_scheme) option" where
  "etharp_raw env ni ethsrc ethdst hwsrc ipsrc hwdst ipdst opcode s = do {
     (r, h) \<leftarrow> pbuf_alloc (link_malloc env (pheap s)) PBUF_LINK (of_nat SIZEOF_ETHARP_HDR) PBUF_RAM (pheap s);
     let s = s\<lparr>pheap := h\<rparr>;
     (case r of
        None \<Rightarrow> Some (ERR_MEM, s)
      | Some p \<Rightarrow> do {
          b \<leftarrow> pbufs (pheap s) p;
          lwip_assert (SIZEOF_ETHARP_HDR \<le> unat (len b));
          s \<leftarrow> poke p 6 (le16_bytes (lwip_htons opcode)) s;
          lwip_assert (hwaddr_len (netif_of env ni) = ETH_HWADDR_LEN);
          s \<leftarrow> poke p 8 hwsrc s;
          s \<leftarrow> poke p 18 hwdst s;
          s \<leftarrow> poke p 14 (le32_bytes ipsrc) s;
          s \<leftarrow> poke p 24 (le32_bytes ipdst) s;
          s \<leftarrow> poke p 0 (le16_bytes (PP_HTONS HWTYPE_ETHERNET)) s;
          s \<leftarrow> poke p 2 (le16_bytes (PP_HTONS ETHTYPE_IP)) s;
          s \<leftarrow> poke p 4 [of_nat ETH_HWADDR_LEN] s;
          s \<leftarrow> poke p 5 [4] s;
          (_, s) \<leftarrow> ethernet_output env ni p ethsrc ethdst ETHTYPE_ARP s;
          s \<leftarrow> free_pbuf p s;
          Some (ERR_OK, s)
        })
   }"

definition etharp_request_dst :: "link_env \<Rightarrow> nat \<Rightarrow> u32 \<Rightarrow> bytes \<Rightarrow> 'a arp_scheme \<Rightarrow> (err_t \<times> 'a arp_scheme) option" where
  "etharp_request_dst env ni ipaddr hw_dst_addr s =
     (let n = netif_of env ni
      in etharp_raw env ni (hwaddr n) hw_dst_addr (hwaddr n) (ip_addr n) ethzero ipaddr ARP_REQUEST s)"

definition etharp_request :: "link_env \<Rightarrow> nat \<Rightarrow> u32 \<Rightarrow> 'a arp_scheme \<Rightarrow> (err_t \<times> 'a arp_scheme) option" where
  "etharp_request env ni ipaddr s = etharp_request_dst env ni ipaddr ethbroadcast s"

end
