(* ===== verification/Etharp.thy ===== *)
theory Etharp
  imports Ethernet
begin

text \<open>
  The ARP cache, \<^verbatim>\<open>lwip/src/core/ipv4/etharp.c\<close>, and the input of frames,
  \<^verbatim>\<open>ethernet_input\<close> of \<^verbatim>\<open>lwip/src/netif/ethernet.c\<close>, without packet queues
  (\<^verbatim>\<open>ARP_QUEUEING\<close> is 0: at most one packet waits on an entry), static entries, hints per
  connection, VLANs and AUTOIP.
\<close>

section \<open>Entries\<close>

definition etharp_free_entry :: "nat \<Rightarrow> 'a arp_scheme \<Rightarrow> 'a arp_scheme option" where
  "etharp_free_entry i s = do {
     e \<leftarrow> table_get i s;
     s \<leftarrow> (case arp_q e of None \<Rightarrow> Some s | Some p \<Rightarrow> free_pbuf p s);
     Some (table_set i empty_entry s)
   }"

text \<open>
  The candidates that the search sweep of \<^verbatim>\<open>etharp_find_entry\<close> remembers;
  \<^const>\<open>ARP_TABLE_SIZE\<close> stands for none.
\<close>

record candidates =
  empty :: nat
  old_stable :: nat
  age_stable :: u16
  old_pending :: nat
  age_pending :: u16
  old_queue :: nat
  age_queue :: u16

definition no_candidates :: candidates where
  "no_candidates = \<lparr>empty = ARP_TABLE_SIZE, old_stable = ARP_TABLE_SIZE, age_stable = 0,
     old_pending = ARP_TABLE_SIZE, age_pending = 0, old_queue = ARP_TABLE_SIZE, age_queue = 0\<rparr>"

definition remember :: "nat \<Rightarrow> etharp_entry \<Rightarrow> candidates \<Rightarrow> candidates" where
  "remember i e c =
     (if arp_state e = ETHARP_STATE_PENDING then
        if arp_q e \<noteq> None then
          if age_queue c \<le> ctime e then c\<lparr>old_queue := i, age_queue := ctime e\<rparr> else c
        else if age_pending c \<le> ctime e then c\<lparr>old_pending := i, age_pending := ctime e\<rparr> else c
      else if stable (arp_state e) then
        if age_stable c \<le> ctime e then c\<lparr>old_stable := i, age_stable := ctime e\<rparr> else c
      else c)"

text \<open>The sweep over the entries from index \<open>i\<close> on: \<open>Inl\<close> is the index of a match.\<close>

fun find_sweep :: "u32 option \<Rightarrow> etharp_entry list \<Rightarrow> nat \<Rightarrow> candidates \<Rightarrow> nat + candidates" where
  "find_sweep ip [] i c = Inr c"
| "find_sweep ip (e # es) i c =
     (if empty c = ARP_TABLE_SIZE \<and> arp_state e = ETHARP_STATE_EMPTY then
        find_sweep ip es (Suc i) (c\<lparr>empty := i\<rparr>)
      else if arp_state e \<noteq> ETHARP_STATE_EMPTY then
        if ip = Some (arp_ip e) then Inl i
        else find_sweep ip es (Suc i) (remember i e c)
      else find_sweep ip es (Suc i) c)"

definition choose_recycled :: "candidates \<Rightarrow> 'a arp_scheme \<Rightarrow> nat option option" where
  "choose_recycled c s =
     (if old_stable c < ARP_TABLE_SIZE then do {
        e \<leftarrow> table_get (old_stable c) s;
        lwip_assert (arp_q e = None);
        Some (Some (old_stable c))
      }
      else if old_pending c < ARP_TABLE_SIZE then Some (Some (old_pending c))
      else if old_queue c < ARP_TABLE_SIZE then Some (Some (old_queue c))
      else Some None)"

text \<open>The end of \<^verbatim>\<open>etharp_find_entry\<close>: the empty entry \<open>i\<close> gets the address.\<close>

definition claim_entry :: "u32 option \<Rightarrow> nat \<Rightarrow> 'a arp_scheme \<Rightarrow> ((err_t + nat) \<times> 'a arp_scheme) option" where
  "claim_entry ip i s = do {
     lwip_assert (i < ARP_TABLE_SIZE);
     e \<leftarrow> table_get i s;
     lwip_assert (arp_state e = ETHARP_STATE_EMPTY);
     let e = (case ip of None \<Rightarrow> e | Some a \<Rightarrow> e\<lparr>arp_ip := a\<rparr>);
     Some (Inr i, table_set i (e\<lparr>ctime := 0\<rparr>) s)
   }"

definition etharp_find_entry :: "u32 option \<Rightarrow> u8 \<Rightarrow> 'a arp_scheme \<Rightarrow> ((err_t + nat) \<times> 'a arp_scheme) option" where
  "etharp_find_entry ip fl s =
     (case find_sweep ip (arp_table s) 0 no_candidates of
        Inl i \<Rightarrow> Some (Inr i, s)
      | Inr c \<Rightarrow>
          if fl AND ETHARP_FLAG_FIND_ONLY \<noteq> 0 \<or>
             empty c = ARP_TABLE_SIZE \<and> fl AND ETHARP_FLAG_TRY_HARD = 0 then Some (Inl ERR_MEM, s)
          else if empty c < ARP_TABLE_SIZE then claim_entry ip (empty c) s
          else do {
            r \<leftarrow> choose_recycled c s;
            (case r of
               None \<Rightarrow> Some (Inl ERR_MEM, s)
             | Some i \<Rightarrow> do {
                 lwip_assert (i < ARP_TABLE_SIZE);
                 s \<leftarrow> etharp_free_entry i s;
                 claim_entry ip i s
               })
          })"

section \<open>Ageing\<close>

definition tmr_entry :: "link_env \<Rightarrow> nat \<Rightarrow> 'a arp_scheme \<Rightarrow> 'a arp_scheme option" where
  "tmr_entry env i s = do {
     e \<leftarrow> table_get i s;
     if arp_state e \<noteq> ETHARP_STATE_EMPTY then do {
       let e = e\<lparr>ctime := ctime e + 1\<rparr>;
       let s = table_set i e s;
       if ARP_MAXAGE \<le> ctime e \<or> arp_state e = ETHARP_STATE_PENDING \<and> ARP_MAXPENDING \<le> ctime e then
         etharp_free_entry i s
       else if arp_state e = ETHARP_STATE_STABLE_REREQUESTING_1 then
         Some (table_set i (e\<lparr>arp_state := ETHARP_STATE_STABLE_REREQUESTING_2\<rparr>) s)
       else if arp_state e = ETHARP_STATE_STABLE_REREQUESTING_2 then
         Some (table_set i (e\<lparr>arp_state := ETHARP_STATE_STABLE\<rparr>) s)
       else if arp_state e = ETHARP_STATE_PENDING then do {
         ni \<leftarrow> arp_netif e;
         (_, s) \<leftarrow> etharp_request env ni (arp_ip e) s;
         Some s
       }
       else Some s
     }
     else Some s
   }"

text \<open>A loop over the indices of the table.\<close>

fun for_entries :: "(nat \<Rightarrow> 'a arp_scheme \<Rightarrow> 'a arp_scheme option) \<Rightarrow> nat list \<Rightarrow> 'a arp_scheme \<Rightarrow> 'a arp_scheme option" where
  "for_entries f [] s = Some s"
| "for_entries f (i # is) s = do { s \<leftarrow> f i s; for_entries f is s }"

definition etharp_tmr :: "link_env \<Rightarrow> 'a arp_scheme \<Rightarrow> 'a arp_scheme option" where
  "etharp_tmr env s = for_entries (tmr_entry env) [0..<ARP_TABLE_SIZE] s"

definition cleanup_entry :: "nat \<Rightarrow> nat \<Rightarrow> 'a arp_scheme \<Rightarrow> 'a arp_scheme option" where
  "cleanup_entry ni i s = do {
     e \<leftarrow> table_get i s;
     if arp_state e \<noteq> ETHARP_STATE_EMPTY \<and> arp_netif e = Some ni then etharp_free_entry i s else Some s
   }"

definition etharp_cleanup_netif :: "nat \<Rightarrow> 'a arp_scheme \<Rightarrow> 'a arp_scheme option" where
  "etharp_cleanup_netif ni s = for_entries (cleanup_entry ni) [0..<ARP_TABLE_SIZE] s"

section \<open>Lookup and update\<close>

text \<open>
  The index and the two addresses that \<^verbatim>\<open>etharp_find_addr\<close> hands out; \<open>None\<close> inside is -1.
\<close>

definition etharp_find_addr :: "u32 \<Rightarrow> 'a arp_scheme \<Rightarrow> ((nat \<times> bytes \<times> u32) option \<times> 'a arp_scheme) option" where
  "etharp_find_addr ip s = do {
     (r, s) \<leftarrow> etharp_find_entry (Some ip) ETHARP_FLAG_FIND_ONLY s;
     (case r of
        Inl _ \<Rightarrow> Some (None, s)
      | Inr i \<Rightarrow> do {
          e \<leftarrow> table_get i s;
          Some (if stable (arp_state e) then Some (i, ethaddr e, arp_ip e) else None, s)
        })
   }"

definition etharp_get_entry :: "u8 \<Rightarrow> 'a arp_scheme \<Rightarrow> (u32 \<times> nat option \<times> bytes) option" where
  "etharp_get_entry i s =
     (if unat i < ARP_TABLE_SIZE \<and> stable (arp_state (arp_table s ! unat i))
      then let e = arp_table s ! unat i in Some (arp_ip e, arp_netif e, ethaddr e)
      else None)"

definition etharp_update_arp_entry ::
  "link_env \<Rightarrow> nat \<Rightarrow> u32 \<Rightarrow> bytes \<Rightarrow> u8 \<Rightarrow> 'a arp_scheme \<Rightarrow> (err_t \<times> 'a arp_scheme) option" where
  "etharp_update_arp_entry env ni ip mac fl s = do {
     let n = netif_of env ni;
     lwip_assert (hwaddr_len n = ETH_HWADDR_LEN);
     if ip4_addr_isany (Some ip) \<or> ip4_addr_isbroadcast ip n \<or> ip4_addr_ismulticast ip then Some (ERR_ARG, s)
     else do {
       (r, s) \<leftarrow> etharp_find_entry (Some ip) fl s;
       (case r of
          Inl err \<Rightarrow> Some (err, s)
        | Inr i \<Rightarrow> do {
            e \<leftarrow> table_get i s;
            let q = arp_q e;
            let s = table_set i (e\<lparr>arp_state := ETHARP_STATE_STABLE, arp_netif := Some ni, ethaddr := mac, ctime := 0,
              arp_q := None\<rparr>) s;
            (case q of
               None \<Rightarrow> Some (ERR_OK, s)
             | Some p \<Rightarrow> do {
                 (_, s) \<leftarrow> ethernet_output env ni p (hwaddr n) mac ETHTYPE_IP s;
                 s \<leftarrow> free_pbuf p s;
                 Some (ERR_OK, s)
               })
          })
     }
   }"

section \<open>Input\<close>

text \<open>The test of the header fields that drops a packet, evaluated from left to right.\<close>

definition arp_hdr_wrong :: "nat \<Rightarrow> 'a arp_scheme \<Rightarrow> bool option" where
  "arp_hdr_wrong p s = do {
     hwtype \<leftarrow> peek16 p 0 s;
     if hwtype \<noteq> PP_HTONS HWTYPE_ETHERNET then Some True
     else do {
       hwlen \<leftarrow> peek_at p 4 1 s;
       if hwlen \<noteq> [of_nat ETH_HWADDR_LEN] then Some True
       else do {
         protolen \<leftarrow> peek_at p 5 1 s;
         if protolen \<noteq> [4] then Some True
         else do {
           proto \<leftarrow> peek16 p 2 s;
           Some (proto \<noteq> PP_HTONS ETHTYPE_IP)
         }
       }
     }
   }"

text \<open>The reply is built in the pbuf of the request.\<close>

definition arp_reply :: "link_env \<Rightarrow> nat \<Rightarrow> nat \<Rightarrow> 'a arp_scheme \<Rightarrow> 'a arp_scheme option" where
  "arp_reply env p ni s = do {
     let n = netif_of env ni;
     s \<leftarrow> poke p 6 (le16_bytes (lwip_htons ARP_REPLY)) s;
     sip \<leftarrow> peek_at p 14 4 s;
     s \<leftarrow> poke p 24 sip s;
     s \<leftarrow> poke p 14 (le32_bytes (ip_addr n)) s;
     lwip_assert (hwaddr_len n = ETH_HWADDR_LEN);
     shw \<leftarrow> peek_at p 8 6 s;
     s \<leftarrow> poke p 18 shw s;
     s \<leftarrow> poke p 8 (hwaddr n) s;
     src \<leftarrow> peek_at p 8 6 s;
     dst \<leftarrow> peek_at p 18 6 s;
     (_, s) \<leftarrow> ethernet_output env ni p src dst ETHTYPE_ARP s;
     Some s
   }"

definition etharp_input :: "link_env \<Rightarrow> nat \<Rightarrow> nat option \<Rightarrow> 'a arp_scheme \<Rightarrow> 'a arp_scheme option" where
  "etharp_input env p netif s = do {
     ni \<leftarrow> netif;
     wrong \<leftarrow> arp_hdr_wrong p s;
     if wrong then free_pbuf p s
     else do {
       sipaddr \<leftarrow> peek32 p 14 s;
       dipaddr \<leftarrow> peek32 p 24 s;
       let ip = ip_addr (netif_of env ni);
       let for_us = (if ip = IPADDR_ANY then False else dipaddr = ip);
       shwaddr \<leftarrow> peek_at p 8 6 s;
       (_, s) \<leftarrow> etharp_update_arp_entry env ni sipaddr shwaddr
         (if for_us then ETHARP_FLAG_TRY_HARD else ETHARP_FLAG_FIND_ONLY) s;
       opcode \<leftarrow> peek16 p 6 s;
       s \<leftarrow> (if opcode = PP_HTONS ARP_REQUEST \<and> for_us then arp_reply env p ni s else Some s);
       free_pbuf p s
     }
   }"

section \<open>Output\<close>

definition etharp_output_to_arp_index :: "link_env \<Rightarrow> nat \<Rightarrow> nat \<Rightarrow> nat \<Rightarrow> 'a arp_scheme \<Rightarrow> (err_t \<times> 'a arp_scheme) option" where
  "etharp_output_to_arp_index env ni q i s = do {
     e \<leftarrow> table_get i s;
     lwip_assert (stable (arp_state e));
     s \<leftarrow> (if arp_state e = ETHARP_STATE_STABLE then
         if ARP_AGE_REREQUEST_USED_BROADCAST \<le> ctime e then do {
           (r, s) \<leftarrow> etharp_request env ni (arp_ip e) s;
           Some (if r = ERR_OK then table_set i (e\<lparr>arp_state := ETHARP_STATE_STABLE_REREQUESTING_1\<rparr>) s else s)
         }
         else if ARP_AGE_REREQUEST_USED_UNICAST \<le> ctime e then do {
           (r, s) \<leftarrow> etharp_request_dst env ni (arp_ip e) (ethaddr e) s;
           Some (if r = ERR_OK then table_set i (e\<lparr>arp_state := ETHARP_STATE_STABLE_REREQUESTING_1\<rparr>) s else s)
         }
         else Some s
       else Some s);
     ethernet_output env ni q (hwaddr (netif_of env ni)) (ethaddr e) ETHTYPE_IP s
   }"

text \<open>The first pbuf of the packet that is not \<^verbatim>\<open>PBUF_ROM\<close>.\<close>

partial_function (option) copy_needed_at :: "nat option \<Rightarrow> pbuf_heap \<Rightarrow> nat option option" where
  "copy_needed_at p h =
     (case p of
        None \<Rightarrow> Some None
      | Some a \<Rightarrow> do {
          b \<leftarrow> pbufs h a;
          lwip_assert (len b \<noteq> tot_len b \<or> pnext b = None);
          if ptype b \<noteq> PBUF_ROM then Some (Some a) else copy_needed_at (pnext b) h
        })"

declare copy_needed_at.simps [code]

text \<open>The packet that is put on a pending entry: a copy, or the packet itself.\<close>

definition take_over :: "link_env \<Rightarrow> nat \<Rightarrow> 'a arp_scheme \<Rightarrow> (nat option \<times> 'a arp_scheme) option" where
  "take_over env q s = do {
     c \<leftarrow> copy_needed_at (Some q) (pheap s);
     (case c of
        Some p \<Rightarrow> do {
          b \<leftarrow> pbufs (pheap s) p;
          (r, h) \<leftarrow> pbuf_alloc (link_malloc env (pheap s)) PBUF_LINK (tot_len b) PBUF_RAM (pheap s);
          (case r of
             None \<Rightarrow> Some (None, s\<lparr>pheap := h\<rparr>)
           | Some a \<Rightarrow> do {
               (err, h) \<leftarrow> pbuf_copy (Some a) (Some q) h;
               if err \<noteq> ERR_OK then do { s \<leftarrow> free_pbuf a (s\<lparr>pheap := h\<rparr>); Some (None, s) }
               else Some (Some a, s\<lparr>pheap := h\<rparr>)
             })
        }
      | None \<Rightarrow> do {
          h \<leftarrow> pbuf_ref (Some q) (pheap s);
          Some (Some q, s\<lparr>pheap := h\<rparr>)
        })
   }"

text \<open>The last part of \<^verbatim>\<open>etharp_query\<close>, with a packet and an entry that is not empty.\<close>

definition query_packet :: "link_env \<Rightarrow> nat \<Rightarrow> nat \<Rightarrow> nat \<Rightarrow> 'a arp_scheme \<Rightarrow> (err_t \<times> 'a arp_scheme) option" where
  "query_packet env ni i q s = do {
     e \<leftarrow> table_get i s;
     if stable (arp_state e) then
       ethernet_output env ni q (hwaddr (netif_of env ni)) (ethaddr e) ETHTYPE_IP (s\<lparr>etharp_cached_entry := i\<rparr>)
     else do {
       (r, s) \<leftarrow> take_over env q s;
       (case r of
          None \<Rightarrow> Some (ERR_MEM, s)
        | Some p \<Rightarrow> do {
            s \<leftarrow> (case arp_q e of None \<Rightarrow> Some s | Some old \<Rightarrow> free_pbuf old s);
            Some (ERR_OK, table_set i (e\<lparr>arp_q := Some p\<rparr>) s)
          })
     }
   }"

definition etharp_query :: "link_env \<Rightarrow> nat \<Rightarrow> u32 \<Rightarrow> nat option \<Rightarrow> 'a arp_scheme \<Rightarrow> (err_t \<times> 'a arp_scheme) option" where
  "etharp_query env ni ip q s = do {
     let n = netif_of env ni;
     if ip4_addr_isbroadcast ip n \<or> ip4_addr_ismulticast ip \<or> ip4_addr_isany (Some ip) then Some (ERR_ARG, s)
     else do {
       (r, s) \<leftarrow> etharp_find_entry (Some ip) ETHARP_FLAG_TRY_HARD s;
       (case r of
          Inl err \<Rightarrow> Some (err, s)
        | Inr i \<Rightarrow> do {
            e \<leftarrow> table_get i s;
            let is_new_entry = (arp_state e = ETHARP_STATE_EMPTY);
            let s = (if is_new_entry
              then table_set i (e\<lparr>arp_state := ETHARP_STATE_PENDING, arp_netif := Some ni\<rparr>) s else s);
            (result, s) \<leftarrow> (if is_new_entry \<or> q = None then etharp_request env ni ip s else Some (ERR_MEM, s));
            (case q of
               None \<Rightarrow> Some (result, s)
             | Some q \<Rightarrow> query_packet env ni i q s)
          })
     }
   }"

text \<open>The loop of \<^verbatim>\<open>etharp_output\<close> over the table, for a stable entry of the address.\<close>

fun find_stable :: "u32 \<Rightarrow> etharp_entry list \<Rightarrow> nat \<Rightarrow> nat option" where
  "find_stable ip [] i = None"
| "find_stable ip (e # es) i =
     (if stable (arp_state e) \<and> ip = arp_ip e then Some i else find_stable ip es (Suc i))"

definition multicast_mac :: "u32 \<Rightarrow> bytes" where
  "multicast_mac ip =
     (let bs = le32_bytes ip
      in [LL_IP4_MULTICAST_ADDR_0, LL_IP4_MULTICAST_ADDR_1, LL_IP4_MULTICAST_ADDR_2, bs ! 1 AND 0x7f, bs ! 2, bs ! 3])"

definition output_unicast :: "link_env \<Rightarrow> nat \<Rightarrow> nat \<Rightarrow> u32 \<Rightarrow> 'a arp_scheme \<Rightarrow> (err_t \<times> 'a arp_scheme) option" where
  "output_unicast env ni q dst_addr s = do {
     c \<leftarrow> table_get (etharp_cached_entry s) s;
     if stable (arp_state c) \<and> dst_addr = arp_ip c then
       etharp_output_to_arp_index env ni q (etharp_cached_entry s) s
     else (case find_stable dst_addr (arp_table s) 0 of
         Some i \<Rightarrow> etharp_output_to_arp_index env ni q i (s\<lparr>etharp_cached_entry := i\<rparr>)
       | None \<Rightarrow> etharp_query env ni dst_addr (Some q) s)
   }"

definition etharp_output :: "link_env \<Rightarrow> nat \<Rightarrow> nat \<Rightarrow> u32 \<Rightarrow> 'a arp_scheme \<Rightarrow> (err_t \<times> 'a arp_scheme) option" where
  "etharp_output env ni q ip s =
     (let n = netif_of env ni
      in if ip4_addr_isbroadcast ip n then ethernet_output env ni q (hwaddr n) ethbroadcast ETHTYPE_IP s
         else if ip4_addr_ismulticast ip then ethernet_output env ni q (hwaddr n) (multicast_mac ip) ETHTYPE_IP s
         else if \<not> ip4_addr_netcmp ip (ip_addr n) (netmask n) \<and> \<not> ip4_addr_islinklocal ip then
           if gw n \<noteq> IPADDR_ANY then output_unicast env ni q (gw n) s else Some (ERR_RTE, s)
         else output_unicast env ni q ip s)"

section \<open>Input of frames\<close>

text \<open>The flags that the destination address gives the packet.\<close>

definition link_flags :: "bytes \<Rightarrow> u8" where
  "link_flags dest =
     (if dest ! 0 AND 1 \<noteq> 0 then
        if dest ! 0 = LL_IP4_MULTICAST_ADDR_0 then
          if dest ! 1 = LL_IP4_MULTICAST_ADDR_1 \<and> dest ! 2 = LL_IP4_MULTICAST_ADDR_2 then PBUF_FLAG_LLMCAST else 0
        else if dest = ethbroadcast then PBUF_FLAG_LLBCAST else 0
      else 0)"

text \<open>The packet without its Ethernet header goes to \<open>accept\<close> if the interface does ARP.\<close>

definition pass_up :: "link_env \<Rightarrow> nat \<Rightarrow> nat \<Rightarrow> ('a arp_scheme \<Rightarrow> 'a arp_scheme option) \<Rightarrow> 'a arp_scheme \<Rightarrow> 'a arp_scheme option" where
  "pass_up env p ni accept s =
     (if netif_flags (netif_of env ni) AND NETIF_FLAG_ETHARP = 0 then free_pbuf p s
      else do {
        b \<leftarrow> pbufs (pheap s) p;
        if unat (len b) < SIZEOF_ETH_HDR then free_pbuf p s
        else do {
          (failed, h) \<leftarrow> pbuf_header (Some p) (- int SIZEOF_ETH_HDR) (pheap s);
          if failed \<noteq> 0 then free_pbuf p (s\<lparr>pheap := h\<rparr>) else accept (s\<lparr>pheap := h\<rparr>)
        }
      })"

definition ethernet_input ::
  "(nat \<Rightarrow> nat \<Rightarrow> 'a arp_scheme \<Rightarrow> 'a arp_scheme option) \<Rightarrow> link_env \<Rightarrow> nat \<Rightarrow> nat \<Rightarrow> 'a arp_scheme \<Rightarrow> (err_t \<times> 'a arp_scheme) option" where
  "ethernet_input ip4_input env p ni s = do {
     b \<leftarrow> pbufs (pheap s) p;
     s \<leftarrow> (if unat (len b) \<le> SIZEOF_ETH_HDR then free_pbuf p s
       else do {
         type \<leftarrow> peek16 p 12 s;
         dest \<leftarrow> peek_at p 0 6 s;
         let s = s\<lparr>pheap := put p (b\<lparr>flags := flags b OR link_flags dest\<rparr>) (pheap s)\<rparr>;
         if type = PP_HTONS ETHTYPE_IP then pass_up env p ni (ip4_input p ni) s
         else if type = PP_HTONS ETHTYPE_ARP then pass_up env p ni (etharp_input env p (Some ni)) s
         else free_pbuf p s
       });
     Some (ERR_OK, s)
   }"

section \<open>What leaves the table alone\<close>

definition same_table :: "'a arp_scheme \<Rightarrow> 'a arp_scheme \<Rightarrow> bool" where
  "same_table s t \<longleftrightarrow> arp_table t = arp_table s \<and> etharp_cached_entry t = etharp_cached_entry s"

lemma same_table_refl [simp, intro]: "same_table s s" "same_table s (s\<lparr>pheap := h\<rparr>)" "same_table s (s\<lparr>sent := l\<rparr>)"
  by (simp_all add: same_table_def)

lemma same_table_trans [trans]: "same_table s t \<Longrightarrow> same_table t u \<Longrightarrow> same_table s u"
  by (simp add: same_table_def)

lemma same_table_pheap [simp]: "same_table (s\<lparr>pheap := h\<rparr>) t = same_table s t" "same_table s (t\<lparr>pheap := h\<rparr>) = same_table s t"
  "same_table s (t\<lparr>sent := l\<rparr>) = same_table s t"
  by (simp_all add: same_table_def)

lemma free_pbuf_table: "free_pbuf p s = Some t \<Longrightarrow> same_table s t"
  by (auto simp: free_pbuf_def split: Option.bind_splits prod.splits)

lemma poke_table: "poke p off ds s = Some t \<Longrightarrow> same_table s t"
  by (auto simp: poke_def split: Option.bind_splits)

lemma ethernet_output_table: "ethernet_output env ni p src dst ty s = Some (r, t) \<Longrightarrow> same_table s t"
  by (auto simp: ethernet_output_def Let_def split: Option.bind_splits prod.splits if_splits dest!: poke_table)

lemma etharp_raw_table: "etharp_raw env ni e1 e2 h1 i1 h2 i2 opc s = Some (r, t) \<Longrightarrow> same_table s t"
  unfolding etharp_raw_def Let_def
  by (auto split: Option.bind_splits prod.splits option.splits
      dest!: poke_table ethernet_output_table free_pbuf_table) (simp add: same_table_def)

lemma etharp_request_table:
  "etharp_request_dst env ni ip hw s = Some (r, t) \<Longrightarrow> same_table s t"
  "etharp_request env ni ip s = Some (r, t) \<Longrightarrow> same_table s t"
  by (auto simp: etharp_request_def etharp_request_dst_def Let_def intro: etharp_raw_table)

lemma take_over_table: "take_over env q s = Some (r, t) \<Longrightarrow> same_table s t"
  unfolding take_over_def
  by (auto split: Option.bind_splits prod.splits option.splits if_splits dest!: free_pbuf_table)

section \<open>The sweep\<close>

definition occupied :: "etharp_entry \<Rightarrow> bool" where
  "occupied e \<longleftrightarrow> arp_state e \<noteq> ETHARP_STATE_EMPTY"

definition is_stable :: "etharp_entry \<Rightarrow> bool" where
  "is_stable e \<longleftrightarrow> stable (arp_state e)"

definition waits_alone :: "etharp_entry \<Rightarrow> bool" where
  "waits_alone e \<longleftrightarrow> arp_state e = ETHARP_STATE_PENDING \<and> arp_q e = None"

definition waits_queued :: "etharp_entry \<Rightarrow> bool" where
  "waits_queued e \<longleftrightarrow> arp_state e = ETHARP_STATE_PENDING \<and> arp_q e \<noteq> None"

text \<open>\<open>k\<close> is none of the entries if there is none with \<open>P\<close>, or an oldest entry with \<open>P\<close>, of age \<open>age\<close>.\<close>

definition oldest :: "(etharp_entry \<Rightarrow> bool) \<Rightarrow> etharp_entry list \<Rightarrow> nat \<Rightarrow> u16 \<Rightarrow> bool" where
  "oldest P tab k age \<longleftrightarrow>
     k = ARP_TABLE_SIZE \<and> age = 0 \<and> (\<forall>e \<in> set tab. \<not> P e) \<or>
     k < length tab \<and> P (tab ! k) \<and> age = ctime (tab ! k) \<and> (\<forall>e \<in> set tab. P e \<longrightarrow> ctime e \<le> age)"

definition first_empty :: "etharp_entry list \<Rightarrow> nat \<Rightarrow> bool" where
  "first_empty tab k \<longleftrightarrow>
     k = ARP_TABLE_SIZE \<and> (\<forall>e \<in> set tab. occupied e) \<or>
     k < length tab \<and> \<not> occupied (tab ! k) \<and> (\<forall>j < k. occupied (tab ! j))"

definition good_candidates :: "etharp_entry list \<Rightarrow> candidates \<Rightarrow> bool" where
  "good_candidates tab c \<longleftrightarrow> first_empty tab (empty c) \<and> oldest is_stable tab (old_stable c) (age_stable c) \<and>
     oldest waits_alone tab (old_pending c) (age_pending c) \<and> oldest waits_queued tab (old_queue c) (age_queue c)"

lemma oldest_skip: "oldest P tab k age \<Longrightarrow> \<not> P e \<Longrightarrow> oldest P (tab @ [e]) k age"
  by (auto simp: oldest_def nth_append)

lemma oldest_take: "oldest P tab k age \<Longrightarrow> P e \<Longrightarrow> age \<le> ctime e \<Longrightarrow> oldest P (tab @ [e]) (length tab) (ctime e)"
  by (auto simp: oldest_def)

lemma oldest_keep: "oldest P tab k age \<Longrightarrow> \<not> age \<le> ctime e \<Longrightarrow> oldest P (tab @ [e]) k age"
  by (auto simp: oldest_def nth_append)

lemma first_empty_snoc:
  "first_empty tab k \<Longrightarrow> length tab < ARP_TABLE_SIZE \<Longrightarrow>
   first_empty (tab @ [e]) (if k = ARP_TABLE_SIZE \<and> \<not> occupied e then length tab else k)"
  by (auto simp: first_empty_def nth_append)

lemma good_remember:
  assumes "good_candidates tab c" "length tab < ARP_TABLE_SIZE" "occupied e"
  shows "good_candidates (tab @ [e]) (remember (length tab) e c)"
proof -
  have f: "first_empty (tab @ [e]) (empty c)"
    using first_empty_snoc [of tab "empty c" e] assms by (simp add: good_candidates_def)
  consider "is_stable e" "\<not> waits_alone e" "\<not> waits_queued e" | "\<not> is_stable e" "waits_alone e" "\<not> waits_queued e"
    | "\<not> is_stable e" "\<not> waits_alone e" "waits_queued e"
    using assms(3) by (cases "arp_state e") (auto simp: is_stable_def waits_alone_def waits_queued_def occupied_def)
  then show ?thesis
    using f assms(1)
    by cases (auto simp: good_candidates_def remember_def is_stable_def waits_alone_def waits_queued_def
        intro: oldest_skip oldest_take oldest_keep)
qed

lemma good_empty:
  assumes "good_candidates tab c" "length tab < ARP_TABLE_SIZE" "\<not> occupied e"
  shows "good_candidates (tab @ [e]) (if empty c = ARP_TABLE_SIZE then c\<lparr>empty := length tab\<rparr> else c)"
proof -
  have "\<not> is_stable e" "\<not> waits_alone e" "\<not> waits_queued e"
    using assms(3) by (auto simp: is_stable_def waits_alone_def waits_queued_def occupied_def)
  then show ?thesis using first_empty_snoc [of tab "empty c" e] assms
    by (auto simp: good_candidates_def intro: oldest_skip)
qed

definition matches :: "u32 option \<Rightarrow> etharp_entry \<Rightarrow> bool" where
  "matches ip e \<longleftrightarrow> occupied e \<and> ip = Some (arp_ip e)"

lemma find_sweep_spec:
  assumes "good_candidates tab c" "length tab + length es \<le> ARP_TABLE_SIZE"
  shows "case find_sweep ip es (length tab) c of
      Inl k \<Rightarrow> length tab \<le> k \<and> k < length tab + length es \<and> matches ip ((tab @ es) ! k)
    | Inr c' \<Rightarrow> (\<forall>e \<in> set es. \<not> matches ip e) \<and> good_candidates (tab @ es) c'"
  using assms
proof (induction es arbitrary: tab c)
  case (Cons e es)
  have IH: "case find_sweep ip es (Suc (length tab)) d of
      Inl k \<Rightarrow> length tab < k \<and> k < Suc (length tab + length es) \<and> matches ip ((tab @ e # es) ! k)
    | Inr c' \<Rightarrow> (\<forall>e \<in> set es. \<not> matches ip e) \<and> good_candidates (tab @ e # es) c'"
    if "good_candidates (tab @ [e]) d" for d
    using Cons.IH [OF that] Cons.prems(2) by (simp split: sum.splits)
  show ?case
  proof (cases "occupied e")
    case True
    then have o: "arp_state e \<noteq> ETHARP_STATE_EMPTY" by (simp add: occupied_def)
    show ?thesis
    proof (cases "ip = Some (arp_ip e)")
      case True
      then show ?thesis using o by (simp add: matches_def occupied_def)
    next
      case False
      then show ?thesis using o IH [OF good_remember [OF Cons.prems(1) _ True]] Cons.prems(2)
        by (auto simp: matches_def split: sum.splits)
    qed
  next
    case False
    then have o: "arp_state e = ETHARP_STATE_EMPTY" by (simp add: occupied_def)
    show ?thesis using o IH [OF good_empty [OF Cons.prems(1) _ False]] Cons.prems(2)
      by (cases "empty c = ARP_TABLE_SIZE") (auto simp: matches_def occupied_def split: sum.splits)
  qed
qed simp

lemma find_sweep_table:
  assumes "length tab \<le> ARP_TABLE_SIZE"
  shows "case find_sweep ip tab 0 no_candidates of
      Inl k \<Rightarrow> k < length tab \<and> matches ip (tab ! k)
    | Inr c \<Rightarrow> (\<forall>e \<in> set tab. \<not> matches ip e) \<and> good_candidates tab c"
proof -
  have "good_candidates [] no_candidates"
    by (simp add: good_candidates_def first_empty_def oldest_def no_candidates_def)
  from find_sweep_spec [OF this, of tab ip] assms show ?thesis by (simp split: sum.splits)
qed

section \<open>The table stays well formed\<close>

text \<open>
  Only pending entries hold a packet, no occupied entry is older than the timer allows, every
  occupied entry has an interface and a hardware address of six bytes, and no address occurs twice.
\<close>

definition entry_ok :: "etharp_entry \<Rightarrow> bool" where
  "entry_ok e \<longleftrightarrow> (arp_state e \<noteq> ETHARP_STATE_PENDING \<longrightarrow> arp_q e = None) \<and>
     (occupied e \<longrightarrow> ctime e < ARP_MAXAGE \<and> arp_netif e \<noteq> None) \<and>
     (arp_state e = ETHARP_STATE_PENDING \<longrightarrow> ctime e < ARP_MAXPENDING) \<and> length (ethaddr e) = 6"

definition unique_ips :: "etharp_entry list \<Rightarrow> bool" where
  "unique_ips tab \<longleftrightarrow> (\<forall>i < length tab. \<forall>j < length tab.
     occupied (tab ! i) \<and> occupied (tab ! j) \<and> arp_ip (tab ! i) = arp_ip (tab ! j) \<longrightarrow> i = j)"

definition table_ok :: "etharp_entry list \<Rightarrow> bool" where
  "table_ok tab \<longleftrightarrow> length tab = ARP_TABLE_SIZE \<and> (\<forall>e \<in> set tab. entry_ok e) \<and> unique_ips tab"

definition arp_inv :: "'a arp_scheme \<Rightarrow> bool" where
  "arp_inv s \<longleftrightarrow> table_ok (arp_table s) \<and> etharp_cached_entry s < ARP_TABLE_SIZE"

lemma arp_inv_same: "arp_inv s \<Longrightarrow> same_table s t \<Longrightarrow> arp_inv t"
  by (simp add: arp_inv_def same_table_def)

lemma entry_ok_empty [simp]: "entry_ok empty_entry" "\<not> occupied empty_entry"
  by (simp_all add: entry_ok_def empty_entry_def occupied_def ethzero_def)

text \<open>An entry may be replaced if the new one is well formed and its address is not held by another one.\<close>

lemma table_ok_set:
  assumes "table_ok tab" "entry_ok e"
    and "\<And>j. occupied e \<Longrightarrow> j < length tab \<Longrightarrow> j \<noteq> i \<Longrightarrow> occupied (tab ! j) \<Longrightarrow> arp_ip (tab ! j) \<noteq> arp_ip e"
  shows "table_ok (tab[i := e])"
proof -
  have "\<forall>e' \<in> set (tab[i := e]). entry_ok e'"
    using assms(1,2) set_update_subset_insert [of tab i e] by (auto simp: table_ok_def)
  moreover have "unique_ips (tab[i := e])"
  proof -
    have old: "k = j" if "k < length tab" "j < length tab" "occupied (tab ! k)" "occupied (tab ! j)"
      "arp_ip (tab ! k) = arp_ip (tab ! j)" for k j
      using that assms(1) unfolding table_ok_def unique_ips_def by blast
    have "k = j" if "k < length tab" "j < length tab" "occupied (tab[i := e] ! k)" "occupied (tab[i := e] ! j)"
      "arp_ip (tab[i := e] ! k) = arp_ip (tab[i := e] ! j)" for k j
      using that old [of k j] assms(3) [of j] assms(3) [of k] by (cases "k = i"; cases "j = i") auto
    then show ?thesis by (simp add: unique_ips_def)
  qed
  ultimately show ?thesis using assms(1) by (simp add: table_ok_def)
qed

text \<open>Changing an entry but not its address, and keeping it unoccupied if it was.\<close>

lemma table_ok_modify:
  assumes "table_ok tab" "i < length tab" "entry_ok e" "occupied e \<Longrightarrow> occupied (tab ! i) \<and> arp_ip e = arp_ip (tab ! i)"
  shows "table_ok (tab[i := e])"
proof (rule table_ok_set [OF assms(1,3)])
  fix j
  assume "occupied e" "j < length tab" "j \<noteq> i" "occupied (tab ! j)"
  then show "arp_ip (tab ! j) \<noteq> arp_ip e" using assms unfolding table_ok_def unique_ips_def by metis
qed

lemma table_ok_nth: "table_ok tab \<Longrightarrow> i < length tab \<Longrightarrow> entry_ok (tab ! i)"
  by (simp add: table_ok_def)

lemma etharp_free_entry_table:
  "etharp_free_entry i s = Some t \<Longrightarrow> i < length (arp_table s) \<and> arp_table t = (arp_table s)[i := empty_entry] \<and>
     etharp_cached_entry t = etharp_cached_entry s"
  by (auto simp: etharp_free_entry_def table_get_def same_table_def split: Option.bind_splits option.splits if_splits
      dest!: free_pbuf_table)

lemma etharp_free_entry_inv: "arp_inv s \<Longrightarrow> etharp_free_entry i s = Some t \<Longrightarrow> arp_inv t"
  using etharp_free_entry_table [of i s t] by (auto simp: arp_inv_def intro!: table_ok_set)

text \<open>What \<^verbatim>\<open>claim_entry\<close> does to an empty entry.\<close>

lemma claim_entry_result:
  assumes "claim_entry ip i s = Some (r, t)" "arp_inv s"
  shows "r = Inr i \<and> i < ARP_TABLE_SIZE \<and> arp_inv t \<and> etharp_cached_entry t = etharp_cached_entry s \<and>
    (\<exists>e. arp_table t = (arp_table s)[i := e] \<and> \<not> occupied e \<and> ctime e = 0 \<and> (\<forall>a. ip = Some a \<longrightarrow> arp_ip e = a))"
proof -
  obtain e where e: "i < ARP_TABLE_SIZE" "table_get i s = Some e" "arp_state e = ETHARP_STATE_EMPTY" "r = Inr i"
    "t = table_set i ((case ip of None \<Rightarrow> e | Some a \<Rightarrow> e\<lparr>arp_ip := a\<rparr>)\<lparr>ctime := 0\<rparr>) s"
    using assms(1) by (auto simp: claim_entry_def Let_def split: Option.bind_splits)
  let ?e = "(case ip of None \<Rightarrow> e | Some a \<Rightarrow> e\<lparr>arp_ip := a\<rparr>)\<lparr>ctime := 0\<rparr>"
  have i: "i < length (arp_table s)" "e = arp_table s ! i" using e(2) by (auto simp: table_get_def split: if_splits)
  have "entry_ok e" using assms(2) i by (simp add: arp_inv_def table_ok_nth)
  then have ok: "entry_ok ?e" "\<not> occupied ?e" using e(3) by (auto simp: entry_ok_def occupied_def split: option.splits)
  then have "table_ok ((arp_table s)[i := ?e])" using assms(2) by (auto simp: arp_inv_def intro!: table_ok_set)
  then show ?thesis using e ok assms(2) by (auto simp: arp_inv_def intro!: exI [of _ ?e])
qed

lemma find_entry_cases:
  assumes "etharp_find_entry ip fl s = Some (r, t)" "find_sweep ip (arp_table s) 0 no_candidates = Inr c"
  obtains (no) "r = Inl ERR_MEM" "t = s" | (claim) k where "claim_entry ip k s = Some (r, t)"
    | (recycle) k u where "etharp_free_entry k s = Some u" "claim_entry ip k u = Some (r, t)"
proof (cases "fl AND ETHARP_FLAG_FIND_ONLY \<noteq> 0 \<or> empty c = ARP_TABLE_SIZE \<and> fl AND ETHARP_FLAG_TRY_HARD = 0")
  case True
  then show thesis using assms no by (simp add: etharp_find_entry_def)
next
  case go: False
  have e: "etharp_find_entry ip fl s =
     (if empty c < ARP_TABLE_SIZE then claim_entry ip (empty c) s
      else do {
        r \<leftarrow> choose_recycled c s;
        (case r of
           None \<Rightarrow> Some (Inl ERR_MEM, s)
         | Some i \<Rightarrow> do { lwip_assert (i < ARP_TABLE_SIZE); s \<leftarrow> etharp_free_entry i s; claim_entry ip i s })
      })"
    unfolding etharp_find_entry_def assms(2) by (simp only: sum.case if_not_P [OF go])
  show thesis
  proof (cases "empty c < ARP_TABLE_SIZE")
    case True
    then have "claim_entry ip (empty c) s = Some (r, t)" using assms(1) e by simp
    then show thesis by (rule claim)
  next
    case False
    then obtain k where k: "choose_recycled c s = Some k" using assms(1) e
      by (cases "choose_recycled c s") simp_all
    show thesis
    proof (cases k)
      case None
      then show thesis using assms(1) e False k no by simp
    next
      case (Some i)
      then have "Option.bind (etharp_free_entry i s) (claim_entry ip i) = Some (r, t)"
        using assms(1) e False k by simp
      then show thesis using recycle by (auto simp: bind_eq_Some_conv)
    qed
  qed
qed

text \<open>
  An entry that \<^verbatim>\<open>etharp_find_entry\<close> returns has the address, which no other occupied entry has,
  and it is the old one if the address was in the table.
\<close>

lemma find_entry_result:
  assumes "etharp_find_entry ip fl s = Some (r, t)" "arp_inv s"
  shows "arp_inv t \<and> etharp_cached_entry t = etharp_cached_entry s \<and>
    (case r of
       Inl err \<Rightarrow> err = ERR_MEM \<and> t = s \<and> (\<forall>e \<in> set (arp_table s). \<not> matches ip e)
     | Inr i \<Rightarrow> i < ARP_TABLE_SIZE \<and>
         (matches ip (arp_table s ! i) \<and> t = s \<or>
          (\<forall>e \<in> set (arp_table s). \<not> matches ip e) \<and>
          (\<exists>e. arp_table t = (arp_table s)[i := e] \<and> \<not> occupied e \<and> ctime e = 0 \<and> (\<forall>a. ip = Some a \<longrightarrow> arp_ip e = a))))"
proof -
  have len: "length (arp_table s) = ARP_TABLE_SIZE" using assms(2) by (simp add: arp_inv_def table_ok_def)
  show ?thesis
  proof (cases "find_sweep ip (arp_table s) 0 no_candidates")
    case (Inl k)
    then have "r = Inr k" "t = s" using assms(1) by (simp_all add: etharp_find_entry_def)
    then show ?thesis using find_sweep_table [of "arp_table s" ip] Inl len assms(2) by auto
  next
    case (Inr c)
    have none: "\<forall>e \<in> set (arp_table s). \<not> matches ip e"
      using find_sweep_table [of "arp_table s" ip] Inr len by simp
    from assms(1) Inr show ?thesis
    proof (cases rule: find_entry_cases)
      case no
      then show ?thesis using none assms(2) by simp
    next
      case claim
      then show ?thesis using claim_entry_result [OF claim assms(2)] none by auto
    next
      case recycle
      then show ?thesis
        using claim_entry_result [OF recycle(2) etharp_free_entry_inv [OF assms(2) recycle(1)]] none
          etharp_free_entry_table [OF recycle(1)] by auto
    qed
  qed
qed

lemma find_entry_owner:
  assumes "etharp_find_entry (Some ip) fl s = Some (Inr i, t)" "arp_inv s"
  shows "arp_inv t" "i < length (arp_table t)" "arp_ip (arp_table t ! i) = ip"
    and "\<not> occupied (arp_table t ! i) \<Longrightarrow> ctime (arp_table t ! i) = 0"
    and "j < length (arp_table t) \<Longrightarrow> j \<noteq> i \<Longrightarrow> occupied (arp_table t ! j) \<Longrightarrow> arp_ip (arp_table t ! j) \<noteq> ip"
proof -
  note r = find_entry_result [OF assms]
  have len: "length (arp_table s) = ARP_TABLE_SIZE" using assms(2) by (simp add: arp_inv_def table_ok_def)
  show inv: "arp_inv t" using r by simp
  then have len': "length (arp_table t) = ARP_TABLE_SIZE" by (simp add: arp_inv_def table_ok_def)
  show i: "i < length (arp_table t)" using r len' by simp
  show "arp_ip (arp_table t ! i) = ip" using r len i by (auto simp: matches_def)
  show "ctime (arp_table t ! i) = 0" if "\<not> occupied (arp_table t ! i)"
    using r len i that by (auto simp: matches_def)
  show "arp_ip (arp_table t ! j) \<noteq> ip" if j: "j < length (arp_table t)" "j \<noteq> i" "occupied (arp_table t ! j)"
  proof (cases "matches (Some ip) (arp_table s ! i)")
    case True
    then have "t = s" using r len by auto
    then show ?thesis using True j i assms(2) unfolding arp_inv_def table_ok_def unique_ips_def matches_def by blast
  next
    case False
    then obtain e where "arp_table t = (arp_table s)[i := e]" "\<forall>e \<in> set (arp_table s). \<not> matches (Some ip) e" using r by auto
    then have "arp_table t ! j \<in> set (arp_table s)" "\<forall>e \<in> set (arp_table s). \<not> matches (Some ip) e" using j by auto
    then show ?thesis using j(3) by (auto simp: matches_def)
  qed
qed

text \<open>Putting an occupied entry at the index found keeps the table well formed.\<close>

lemma find_entry_fill:
  assumes "etharp_find_entry (Some ip) fl s = Some (Inr i, t)" "arp_inv s" "entry_ok e" "arp_ip e = ip"
  shows "table_ok ((arp_table t)[i := e])"
  using find_entry_owner [OF assms(1,2)] assms(3,4) by (auto simp: arp_inv_def intro!: table_ok_set)

lemma table_get_Some [simp]: "table_get i s = Some e \<longleftrightarrow> i < length (arp_table s) \<and> e = arp_table s ! i"
  by (auto simp: table_get_def)

lemma stable_entry_ok [intro]:
  "length mac = 6 \<Longrightarrow> entry_ok (e\<lparr>arp_state := ETHARP_STATE_STABLE, arp_netif := Some ni, ethaddr := mac, ctime := 0, arp_q := None\<rparr>)"
  by (simp add: entry_ok_def ARP_MAXAGE_def)

text \<open>
  The outcome of an update that found an entry: the entry is stable, all others are as they were
  after the search.
\<close>

lemma update_arp_entry_result:
  assumes "etharp_update_arp_entry env ni ip mac fl s = Some (r, t)" "arp_inv s" "length mac = 6"
  shows "arp_inv t \<and> (r = ERR_OK \<longrightarrow> (\<exists>i u. etharp_find_entry (Some ip) fl s = Some (Inr i, u) \<and>
     arp_table t = (arp_table u)[i := (arp_table u ! i)\<lparr>arp_state := ETHARP_STATE_STABLE, arp_netif := Some ni,
       ethaddr := mac, ctime := 0, arp_q := None\<rparr>])) \<and> (r \<noteq> ERR_OK \<longrightarrow> t = s)"
proof -
  consider (arg) "r = ERR_ARG" "t = s" | (none) err where "etharp_find_entry (Some ip) fl s = Some (Inl err, t)" "r = err"
    | (some) i u where "etharp_find_entry (Some ip) fl s = Some (Inr i, u)" "r = ERR_OK"
      "same_table (table_set i ((arp_table u ! i)\<lparr>arp_state := ETHARP_STATE_STABLE, arp_netif := Some ni,
         ethaddr := mac, ctime := 0, arp_q := None\<rparr>) u) t"
    using assms(1)
    by (auto simp: etharp_update_arp_entry_def Let_def split: Option.bind_splits option.splits sum.splits if_splits
        dest!: ethernet_output_table free_pbuf_table) (meson same_table_trans)
  then show ?thesis
  proof cases
    case none
    then show ?thesis using find_entry_result [OF none(1) assms(2)] assms(2) by simp
  next
    case some
    let ?e = "(arp_table u ! i)\<lparr>arp_state := ETHARP_STATE_STABLE, arp_netif := Some ni, ethaddr := mac, ctime := 0, arp_q := None\<rparr>"
    have "table_ok ((arp_table u)[i := ?e])"
      using find_entry_fill [OF some(1) assms(2), of ?e] find_entry_owner(3) [OF some(1) assms(2)] assms(3) by auto
    then show ?thesis using some find_entry_owner(1) [OF some(1) assms(2)]
      by (auto simp: arp_inv_def same_table_def)
  qed (use assms(2) in simp)
qed

lemma arp_inv_set:
  assumes "arp_inv s" "i < length (arp_table s)" "entry_ok e"
    and "occupied e \<Longrightarrow> occupied (arp_table s ! i) \<and> arp_ip e = arp_ip (arp_table s ! i)"
  shows "arp_inv (table_set i e s)"
  using table_ok_modify [of "arp_table s" i e] assms by (simp add: arp_inv_def)

lemma arp_inv_nth: "arp_inv s \<Longrightarrow> i < length (arp_table s) \<Longrightarrow> entry_ok (arp_table s ! i)"
  by (simp add: arp_inv_def table_ok_nth)

lemma arp_inv_length: "arp_inv s \<Longrightarrow> length (arp_table s) = ARP_TABLE_SIZE"
  by (simp add: arp_inv_def table_ok_def)

lemma ctime_Suc: "c < ARP_MAXAGE \<Longrightarrow> unat (c + 1) = Suc (unat c)"
  by (simp add: ARP_MAXAGE_def word_less_nat_alt unat_add_u16)

text \<open>One tick keeps the entries within their age.\<close>

lemma tmr_entry_inv:
  assumes "tmr_entry env i s = Some t" "arp_inv s"
  shows "arp_inv t"
proof (cases "i < length (arp_table s) \<and> occupied (arp_table s ! i)")
  case True
  let ?e = "(arp_table s ! i)\<lparr>ctime := ctime (arp_table s ! i) + 1\<rparr>"
  let ?s = "table_set i ?e s"
  have i: "i < length (arp_table s)" and o: "arp_state (arp_table s ! i) \<noteq> ETHARP_STATE_EMPTY" using True by (auto simp: occupied_def)
  have ok: "entry_ok (arp_table s ! i)" using assms(2) i by (rule arp_inv_nth)
  show ?thesis
  proof (cases "ARP_MAXAGE \<le> ctime ?e \<or> arp_state ?e = ETHARP_STATE_PENDING \<and> ARP_MAXPENDING \<le> ctime ?e")
    case True
    then have "etharp_free_entry i ?s = Some t" using assms(1) i o by (simp add: tmr_entry_def table_get_def Let_def)
    from etharp_free_entry_table [OF this] have "arp_table t = (arp_table s)[i := empty_entry]"
      "etharp_cached_entry t = etharp_cached_entry s" by simp_all
    moreover have "arp_inv (table_set i empty_entry s)" using assms(2) i by (intro arp_inv_set) simp_all
    ultimately show ?thesis by (simp add: arp_inv_def)
  next
    case False
    have new: "arp_inv (table_set i (?e\<lparr>arp_state := st\<rparr>) s)" if "st \<noteq> ETHARP_STATE_EMPTY"
      "st = arp_state ?e \<or> stable st \<and> stable (arp_state ?e)" for st
      using assms(2) i True ok False that
      by (intro arp_inv_set) (auto simp: entry_ok_def occupied_def not_le)
    have inv: "arp_inv ?s" using new [of "arp_state ?e"] o by simp
    then have "arp_inv u" if "etharp_request env ni ip ?s = Some (r, u)" for ni ip r u
      using that etharp_request_table(2) arp_inv_same by blast
    with False assms(1) i o new inv show ?thesis
      by (auto simp: tmr_entry_def table_get_def Let_def split: if_splits Option.bind_splits)
  qed
next
  case False
  then show ?thesis using assms
    by (auto simp: tmr_entry_def table_get_def occupied_def split: if_splits)
qed

lemma for_entries_inv:
  "for_entries f is s = Some t \<Longrightarrow> (\<And>i s t. f i s = Some t \<Longrightarrow> P s \<Longrightarrow> P t) \<Longrightarrow> P s \<Longrightarrow> P t"
  by (induction "is" arbitrary: s) (auto split: Option.bind_splits)

lemma etharp_tmr_inv: "etharp_tmr env s = Some t \<Longrightarrow> arp_inv s \<Longrightarrow> arp_inv t"
  unfolding etharp_tmr_def by (erule for_entries_inv) (rule tmr_entry_inv)

lemma etharp_cleanup_inv: "etharp_cleanup_netif ni s = Some t \<Longrightarrow> arp_inv s \<Longrightarrow> arp_inv t"
  unfolding etharp_cleanup_netif_def
  by (erule for_entries_inv)
    (auto simp: cleanup_entry_def split: Option.bind_splits if_splits intro: etharp_free_entry_inv)

lemma peek_at_length: "peek_at p off n s = Some ds \<Longrightarrow> length ds = n"
  by (auto simp: peek_at_def payload_read_def Let_def split: Option.bind_splits if_splits option.splits)

lemma arp_reply_table: "arp_reply env p ni s = Some t \<Longrightarrow> same_table s t"
  unfolding arp_reply_def Let_def
  by (auto split: Option.bind_splits prod.splits dest!: poke_table ethernet_output_table) (simp add: same_table_def)

lemma etharp_input_inv:
  assumes "etharp_input env p ni s = Some t" "arp_inv s"
  shows "arp_inv t"
proof -
  consider "same_table s t"
    | n ip mac fl r u where "etharp_update_arp_entry env n ip mac fl s = Some (r, u)" "length mac = 6" "same_table u t"
    using assms(1) unfolding etharp_input_def Let_def
    by (auto split: Option.bind_splits if_splits dest!: free_pbuf_table arp_reply_table) (meson peek_at_length same_table_trans)+
  then show ?thesis using update_arp_entry_result assms(2) arp_inv_same by cases blast+
qed

lemma output_to_index_inv:
  assumes "etharp_output_to_arp_index env ni q i s = Some (r, t)" "arp_inv s"
  shows "arp_inv t"
proof -
  let ?e = "(arp_table s ! i)\<lparr>arp_state := ETHARP_STATE_STABLE_REREQUESTING_1\<rparr>"
  have i: "i < length (arp_table s)" "stable (arp_state (arp_table s ! i))"
    using assms(1) unfolding etharp_output_to_arp_index_def by (auto split: Option.bind_splits)
  have new: "arp_inv (table_set i ?e u)" if "same_table s u" for u
  proof -
    have "arp_inv u" "arp_table u = arp_table s" using assms(2) that arp_inv_same by (auto simp: same_table_def)
    then show ?thesis using i arp_inv_nth [OF assms(2) i(1)]
      by (intro arp_inv_set) (cases "arp_state (arp_table s ! i)"; auto simp: entry_ok_def occupied_def)+
  qed
  consider "same_table s t" | u where "same_table s u" "same_table (table_set i ?e u) t"
    using assms(1) unfolding etharp_output_to_arp_index_def
    by (auto split: Option.bind_splits if_splits dest!: etharp_request_table ethernet_output_table)
      (meson same_table_trans)+
  then show ?thesis using new assms(2) arp_inv_same by cases blast+
qed

lemma arp_inv_cached: "arp_inv s \<Longrightarrow> i < ARP_TABLE_SIZE \<Longrightarrow> arp_inv (s\<lparr>etharp_cached_entry := i\<rparr>)"
  by (simp add: arp_inv_def)

lemma query_packet_inv:
  assumes "query_packet env ni i q s = Some (r, t)" "arp_inv s" "i < length (arp_table s)" "occupied (arp_table s ! i)"
  shows "arp_inv t"
proof (cases "stable (arp_state (arp_table s ! i))")
  case True
  then have "same_table (s\<lparr>etharp_cached_entry := i\<rparr>) t"
    using assms(1,3) by (auto simp: query_packet_def table_get_def intro: ethernet_output_table)
  then show ?thesis using assms(2,3) arp_inv_cached arp_inv_length arp_inv_same by metis
next
  case False
  let ?e = "\<lambda>p. (arp_table s ! i)\<lparr>arp_q := Some p\<rparr>"
  have st: "arp_state (arp_table s ! i) = ETHARP_STATE_PENDING"
    using False assms(4) by (cases "arp_state (arp_table s ! i)") (auto simp: occupied_def)
  have new: "arp_inv (table_set i (?e p) u)" if "same_table s u" for u p
  proof -
    have "arp_inv u" "arp_table u = arp_table s" using assms(2) that arp_inv_same by (auto simp: same_table_def)
    then show ?thesis using assms(3) st arp_inv_nth [OF assms(2,3)]
      by (intro arp_inv_set) (auto simp: entry_ok_def occupied_def)
  qed
  consider "same_table s t" | u p where "same_table s u" "same_table (table_set i (?e p) u) t"
    using assms(1) False unfolding query_packet_def
    by (auto split: Option.bind_splits if_splits option.splits dest!: take_over_table free_pbuf_table)
      (meson same_table_trans same_table_refl(1))+
  then show ?thesis using new assms(2) arp_inv_same by cases blast+
qed

lemma etharp_query_cases:
  assumes "etharp_query env ni ip q s = Some (r, t)"
  obtains (arg) "t = s" | (none) err where "etharp_find_entry (Some ip) ETHARP_FLAG_TRY_HARD s = Some (Inl err, t)"
    | (fresh) i u v where "etharp_find_entry (Some ip) ETHARP_FLAG_TRY_HARD s = Some (Inr i, u)" "\<not> occupied (arp_table u ! i)"
      "same_table (table_set i ((arp_table u ! i)\<lparr>arp_state := ETHARP_STATE_PENDING, arp_netif := Some ni\<rparr>) u) v"
      "v = t \<or> (\<exists>q. query_packet env ni i q v = Some (r, t))"
    | (known) i u v where "etharp_find_entry (Some ip) ETHARP_FLAG_TRY_HARD s = Some (Inr i, u)" "occupied (arp_table u ! i)"
      "same_table u v" "v = t \<or> (\<exists>q. query_packet env ni i q v = Some (r, t))"
  using assms unfolding etharp_query_def Let_def occupied_def
  by (auto split: Option.bind_splits if_splits option.splits sum.splits dest!: etharp_request_table)
    (meson same_table_refl(1))+

lemma etharp_query_inv:
  assumes "etharp_query env ni ip q s = Some (r, t)" "arp_inv s"
  shows "arp_inv t"
  using assms(1)
proof (cases rule: etharp_query_cases)
  case none
  then show ?thesis using find_entry_result [OF none assms(2)] assms(2) by simp
next
  case (fresh i u v)
  let ?e = "(arp_table u ! i)\<lparr>arp_state := ETHARP_STATE_PENDING, arp_netif := Some ni\<rparr>"
  note own = find_entry_owner [OF fresh(1) assms(2)]
  have "entry_ok ?e" using arp_inv_nth [OF own(1,2)] own(4) [OF fresh(2)]
    by (simp add: entry_ok_def ARP_MAXAGE_def ARP_MAXPENDING_def)
  then have "arp_inv (table_set i ?e u)" using find_entry_fill [OF fresh(1) assms(2), of ?e] own(1,3) by (simp add: arp_inv_def)
  then have v: "arp_inv v" "occupied (arp_table v ! i)" "i < length (arp_table v)"
    using fresh(3) own(2) arp_inv_same [of "table_set i ?e u" v] by (auto simp: same_table_def occupied_def)
  show ?thesis using fresh(4) v query_packet_inv by blast
next
  case (known i u v)
  note own = find_entry_owner [OF known(1) assms(2)]
  have "arp_inv v" "occupied (arp_table v ! i)" "i < length (arp_table v)"
    using known(2,3) own(1,2) arp_inv_same by (auto simp: same_table_def)
  then show ?thesis using known(4) query_packet_inv by blast
qed (use assms(2) in simp)

lemma find_stable_Some:
  "find_stable ip es k = Some i \<Longrightarrow> k \<le> i \<and> i < k + length es \<and> stable (arp_state (es ! (i - k))) \<and> arp_ip (es ! (i - k)) = ip"
  by (induction es arbitrary: k) (fastforce split: if_splits simp: nth_Cons' Suc_diff_le)+

lemma output_unicast_inv:
  assumes "output_unicast env ni q ip s = Some (r, t)" "arp_inv s"
  shows "arp_inv t"
proof -
  consider "etharp_output_to_arp_index env ni q (etharp_cached_entry s) s = Some (r, t)"
    | i where "find_stable ip (arp_table s) 0 = Some i"
        "etharp_output_to_arp_index env ni q i (s\<lparr>etharp_cached_entry := i\<rparr>) = Some (r, t)"
    | "etharp_query env ni ip (Some q) s = Some (r, t)"
    using assms(1) unfolding output_unicast_def by (auto split: Option.bind_splits if_splits option.splits)
  then show ?thesis
  proof cases
    case 2
    then have "arp_inv (s\<lparr>etharp_cached_entry := i\<rparr>)"
      using find_stable_Some [OF 2(1)] arp_inv_cached [OF assms(2)] arp_inv_length [OF assms(2)] by auto
    then show ?thesis using 2(2) output_to_index_inv by blast
  qed (use assms(2) output_to_index_inv etharp_query_inv in blast)+
qed

lemma etharp_output_inv: "etharp_output env ni q ip s = Some (r, t) \<Longrightarrow> arp_inv s \<Longrightarrow> arp_inv t"
  by (auto simp: etharp_output_def Let_def split: if_splits
      intro: output_unicast_inv arp_inv_same [OF _ ethernet_output_table])

text \<open>Frames.\<close>

lemma pass_up_inv:
  assumes "pass_up env p ni accept s = Some t" "arp_inv s" "\<And>s t. accept s = Some t \<Longrightarrow> arp_inv s \<Longrightarrow> arp_inv t"
  shows "arp_inv t"
proof -
  consider "same_table s t" | h where "accept (s\<lparr>pheap := h\<rparr>) = Some t"
    using assms(1) unfolding pass_up_def
    by (auto split: Option.bind_splits if_splits prod.splits dest!: free_pbuf_table)
  then show ?thesis using assms(2,3) arp_inv_same same_table_refl(2) by cases blast+
qed

lemma ethernet_input_inv:
  assumes "ethernet_input ip4_input env p ni s = Some (r, t)" "arp_inv s"
    "\<And>s t. ip4_input p ni s = Some t \<Longrightarrow> arp_inv s \<Longrightarrow> arp_inv t"
  shows "arp_inv t"
proof -
  consider "same_table s t" | h where "pass_up env p ni (ip4_input p ni) (s\<lparr>pheap := h\<rparr>) = Some t"
    | h where "pass_up env p ni (etharp_input env p (Some ni)) (s\<lparr>pheap := h\<rparr>) = Some t"
    using assms(1) unfolding ethernet_input_def Let_def
    by (auto split: Option.bind_splits if_splits dest!: free_pbuf_table)
  then show ?thesis
  proof cases
    case 2
    then show ?thesis using pass_up_inv [OF 2 arp_inv_same [OF assms(2) same_table_refl(2)]] assms(3) by blast
  next
    case 3
    then show ?thesis using pass_up_inv [OF 3 arp_inv_same [OF assms(2) same_table_refl(2)]] etharp_input_inv by blast
  qed (use assms(2) arp_inv_same in blast)
qed

section \<open>Every reachable table is well formed\<close>

definition arp_start :: "pbuf_heap \<Rightarrow> arp" where
  "arp_start h = \<lparr>arp_table = replicate ARP_TABLE_SIZE empty_entry, etharp_cached_entry = 0, pheap = h, sent = []\<rparr>"

text \<open>
  The calls that the rest of the stack makes, in any order: a frame comes in, an IP packet goes out,
  an address is queried, a second passes, an interface goes down; in between the rest of the stack
  may do what it likes with the pbufs and its own part of the state. A frame with an IP packet is
  processed up to the call of \<^verbatim>\<open>ip4_input\<close>, the last thing \<^verbatim>\<open>ethernet_input\<close> does with it; what IP, ICMP
  and TCP then do are further steps, as they reach the ARP module only through \<^verbatim>\<open>etharp_output\<close>.
\<close>

inductive arp_reach :: "link_env \<Rightarrow> 'a arp_scheme \<Rightarrow> bool" for env where
  start: "arp_table s = replicate ARP_TABLE_SIZE empty_entry \<Longrightarrow> etharp_cached_entry s = 0 \<Longrightarrow> arp_reach env s"
| frame: "arp_reach env s \<Longrightarrow> ethernet_input (\<lambda>p ni. Some) env p ni s = Some (r, t) \<Longrightarrow> arp_reach env t"
| packet_out: "arp_reach env s \<Longrightarrow> etharp_output env ni q ip s = Some (r, t) \<Longrightarrow> arp_reach env t"
| query: "arp_reach env s \<Longrightarrow> etharp_query env ni ip q' s = Some (r, t) \<Longrightarrow> arp_reach env t"
| tick: "arp_reach env s \<Longrightarrow> etharp_tmr env s = Some t \<Longrightarrow> arp_reach env t"
| down: "arp_reach env s \<Longrightarrow> etharp_cleanup_netif ni s = Some t \<Longrightarrow> arp_reach env t"
| rest: "arp_reach env s \<Longrightarrow> same_table s t \<Longrightarrow> arp_reach env t"

lemma arp_empty_inv: "arp_table s = replicate ARP_TABLE_SIZE empty_entry \<Longrightarrow> etharp_cached_entry s = 0 \<Longrightarrow> arp_inv s"
  by (auto simp: arp_inv_def table_ok_def unique_ips_def ARP_TABLE_SIZE_def)

lemma arp_start_inv: "arp_inv (arp_start h)"
  by (rule arp_empty_inv) (simp_all add: arp_start_def)

lemma arp_reach_inv:
  assumes "arp_reach env s"
  shows "arp_inv s"
  using assms
proof (induction rule: arp_reach.induct)
  case (frame s p ni r t)
  then show ?case by (auto intro: ethernet_input_inv)
next
  case (rest s t)
  then show ?case using arp_inv_same by blast
qed (auto intro: arp_empty_inv etharp_output_inv etharp_query_inv etharp_tmr_inv etharp_cleanup_inv)

text \<open>C37: in every reachable state of the ARP module the table has ten entries, no IP address is in two
  entries, a packet waits only on a pending entry, no pending entry is older than five seconds and
  none older than 300, and the entry remembered for the output path is inside the table. The states are
  those after any sequence of frames, outgoing packets, queries, timer ticks and interfaces going down,
  with any work of the upper layers on pbufs and their own state in between.\<close>

theorem arp_cache_invariant:
  assumes "arp_reach env s"
  shows "length (arp_table s) = ARP_TABLE_SIZE \<and> etharp_cached_entry s < ARP_TABLE_SIZE \<and>
    (\<forall>i < ARP_TABLE_SIZE. \<forall>j < ARP_TABLE_SIZE. i \<noteq> j \<longrightarrow> occupied (arp_table s ! i) \<longrightarrow> occupied (arp_table s ! j) \<longrightarrow>
       arp_ip (arp_table s ! i) \<noteq> arp_ip (arp_table s ! j)) \<and>
    (\<forall>e \<in> set (arp_table s). (arp_q e \<noteq> None \<longrightarrow> arp_state e = ETHARP_STATE_PENDING) \<and>
       (arp_state e = ETHARP_STATE_PENDING \<longrightarrow> ctime e < ARP_MAXPENDING) \<and> (occupied e \<longrightarrow> ctime e < ARP_MAXAGE))"
  using arp_reach_inv [OF assms]
  unfolding arp_inv_def table_ok_def unique_ips_def entry_ok_def by metis

definition example_netif :: netif where
  "example_netif = \<lparr>hwaddr = [2, 0, 0, 0, 0, 1], hwaddr_len = 6, ip_addr = IP4_ADDR 10 0 0 1,
     netmask = IP4_ADDR 255 255 255 0, gw = IP4_ADDR 10 0 0 254, mtu = 1500,
     netif_flags = NETIF_FLAG_BROADCAST OR NETIF_FLAG_ETHARP\<rparr>"

definition example_link :: link_env where
  "example_link = \<lparr>netif_list = [0], netif_default = Some 0, netif_of = \<lambda>_. example_netif,
     link_malloc = \<lambda>h n. Some 100, linkoutput = \<lambda>_ _ _. ERR_OK\<rparr>"

text \<open>A state with one pending entry: the address 10.0.0.7 has been queried.\<close>

lemma example_query:
  "case etharp_query example_link 0 (IP4_ADDR 10 0 0 7) None (arp_start example_heap) of
     None \<Rightarrow> False | Some (r, t) \<Rightarrow> arp_state (arp_table t ! 0) = ETHARP_STATE_PENDING"
  by code_simp

theorem arp_cache_invariant_witness:
  "\<exists>s :: arp. arp_reach example_link s \<and> arp_state (arp_table s ! 0) = ETHARP_STATE_PENDING \<and>
    ctime (arp_table s ! 0) < ARP_MAXPENDING \<and> length (arp_table s) = ARP_TABLE_SIZE \<and> etharp_cached_entry s < ARP_TABLE_SIZE"
proof -
  obtain r t where t: "etharp_query example_link 0 (IP4_ADDR 10 0 0 7) None (arp_start example_heap) = Some (r, t)"
    "arp_state (arp_table t ! 0) = ETHARP_STATE_PENDING" using example_query by (auto split: option.splits)
  have r: "arp_reach example_link t"
    by (rule arp_reach.query [OF arp_reach.start t(1)]) (simp_all add: arp_start_def)
  from arp_cache_invariant [OF r] have l: "length (arp_table t) = ARP_TABLE_SIZE" "etharp_cached_entry t < ARP_TABLE_SIZE"
    "\<forall>e \<in> set (arp_table t). arp_state e = ETHARP_STATE_PENDING \<longrightarrow> ctime e < ARP_MAXPENDING" by auto
  then have "arp_table t ! 0 \<in> set (arp_table t)" by (simp add: ARP_TABLE_SIZE_def)
  then show ?thesis using r t(2) l by blast
qed

end
