(* ===== verification/Packets.thy ===== *)
theory Packets
  imports Ethernet
begin

text \<open>
  Packets that are owned separately: live chains of pbufs that share no pbuf, what freeing, sending
  and allocating do to the others, and the frames and ARP packets that are handed to the driver.
\<close>

section \<open>Ownership of packets\<close>

text \<open>The payload of the first pbuf is in its memory, also when it is empty.\<close>

definition head_ok :: "pbuf \<Rightarrow> bool" where
  "head_ok b \<longleftrightarrow> (\<exists>off. payload b = Some off \<and> 0 \<le> off \<and> nat off + unat (len b) \<le> length (area b))"

definition packet_at :: "pbuf_heap \<Rightarrow> nat \<Rightarrow> (nat \<times> pbuf) list \<Rightarrow> bool" where
  "packet_at h p xs \<longleftrightarrow> chain (pbufs h) (Some p) xs \<and> live_refs xs \<and> head_ok (snd (hd xs))"

text \<open>The packets \<open>P\<close> are live and no two of them share a pbuf.\<close>

definition owns :: "pbuf_heap \<Rightarrow> nat set \<Rightarrow> bool" where
  "owns h P \<longleftrightarrow> (\<forall>p \<in> P. \<exists>xs. packet_at h p xs) \<and>
     (\<forall>p \<in> P. \<forall>q \<in> P. p \<noteq> q \<longrightarrow> (\<forall>xs ys. chain (pbufs h) (Some p) xs \<longrightarrow> chain (pbufs h) (Some q) ys \<longrightarrow>
        fst ` set xs \<inter> fst ` set ys = {}))"

text \<open>The packets \<open>P\<close> are the same in both stores.\<close>

definition keeps :: "nat set \<Rightarrow> pbuf_heap \<Rightarrow> pbuf_heap \<Rightarrow> bool" where
  "keeps P h h' \<longleftrightarrow> (\<forall>p \<in> P. \<forall>xs. chain (pbufs h) (Some p) xs \<longrightarrow> chain (pbufs h') (Some p) xs)"

lemma keeps_refl [simp]: "keeps P h h"
  by (simp add: keeps_def)

lemma keeps_trans [trans]: "keeps P h h' \<Longrightarrow> keeps P h' h'' \<Longrightarrow> keeps P h h''"
  by (simp add: keeps_def)

lemma keeps_mono: "keeps P h h' \<Longrightarrow> Q \<subseteq> P \<Longrightarrow> keeps Q h h'"
  by (auto simp: keeps_def)

lemma chain_cong: "chain m p xs \<Longrightarrow> (\<And>a. a \<in> fst ` set xs \<Longrightarrow> m' a = m a) \<Longrightarrow> chain m' p xs"
  by (induction xs arbitrary: p) auto

lemma packet_at_Cons: "packet_at h p xs \<Longrightarrow> \<exists>b ys. xs = (p, b) # ys \<and> pbufs h p = Some b \<and> head_ok b"
  by (cases xs) (auto simp: packet_at_def)

lemma packet_at_head: "chain (pbufs h) (Some p) xs \<Longrightarrow> p \<in> fst ` set xs"
  by (cases xs) auto

lemma ownsD: "owns h P \<Longrightarrow> p \<in> P \<Longrightarrow> \<exists>xs. packet_at h p xs"
  by (simp add: owns_def)

lemma owns_disjoint:
  "owns h P \<Longrightarrow> p \<in> P \<Longrightarrow> q \<in> P \<Longrightarrow> p \<noteq> q \<Longrightarrow> chain (pbufs h) (Some p) xs \<Longrightarrow> chain (pbufs h) (Some q) ys \<Longrightarrow>
   fst ` set xs \<inter> fst ` set ys = {}"
  unfolding owns_def by blast

lemma ownsI:
  "(\<And>p. p \<in> P \<Longrightarrow> \<exists>xs. packet_at h p xs) \<Longrightarrow>
   (\<And>p q xs ys. p \<in> P \<Longrightarrow> q \<in> P \<Longrightarrow> p \<noteq> q \<Longrightarrow> chain (pbufs h) (Some p) xs \<Longrightarrow> chain (pbufs h) (Some q) ys \<Longrightarrow>
      fst ` set xs \<inter> fst ` set ys = {}) \<Longrightarrow> owns h P"
  by (simp add: owns_def)

lemma owns_mono: "owns h P \<Longrightarrow> Q \<subseteq> P \<Longrightarrow> owns h Q"
  by (rule ownsI) (meson ownsD subsetD, metis owns_disjoint subsetD)

lemma owns_keeps:
  assumes "owns h P" "keeps P h h'"
  shows "owns h' P"
proof -
  have same: "chain (pbufs h) (Some p) xs" if c: "p \<in> P" "chain (pbufs h') (Some p) xs" for p xs
  proof -
    obtain ys where ys: "chain (pbufs h) (Some p) ys" using ownsD [OF assms(1) c(1)] by (auto simp: packet_at_def)
    then have "chain (pbufs h') (Some p) ys" using assms(2) c(1) by (simp add: keeps_def)
    then show ?thesis using ys chain_unique [OF c(2)] by blast
  qed
  have "\<exists>xs. packet_at h' p xs" if "p \<in> P" for p
    using ownsD [OF assms(1) that] assms(2) that unfolding packet_at_def keeps_def by blast
  then show ?thesis using same by (intro ownsI) (simp, metis owns_disjoint [OF assms(1)])
qed

text \<open>A change of the pbufs of one packet only leaves the others.\<close>

lemma keeps_others:
  assumes "owns h P" "p \<in> P" "chain (pbufs h) (Some p) xs" "\<And>a. a \<notin> fst ` set xs \<Longrightarrow> pbufs h' a = pbufs h a"
  shows "keeps (P - {p}) h h'"
  unfolding keeps_def
proof (intro ballI allI impI)
  fix q ys
  assume q: "q \<in> P - {p}" "chain (pbufs h) (Some q) ys"
  then have "fst ` set ys \<inter> fst ` set xs = {}" using owns_disjoint [OF assms(1) _ assms(2)] assms(3) by blast
  then show "chain (pbufs h') (Some q) ys" using assms(4) by (intro chain_cong [OF q(2)]) blast
qed

lemma owns_free:
  assumes "owns h P" "p \<in> P"
  shows "\<exists>n h'. pbuf_free (Some p) h = Some (n, h') \<and> owns h' (P - {p}) \<and> keeps (P - {p}) h h'"
proof -
  obtain xs where xs: "packet_at h p xs" using ownsD [OF assms] by blast
  then have c: "chain (pbufs h) (Some p) xs" "live_refs xs" "xs \<noteq> []" by (auto simp: packet_at_def)
  have "keeps (P - {p}) h (unref_chain xs h)" using assms c(1) by (rule keeps_others) (rule unref_chain_other)
  then show ?thesis using pbuf_free_eq [OF c(1,3,2)] owns_keeps owns_mono [OF assms(1)] by (metis Diff_subset)
qed

lemma owns_put_head:
  assumes "owns h P" "p \<in> P" "packet_at h p ((p, b) # xs)" "pnext b' = pnext b" "0 < ref b'" "head_ok b'"
  shows "owns (put p b' h) P" "packet_at (put p b' h) p ((p, b') # xs)" "keeps (P - {p}) h (put p b' h)"
proof -
  have c: "chain (pbufs h) (Some p) ((p, b) # xs)" using assms(3) by (simp add: packet_at_def)
  then have p: "p \<notin> fst ` set xs" using chain_distinct [OF c] by simp
  show k: "keeps (P - {p}) h (put p b' h)" using assms(1,2) c by (rule keeps_others) auto
  show new: "packet_at (put p b' h) p ((p, b') # xs)" using assms(3-6) p by (auto simp: packet_at_def)
  have rest: "owns (put p b' h) (P - {p})" using owns_keeps [OF owns_mono [OF assms(1)] k] by blast
  have same: "ys = (p, b') # xs" if "chain (pbufs (put p b' h)) (Some p) ys" for ys
    using chain_unique [OF that] new by (simp add: packet_at_def)
  have sep: "fst ` set ((p, b') # xs) \<inter> fst ` set zs = {}" if q: "q \<in> P - {p}" "chain (pbufs (put p b' h)) (Some q) zs" for q zs
  proof -
    obtain ws where ws: "chain (pbufs h) (Some q) ws" using ownsD [OF assms(1)] q(1) by (auto simp: packet_at_def)
    then have "ws = zs" using k q chain_unique unfolding keeps_def by blast
    then show ?thesis using owns_disjoint [OF assms(1,2) _ _ c ws] q(1) by auto
  qed
  show "owns (put p b' h) P"
  proof (rule ownsI)
    fix q assume "q \<in> P"
    then show "\<exists>xs. packet_at (put p b' h) q xs" using new ownsD [OF rest, of q] by (cases "q = p") (rule exI, simp, simp)
  next
    fix q r ys zs
    assume q: "q \<in> P" "r \<in> P" "q \<noteq> r" "chain (pbufs (put p b' h)) (Some q) ys" "chain (pbufs (put p b' h)) (Some r) zs"
    consider "q = p" | "r = p" | "q \<noteq> p" "r \<noteq> p" by blast
    then show "fst ` set ys \<inter> fst ` set zs = {}"
    proof cases
      case 1
      then show ?thesis using q same [of ys] sep [of r zs] by simp
    next
      case 2
      then show ?thesis using q same [of zs] sep [of q ys] by (simp add: Int_commute)
    next
      case 3
      then show ?thesis using q owns_disjoint [OF rest _ _ q(3-5)] by simp
    qed
  qed
qed

lemma owns_new:
  assumes "owns h P" "pbufs h a = None" "pnext b = None" "0 < ref b" "head_ok b"
  shows "a \<notin> P" "keeps P h (put a b h)" "owns (put a b h) (insert a P)" "packet_at (put a b h) a [(a, b)]"
proof -
  have none: "a \<notin> fst ` set xs" if "chain (pbufs h) (Some p) xs" for p xs
    using chain_lookup [OF that] assms(2) by force
  show a: "a \<notin> P" using ownsD [OF assms(1), of a] none packet_at_head unfolding packet_at_def by blast
  show k: "keeps P h (put a b h)" unfolding keeps_def using none by (auto intro: chain_cong)
  show new: "packet_at (put a b h) a [(a, b)]" using assms(3-5) by (simp add: packet_at_def)
  have rest: "owns (put a b h) P" using owns_keeps [OF assms(1) k] .
  have sep: "a \<notin> fst ` set zs" if q: "q \<in> P" "chain (pbufs (put a b h)) (Some q) zs" for q zs
  proof -
    obtain ws where "chain (pbufs h) (Some q) ws" using ownsD [OF assms(1) q(1)] by (auto simp: packet_at_def)
    then show ?thesis using none k q chain_unique unfolding keeps_def by blast
  qed
  have same: "ys = [(a, b)]" if "chain (pbufs (put a b h)) (Some a) ys" for ys
    using chain_unique [OF that] new by (simp add: packet_at_def)
  show "owns (put a b h) (insert a P)"
  proof (rule ownsI)
    fix q assume "q \<in> insert a P"
    then show "\<exists>xs. packet_at (put a b h) q xs" using new ownsD [OF rest, of q] by (cases "q = a") (rule exI, simp, simp)
  next
    fix q r ys zs
    assume q: "q \<in> insert a P" "r \<in> insert a P" "q \<noteq> r" "chain (pbufs (put a b h)) (Some q) ys" "chain (pbufs (put a b h)) (Some r) zs"
    consider "q = a" "r \<in> P" | "r = a" "q \<in> P" | "q \<in> P" "r \<in> P" using q(1-3) by blast
    then show "fst ` set ys \<inter> fst ` set zs = {}"
    proof cases
      case 1
      then show ?thesis using same [of ys] sep [of r zs] q by simp
    next
      case 2
      then show ?thesis using same [of zs] sep [of q ys] q by simp
    next
      case 3
      then show ?thesis using owns_disjoint [OF rest _ _ q(3-5)] by simp
    qed
  qed
qed

section \<open>Frames\<close>

text \<open>The bytes of the packet at \<open>p\<close>.\<close>

definition frame :: "pbuf_heap \<Rightarrow> nat \<Rightarrow> bytes \<Rightarrow> bool" where
  "frame h p bs \<longleftrightarrow> (\<exists>xs. chain (pbufs h) (Some p) xs \<and> content (map snd xs) = bs)"

lemma frame_keeps: "frame h p bs \<Longrightarrow> keeps P h h' \<Longrightarrow> p \<in> P \<Longrightarrow> frame h' p bs"
  unfolding frame_def keeps_def by blast

text \<open>There is room for the Ethernet header in front of the payload.\<close>

definition has_room :: "pbuf \<Rightarrow> bool" where
  "has_room b \<longleftrightarrow> ptype b \<in> {PBUF_RAM, PBUF_POOL} \<and> (case payload b of None \<Rightarrow> False | Some off \<Rightarrow> 14 \<le> off)"

definition with_header :: "bytes \<Rightarrow> pbuf \<Rightarrow> pbuf" where
  "with_header hdr b = (let off = nat (the (payload b)) in
     b\<lparr>payload := Some (int off - 14), len := len b + 14, tot_len := tot_len b + 14,
       area := take (off - 14) (area b) @ hdr @ drop off (area b)\<rparr>)"

lemma unat_add_le: "unat (a + b) \<le> unat a + unat b" for a b :: u16
  by (metis unat_word_ariths(1) mod_less_eq_dividend)

lemma with_header_ok:
  assumes "head_ok b" "has_room b" "length hdr = 14"
  shows "head_ok (with_header hdr b)"
    and "unat (len b) + 14 < 65536 \<Longrightarrow> pdata (with_header hdr b) = hdr @ pdata b"
proof -
  obtain off where off: "payload b = Some off" "14 \<le> off" "nat off + unat (len b) \<le> length (area b)"
    using assms(1,2) by (auto simp: head_ok_def has_room_def)
  let ?o = "nat off"
  have o: "14 \<le> ?o" "?o \<le> length (area b)" using off by linarith+
  have l: "unat (len b + 14) \<le> unat (len b) + 14" using unat_add_le [of "len b" 14] by simp
  show "head_ok (with_header hdr b)"
    using off o l assms(3) by (auto simp: head_ok_def with_header_def Let_def nat_diff_distrib')
  assume "unat (len b) + 14 < 65536"
  then have "unat (len b + 14) = unat (len b) + 14" using unat_add_u16 [of "len b" 14] by simp
  then show "pdata (with_header hdr b) = hdr @ pdata b"
    using off o assms(3) by (simp add: pdata_def with_header_def Let_def nat_diff_distrib')
qed

text \<open>An interface that Ethernet can use.\<close>

definition link_ok :: "link_env \<Rightarrow> bool" where
  "link_ok env \<longleftrightarrow> (\<forall>ni. hwaddr_len (netif_of env ni) = ETH_HWADDR_LEN \<and> length (hwaddr (netif_of env ni)) = 6) \<and>
     (\<forall>h n a. link_malloc env h n = Some a \<longrightarrow> pbufs h a = None)"

lemma link_okD: "link_ok env \<Longrightarrow> hwaddr_len (netif_of env ni) = ETH_HWADDR_LEN" "link_ok env \<Longrightarrow> length (hwaddr (netif_of env ni)) = 6"
  "link_ok env \<Longrightarrow> link_malloc env h n = Some a \<Longrightarrow> pbufs h a = None"
  by (auto simp: link_ok_def)

lemma length_eth_hdr: "length dst = 6 \<Longrightarrow> length src = 6 \<Longrightarrow> length (eth_hdr dst src ty) = 14"
  by (simp add: eth_hdr_def le16_bytes_def)

lemma ethernet_output_eq:
  assumes "pbufs (pheap s) p = Some b" "head_ok b" "link_ok env" "length src = 6" "length dst = 6"
  shows "ethernet_output env ni p src dst ty s =
    (if has_room b
     then let h = put p (with_header (eth_hdr dst src (lwip_htons ty)) b) (pheap s)
          in Some (linkoutput env ni p h, s\<lparr>pheap := h, sent := sent s @ [(ni, p, h)]\<rparr>)
     else Some (ERR_BUF, s))"
proof -
  obtain off where off: "payload b = Some off" "0 \<le> off" "nat off + unat (len b) \<le> length (area b)"
    using assms(2) by (auto simp: head_ok_def)
  let ?hdr = "eth_hdr dst src (lwip_htons ty)"
  have l: "length ?hdr = 14" using length_eth_hdr assms(4,5) by simp
  then have ne: "?hdr \<noteq> []" by auto
  show ?thesis
  proof (cases "has_room b")
    case True
    then have ge: "14 \<le> off" and ty: "ptype b = PBUF_RAM \<or> ptype b = PBUF_POOL" using off(1) by (auto simp: has_room_def)
    let ?m = "b\<lparr>payload := Some (off - 14), len := len b + 14, tot_len := tot_len b + 14\<rparr>"
    have o: "nat (off - 14) = nat off - 14" "int (nat off) = off" "nat off - 14 + 14 = nat off" using ge by linarith+
    have h: "pbuf_header (Some p) (int SIZEOF_ETH_HDR) (pheap s) = Some (0, put p ?m (pheap s))"
      using assms(1) off(1) ge ty by (auto simp: pbuf_header_def pbuf_header_impl_def SIZEOF_ETH_HDR_def Let_def)
    have le: "14 \<le> off \<and> off \<le> int (length (area b))" using off ge by linarith
    have "payload_write ?m 0 ?hdr = Some (with_header ?hdr b)"
      using le off(1) ne l o by (simp add: payload_write_def with_header_def Let_def)
    then have "poke p 0 ?hdr (s\<lparr>pheap := put p ?m (pheap s)\<rparr>) = Some (s\<lparr>pheap := put p (with_header ?hdr b) (pheap s)\<rparr>)"
      by (simp add: poke_def)
    then show ?thesis using True h link_okD(1) [OF assms(3), of ni] by (simp add: ethernet_output_def Let_def)
  next
    case False
    then have "pbuf_header (Some p) (int SIZEOF_ETH_HDR) (pheap s) = Some (1, pheap s)"
      using assms(1) off(1,2) by (cases "ptype b") (auto simp: has_room_def pbuf_header_def pbuf_header_impl_def SIZEOF_ETH_HDR_def Let_def)
    then show ?thesis using False by (simp add: ethernet_output_def)
  qed
qed

text \<open>Sending keeps all packets and, if there is room, hands the frame to the driver.\<close>

lemma ethernet_output_total:
  assumes "owns (pheap s) P" "p \<in> P" "packet_at (pheap s) p ((p, b) # xs)" "link_ok env" "length src = 6" "length dst = 6"
  shows "\<exists>r t. ethernet_output env ni p src dst ty s = Some (r, t) \<and> arp_table t = arp_table s \<and>
    etharp_cached_entry t = etharp_cached_entry s \<and> owns (pheap t) P \<and> keeps (P - {p}) (pheap s) (pheap t) \<and>
    (if has_room b then sent t = sent s @ [(ni, p, pheap t)] \<and> r = linkoutput env ni p (pheap t) \<and>
       (unat (len b) + 14 < 65536 \<longrightarrow>
          frame (pheap t) p (eth_hdr dst src (lwip_htons ty) @ content (b # map snd xs)))
     else r = ERR_BUF \<and> t = s)"
proof -
  have b: "pbufs (pheap s) p = Some b" "head_ok b" "0 < ref b" using assms(3) by (auto simp: packet_at_def)
  note eq = ethernet_output_eq [OF b(1,2) assms(4-6), of ni ty]
  show ?thesis
  proof (cases "has_room b")
    case True
    let ?hdr = "eth_hdr dst src (lwip_htons ty)"
    let ?b = "with_header ?hdr b"
    note ok = with_header_ok [OF b(2) True length_eth_hdr [OF assms(6,5)], of "lwip_htons ty"]
    have "pnext ?b = pnext b" "0 < ref ?b" using b(3) by (simp_all add: with_header_def Let_def)
    note own = owns_put_head [OF assms(1-3) this ok(1)]
    have "frame (put p ?b (pheap s)) p (?hdr @ content (b # map snd xs))" if "unat (len b) + 14 < 65536"
      using own(2) ok(2) [OF that] unfolding frame_def packet_at_def
      by (intro exI [of _ "(p, ?b) # xs"]) simp
    then show ?thesis using True own(1,3) unfolding eq by (simp add: Let_def)
  next
    case False
    then show ?thesis using assms(1) unfolding eq by simp
  qed
qed

section \<open>ARP packets\<close>

definition arp_packet :: "u16 \<Rightarrow> bytes \<Rightarrow> u32 \<Rightarrow> bytes \<Rightarrow> u32 \<Rightarrow> bytes" where
  "arp_packet opcode shw sip dhw dip =
     le16_bytes (PP_HTONS HWTYPE_ETHERNET) @ le16_bytes (PP_HTONS ETHTYPE_IP) @ [6, 4] @ le16_bytes (lwip_htons opcode) @
     shw @ le32_bytes sip @ dhw @ le32_bytes dip"

definition overwrite :: "bytes \<Rightarrow> nat \<Rightarrow> bytes \<Rightarrow> bytes" where
  "overwrite xs k ds = take k xs @ ds @ drop (k + length ds) xs"

lemma length_overwrite [simp]: "k + length ds \<le> length xs \<Longrightarrow> length (overwrite xs k ds) = length xs"
  by (simp add: overwrite_def)

lemma poke_eq:
  assumes "pbufs (pheap s) p = Some b" "payload b = Some (int off)" "off + k + length ds \<le> length (area b)" "ds \<noteq> []"
  shows "poke p k ds s = Some (s\<lparr>pheap := put p (b\<lparr>area := overwrite (area b) (off + k) ds\<rparr>) (pheap s)\<rparr>)"
  using assms by (simp add: poke_def payload_write_def Let_def overwrite_def nat_add_distrib flip: of_nat_add)

lemma length_le16_bytes [simp]: "length (le16_bytes w) = 2"
  by (simp add: le16_bytes_def)

lemma le_bytes_nonempty [simp]: "le16_bytes w \<noteq> []" "le32_bytes v \<noteq> []"
  by (simp_all add: le16_bytes_def le32_bytes_def)

text \<open>The fields of the header, written one by one.\<close>

definition arp_fields :: "u16 \<Rightarrow> bytes \<Rightarrow> u32 \<Rightarrow> bytes \<Rightarrow> u32 \<Rightarrow> (nat \<times> bytes) list" where
  "arp_fields opcode shw sip dhw dip =
     [(6, le16_bytes (lwip_htons opcode)), (8, shw), (18, dhw), (14, le32_bytes sip), (24, le32_bytes dip),
      (0, le16_bytes (PP_HTONS HWTYPE_ETHERNET)), (2, le16_bytes (PP_HTONS ETHTYPE_IP)), (4, [6]), (5, [4])]"

lemma arp_fields_packet:
  assumes "length xs = 44" "length shw = 6" "length dhw = 6"
  shows "foldl (\<lambda>xs (k, ds). overwrite xs (16 + k) ds) xs (arp_fields opcode shw sip dhw dip) =
    take 16 xs @ arp_packet opcode shw sip dhw dip"
  using assms by (simp add: arp_fields_def arp_packet_def overwrite_def)

lemma etharp_raw_eq:
  assumes "link_ok env" "length hwsrc = 6" "length hwdst = 6"
  shows "etharp_raw env ni ethsrc ethdst hwsrc ipsrc hwdst ipdst opcode s =
    (case link_malloc env (pheap s) 68 of
       None \<Rightarrow> Some (ERR_MEM, s)
     | Some p \<Rightarrow> do {
         (_, t) \<leftarrow> ethernet_output env ni p ethsrc ethdst ETHTYPE_ARP (s\<lparr>pheap := put p
           \<lparr>pnext = None, payload = Some 16, tot_len = 28, len = 28, ptype = PBUF_RAM, flags = 0, ref = 1,
            area = map (stale (pheap s) p) [0..<16] @ arp_packet opcode hwsrc ipsrc hwdst ipdst\<rparr> (pheap s)\<rparr>);
         t \<leftarrow> free_pbuf p t;
         Some (ERR_OK, t) })"
proof (cases "link_malloc env (pheap s) 68")
  case None
  then show ?thesis
    by (simp add: etharp_raw_def pbuf_alloc_def Let_def ram_size_def SIZEOF_STRUCT_PBUF_def SIZEOF_ETHARP_HDR_def PBUF_LINK_HLEN_def
        PBUF_LINK_ENCAPSULATION_HLEN_def)
next
  case (Some p)
  let ?xs = "map (stale (pheap s) p) [0..<44]"
  let ?b = "\<lambda>xs. \<lparr>pnext = None, payload = Some 16, tot_len = 28, len = 28, ptype = PBUF_RAM, flags = 0, ref = 1, area = xs\<rparr>"
  have al: "pbuf_alloc (link_malloc env (pheap s)) PBUF_LINK (of_nat SIZEOF_ETHARP_HDR) PBUF_RAM (pheap s) =
      Some (Some p, put p (?b ?xs) (pheap s))"
    using Some by (simp add: pbuf_alloc_def Let_def ram_size_def SIZEOF_STRUCT_PBUF_def SIZEOF_ETHARP_HDR_def PBUF_LINK_HLEN_def
        PBUF_LINK_ENCAPSULATION_HLEN_def)
  have pk: "poke p k ds (s\<lparr>pheap := put p (?b xs) (pheap s)\<rparr>) = Some (s\<lparr>pheap := put p (?b (overwrite xs (16 + k) ds)) (pheap s)\<rparr>)"
    if "length xs = 44" "k + length ds \<le> 28" "ds \<noteq> []" for k ds xs
    using that by (subst poke_eq [where b = "?b xs" and off = 16]) simp_all
  have ne: "hwsrc \<noteq> []" "hwdst \<noteq> []" using assms(2,3) by auto
  have fin: "foldl (\<lambda>xs (k, ds). overwrite xs (16 + k) ds) ?xs (arp_fields opcode hwsrc ipsrc hwdst ipdst) =
      map (stale (pheap s) p) [0..<16] @ arp_packet opcode hwsrc ipsrc hwdst ipdst"
    using arp_fields_packet [of ?xs hwsrc hwdst] assms(2,3) by (simp add: take_map)
  have "etharp_raw env ni ethsrc ethdst hwsrc ipsrc hwdst ipdst opcode s = do {
      (_, t) \<leftarrow> ethernet_output env ni p ethsrc ethdst ETHTYPE_ARP (s\<lparr>pheap := put p (?b
        (foldl (\<lambda>xs (k, ds). overwrite xs (16 + k) ds) ?xs (arp_fields opcode hwsrc ipsrc hwdst ipdst))) (pheap s)\<rparr>);
      t \<leftarrow> free_pbuf p t;
      Some (ERR_OK, t) }"
    unfolding etharp_raw_def al Let_def Option.bind.bind_lunit prod.case option.case arp_fields_def foldl.simps
    using assms(2,3) ne link_okD(1) [OF assms(1), of ni] by (simp add: pk SIZEOF_ETHARP_HDR_def ETH_HWADDR_LEN_def)
  then show ?thesis unfolding fin Some by simp
qed

lemma length_arp_packet [simp]: "length shw = 6 \<Longrightarrow> length dhw = 6 \<Longrightarrow> length (arp_packet op shw sip dhw dip) = 28"
  by (simp add: arp_packet_def)

lemma free_pbuf_total:
  assumes "owns (pheap s) P" "p \<in> P"
  shows "\<exists>h. free_pbuf p s = Some (s\<lparr>pheap := h\<rparr>) \<and> owns h (P - {p}) \<and> keeps (P - {p}) (pheap s) h"
  using owns_free [OF assms] by (auto simp: free_pbuf_def)

text \<open>Freeing adds no pbuf.\<close>

lemma pbuf_free_loop_dom:
  assumes "pbuf_free_loop p c h = Some (n, h')"
  shows "dom (pbufs h') \<subseteq> dom (pbufs h)"
proof -
  have "dom (pbufs (snd r)) \<subseteq> dom (pbufs h)" if "pbuf_free_loop p c h = Some r" for r
    using that
  proof (rule pbuf_free_loop.raw_induct [rotated])
    fix loop p c h r
    assume IH: "\<And>p c h r. loop p c h = Some r \<Longrightarrow> dom (pbufs (snd r)) \<subseteq> dom (pbufs h)"
      and eq: "(case p of
        None \<Rightarrow> Some (c, h)
      | Some a \<Rightarrow> do {
          b \<leftarrow> pbufs h a;
          lwip_assert (0 < ref b);
          (if ref b - 1 = 0 then loop (pnext b) (c + 1) (pbuf_release a b h)
           else Some (c, put a (b\<lparr>ref := ref b - 1\<rparr>) h))
        }) = Some r"
    have sub: "dom (pbufs (pbuf_release a b h)) \<subseteq> dom (pbufs h)" for a b by (auto split: if_splits)
    show "dom (pbufs (snd r)) \<subseteq> dom (pbufs h)"
    proof (cases p)
      case None
      then show ?thesis using eq by auto
    next
      case (Some a)
      then obtain b where b: "pbufs h a = Some b" using eq by (auto split: bind_splits)
      show ?thesis
      proof (cases "ref b - 1 = 0")
        case True
        then have "loop (pnext b) (c + 1) (pbuf_release a b h) = Some r" using eq Some b by (simp add: lwip_assert_def split: if_splits)
        then show ?thesis using IH sub by blast
      next
        case False
        then show ?thesis using eq Some b by (auto simp: lwip_assert_def split: if_splits)
      qed
    qed
  qed
  then show ?thesis using assms by fastforce
qed

lemma free_pbuf_dom: "free_pbuf p s = Some t \<Longrightarrow> dom (pbufs (pheap t)) \<subseteq> dom (pbufs (pheap s))"
proof -
  assume "free_pbuf p s = Some t"
  then obtain n h where "pbuf_free_loop (Some p) 0 (pheap s) = Some (n, h)" "t = s\<lparr>pheap := h\<rparr>"
    by (auto simp: free_pbuf_def pbuf_free_def split: bind_splits)
  then show ?thesis using pbuf_free_loop_dom by fastforce
qed

text \<open>What one ARP packet puts on the link: nothing without memory, else one frame.\<close>

definition arp_sent :: "link_env \<Rightarrow> nat \<Rightarrow> bytes \<Rightarrow> 'a arp_scheme \<Rightarrow> err_t \<Rightarrow> 'a arp_scheme \<Rightarrow> bool" where
  "arp_sent env ni bs s r t \<longleftrightarrow>
     (if link_malloc env (pheap s) 68 = None then r = ERR_MEM \<and> sent t = sent s
      else r = ERR_OK \<and> (\<exists>a h. sent t = sent s @ [(ni, a, h)] \<and> frame h a bs))"

text \<open>The rest of the state is kept.\<close>

definition arp_kept :: "nat set \<Rightarrow> 'a arp_scheme \<Rightarrow> 'a arp_scheme \<Rightarrow> bool" where
  "arp_kept P s t \<longleftrightarrow> arp_table t = arp_table s \<and> etharp_cached_entry t = etharp_cached_entry s \<and>
     owns (pheap t) P \<and> keeps P (pheap s) (pheap t)"

lemma etharp_raw_total:
  assumes "owns (pheap s) P" "link_ok env" "length ethsrc = 6" "length ethdst = 6" "length hwsrc = 6" "length hwdst = 6"
  shows "\<exists>r t. etharp_raw env ni ethsrc ethdst hwsrc ipsrc hwdst ipdst opcode s = Some (r, t) \<and> arp_kept P s t \<and>
    arp_sent env ni (eth_hdr ethdst ethsrc (lwip_htons ETHTYPE_ARP) @ arp_packet opcode hwsrc ipsrc hwdst ipdst) s r t \<and>
    dom (pbufs (pheap t)) \<subseteq> dom (pbufs (pheap s))"
proof (cases "link_malloc env (pheap s) 68")
  case None
  then show ?thesis using assms(1) by (simp add: etharp_raw_eq [OF assms(2,5,6)] arp_kept_def arp_sent_def)
next
  case (Some p)
  let ?arp = "arp_packet opcode hwsrc ipsrc hwdst ipdst"
  let ?b = "\<lparr>pnext = None, payload = Some 16, tot_len = 28, len = 28, ptype = PBUF_RAM, flags = 0, ref = 1,
            area = map (stale (pheap s) p) [0..<16] @ ?arp\<rparr>"
  let ?s = "s\<lparr>pheap := put p ?b (pheap s)\<rparr>"
  have l: "length ?arp = 28" using assms(5,6) by simp
  have ok: "head_ok ?b" using l by (simp add: head_ok_def)
  have data: "pdata ?b = ?arp" using l by (simp add: pdata_def)
  note new = owns_new [OF assms(1) link_okD(3) [OF assms(2) Some], of ?b, simplified, OF ok]
  have own: "owns (pheap ?s) (insert p P)" "packet_at (pheap ?s) p [(p, ?b)]" using new(3,4) by simp_all
  have room: "has_room ?b" "unat (len ?b) + 14 < 65536" by (simp_all add: has_room_def)
  obtain r t where t: "ethernet_output env ni p ethsrc ethdst ETHTYPE_ARP ?s = Some (r, t)" "arp_table t = arp_table s"
    "etharp_cached_entry t = etharp_cached_entry s" "owns (pheap t) (insert p P)" "keeps (insert p P - {p}) (pheap ?s) (pheap t)"
    "sent t = sent s @ [(ni, p, pheap t)]" "frame (pheap t) p (eth_hdr ethdst ethsrc (lwip_htons ETHTYPE_ARP) @ ?arp)"
    using ethernet_output_total [OF own(1) _ own(2) assms(2-4), of ni ETHTYPE_ARP] room data by auto
  obtain h where h: "free_pbuf p t = Some (t\<lparr>pheap := h\<rparr>)" "owns h (insert p P - {p})" "keeps (insert p P - {p}) (pheap t) h"
    using free_pbuf_total [OF t(4)] by blast
  have P: "insert p P - {p} = P" using new(1) by simp
  have "keeps P (pheap s) h" using new(2) t(5) h(3) unfolding P by (auto intro: keeps_trans)
  then have "arp_kept P s (t\<lparr>pheap := h\<rparr>)" using t h(2) P by (simp add: arp_kept_def)
  moreover have "arp_sent env ni (eth_hdr ethdst ethsrc (lwip_htons ETHTYPE_ARP) @ ?arp) s ERR_OK (t\<lparr>pheap := h\<rparr>)"
    using Some t(6,7) by (auto simp: arp_sent_def)
  moreover have "dom (pbufs h) \<subseteq> dom (pbufs (pheap s))"
  proof -
    let ?c = "with_header (eth_hdr ethdst ethsrc (lwip_htons ETHTYPE_ARP)) ?b"
    have "ethernet_output env ni p ethsrc ethdst ETHTYPE_ARP ?s =
        Some (linkoutput env ni p (put p ?c (pheap ?s)), ?s\<lparr>pheap := put p ?c (pheap ?s), sent := sent ?s @ [(ni, p, put p ?c (pheap ?s))]\<rparr>)"
      using ethernet_output_eq [OF _ ok assms(2-4), of ?s p ni ETHTYPE_ARP] room(1) by (simp add: Let_def)
    then have "pheap t = put p ?c (pheap ?s)" using t(1) by simp
    moreover have "pnext ?c = None" "ref ?c = 1" by (simp_all add: with_header_def Let_def)
    ultimately have "t\<lparr>pheap := h\<rparr> = t\<lparr>pheap := unref_chain [(p, ?c)] (put p ?c (pheap ?s))\<rparr>"
      using h(1) pbuf_free_eq [of "put p ?c (pheap ?s)" "Some p" "[(p, ?c)]"] by (simp add: free_pbuf_def)
    from arg_cong [OF this, of pheap] have "pbufs h = (pbufs (pheap s))(p := None)" using \<open>ref ?c = 1\<close> by (simp add: unref_chain_def)
    then show ?thesis by auto
  qed
  ultimately show ?thesis using t(1) h(1) Some by (simp add: etharp_raw_eq [OF assms(2,5,6)])
qed

definition request_frame :: "link_env \<Rightarrow> nat \<Rightarrow> bytes \<Rightarrow> u32 \<Rightarrow> bytes" where
  "request_frame env ni dst ip =
     eth_hdr dst (hwaddr (netif_of env ni)) (lwip_htons ETHTYPE_ARP) @
     arp_packet ARP_REQUEST (hwaddr (netif_of env ni)) (ip_addr (netif_of env ni)) ethzero ip"

lemma etharp_request_total:
  assumes "owns (pheap s) P" "link_ok env" "length dst = 6"
  shows "\<exists>r t. etharp_request_dst env ni ip dst s = Some (r, t) \<and> arp_kept P s t \<and>
    arp_sent env ni (request_frame env ni dst ip) s r t \<and> dom (pbufs (pheap t)) \<subseteq> dom (pbufs (pheap s))"
  using etharp_raw_total [OF assms(1,2) link_okD(2) [OF assms(2)] assms(3) link_okD(2) [OF assms(2)], of ethzero ni]
  by (simp add: etharp_request_dst_def request_frame_def Let_def ethzero_def)

section \<open>Copying a packet into one pbuf\<close>

lemma overwrite_twice:
  assumes "k + length ds + length es \<le> length xs"
  shows "overwrite (overwrite xs k ds) (k + length ds) es = overwrite xs k (ds @ es)"
  using assms by (simp add: overwrite_def ac_simps)

lemma overwrite_same [simp]: "overwrite xs k [] = xs"
  by (simp add: overwrite_def)

lemma payload_write_eq:
  assumes "payload b = Some base" "0 \<le> base" "nat base + off + length ds \<le> length (area b)"
  shows "payload_write b off ds = Some (b\<lparr>area := overwrite (area b) (nat base + off) ds\<rparr>)"
proof -
  have "nat (base + int off) = nat base + off" "base + int off + int (length ds) \<le> int (length (area b))" "0 \<le> base + int off"
    using assms by linarith+
  then show ?thesis using assms(1) by (simp add: payload_write_def overwrite_def Let_def add.assoc)
qed

text \<open>No pbuf of the packet is empty: an empty one at the end of the source trips an assertion of the
  loop, once the target is full.\<close>

definition no_empty :: "pbuf list \<Rightarrow> bool" where
  "no_empty bs \<longleftrightarrow> (\<forall>b \<in> set bs. len b \<noteq> 0)"

lemma no_empty_simps [simp]: "no_empty []" "no_empty (b # bs) \<longleftrightarrow> len b \<noteq> 0 \<and> no_empty bs"
  by (simp_all add: no_empty_def)

lemma packet_head_link:
  assumes "packet (map snd xs)" "no_empty (map snd xs)" "chain m p xs"
  shows "p = None \<or> (\<exists>a b. p = Some a \<and> m a = Some b \<and> (len b \<noteq> tot_len b \<or> pnext b = None))"
proof (cases xs)
  case (Cons x ys)
  obtain a b where x: "x = (a, b)" by (cases x)
  have "len b \<noteq> tot_len b \<or> pnext b = None"
  proof (cases ys)
    case (Cons y zs)
    then have "unat (tot_len b) > unat (len b)" using assms(1,2) x \<open>xs = x # ys\<close>
      by (simp add: unat_gt_0)
    then show ?thesis by auto
  qed (use assms(3) x Cons in simp)
  then show ?thesis using assms(3) Cons x by simp
qed (use assms(3) in simp)

lemma put_again: "put a c (put a b h) = put a c h"
  by (cases h) (simp add: fun_eq_iff)

lemma pbuf_copy_loop_flat:
  assumes "chain (pbufs h) p xs" "xs \<noteq> []" "packet (map snd xs)" "no_empty (map snd xs)" "a \<notin> fst ` set xs"
    and "pbufs h a = Some tb" "pnext tb = None" "payload tb = Some base" "0 \<le> base"
    and "nat base + unat (len tb) \<le> length (area tb)" "k + total_len (map snd xs) = unat (len tb)"
  shows "pbuf_copy_loop (Some a) (of_nat k) p 0 h =
    Some (put a (tb\<lparr>area := overwrite (area tb) (nat base + k) (content (map snd xs))\<rparr>) h)"
  using assms
proof (induction xs arbitrary: p h tb k)
  case (Cons x xs)
  obtain c b where x: "x = (c, b)" by (cases x)
  let ?tb = "tb\<lparr>area := overwrite (area tb) (nat base + k) (pdata b)\<rparr>" and ?k = "k + unat (len b)"
  have c: "p = Some c" "pbufs h c = Some b" "chain (pbufs h) (pnext b) xs" "c \<noteq> a" "payload_ok b" "a \<notin> fst ` set xs"
    "unat (len b) > 0" "packet (map snd xs)" "no_empty (map snd xs)" and tot: "?k + total_len (map snd xs) = unat (len tb)"
    using Cons.prems x by (auto simp: unat_gt_0)
  have lt: "unat (len tb) < 65536" by (rule unat_u16_less)
  have "k < 65536" "?k < 65536" using lt tot by linarith+
  then have ok: "unat (of_nat k :: u16) = k" "unat (of_nat k + len b) = ?k"
    using unat_of_nat_u16 [of k] unat_of_nat_u16 [of ?k] by simp_all
  have rd: "payload_read b 0 (unat (len b)) = Some (pdata b)" using payload_read_eq [OF c(5), of 0] c(5) by simp
  have wr: "payload_write tb k (pdata b) = Some ?tb"
    using payload_write_eq [OF Cons.prems(8,9)] Cons.prems(10) c(5) tot by simp
  have full: "(of_nat k + len b = len tb) \<longleftrightarrow> xs = []"
  proof -
    have "(of_nat k + len b = len tb) \<longleftrightarrow> ?k = unat (len tb)" using ok(2) by (metis unsigned_word_eqI)
    also have "\<dots> \<longleftrightarrow> total_len (map snd xs) = 0" using tot by linarith
    also have "\<dots> \<longleftrightarrow> xs = []" using c(9) by (cases xs) (auto simp: unat_eq_0)
    finally show ?thesis .
  qed
  have le: "of_nat k + len b \<le> len tb" using ok(2) tot by (simp add: word_le_nat_alt)
  let ?h = "put a ?tb h"
  have ch: "chain (pbufs ?h) (pnext b) xs" using c by simp
  have as: "case deref ?h (pnext b) of None \<Rightarrow> True | Some b \<Rightarrow> len b \<noteq> tot_len b \<or> pnext b = None"
    using packet_head_link [OF c(8,9) ch] by (auto simp: deref_def)
  have nx: "pnext b = None \<longleftrightarrow> xs = []" using c(3) by (cases xs) auto
  have n: "int (unat (len b)) \<le> int (unat (len tb)) - int k" using tot by linarith
  show ?case
  proof (cases "xs = []")
    case True
    then show ?thesis using Cons.prems(6,7) c(1,2) x rd wr full nx le as n ok(1)
      by (subst pbuf_copy_loop.simps) (simp add: Let_def deref_def)
  next
    case False
    have "pbuf_copy_loop (Some a) (of_nat k) p 0 h = pbuf_copy_loop (Some a) (of_nat ?k) (pnext b) 0 ?h"
      using Cons.prems(6,7) c(1,2) False rd wr full nx le as n ok(1)
      by (subst pbuf_copy_loop.simps) (simp add: Let_def deref_def, fastforce)
    also have "\<dots> = Some (put a (?tb\<lparr>area := overwrite (area ?tb) (nat base + ?k) (content (map snd xs))\<rparr>) ?h)"
      using Cons.prems(7-10) c(5) tot by (intro Cons.IH [OF ch False c(8,9,6)]) simp_all
    also have "overwrite (area ?tb) (nat base + ?k) (content (map snd xs)) = overwrite (area tb) (nat base + k) (content (map snd (x # xs)))"
      using overwrite_twice [of "nat base + k" "pdata b" "content (map snd xs)" "area tb"] c(5,8) tot Cons.prems(10) x
      by (simp add: length_content add.assoc)
    finally show ?thesis unfolding put_again by (simp add: fun_upd_def)
  qed
qed simp

text \<open>The pbuf that \<^verbatim>\<open>pbuf_alloc\<close> and \<^verbatim>\<open>pbuf_copy\<close> make of a packet: one block that holds all of it.\<close>

definition flat_copy :: "pbuf_layer \<Rightarrow> pbuf_heap \<Rightarrow> nat \<Rightarrow> pbuf list \<Rightarrow> pbuf" where
  "flat_copy layer h a bs =
     \<lparr>pnext = None, payload = Some (int (layer_offset layer)), tot_len = of_nat (total_len bs), len = of_nat (total_len bs),
      ptype = PBUF_RAM, flags = 0, ref = 1, area = map (stale h a) [0..<layer_offset layer] @ content bs\<rparr>"

lemma flat_copy_ok:
  assumes "packet bs" "total_len bs < 65536"
  shows "unat (len (flat_copy layer h a bs)) = total_len bs" "pdata (flat_copy layer h a bs) = content bs"
    "head_ok (flat_copy layer h a bs)"
  using assms by (simp_all add: flat_copy_def unat_of_nat_u16 pdata_def head_ok_def length_content)

lemma copy_packet:
  assumes "chain (pbufs h) (Some q) ((q, b) # xs)" "packet (b # map snd xs)" "no_empty (b # map snd xs)"
    and "malloc (ram_size (layer_offset layer) (tot_len b)) = Some a" "pbufs h a = None"
    and "SIZEOF_STRUCT_PBUF + layer_offset layer + unat (tot_len b) < 65536"
  shows "\<exists>h'. pbuf_alloc malloc layer (tot_len b) PBUF_RAM h = Some (Some a, h') \<and>
    pbuf_copy (Some a) (Some q) h' = Some (ERR_OK, put a (flat_copy layer h a (b # map snd xs)) h)"
proof -
  let ?bs = "b # map snd xs" and ?n = "unat (tot_len b)" and ?o = "layer_offset layer"
  let ?st = "map (stale h a) [0..<?o + ?n]"
  let ?nb = "\<lparr>pnext = None, payload = Some (int ?o), tot_len = tot_len b, len = tot_len b, ptype = PBUF_RAM, flags = 0, ref = 1, area = ?st\<rparr>"
  let ?h = "put a ?nb h"
  have n: "total_len ?bs = ?n" "length (content ?bs) = ?n" using assms(2) length_content [OF assms(2)] by simp_all
  have sz: "unat (ram_size ?o (tot_len b)) = SIZEOF_STRUCT_PBUF + ?o + ?n"
    unfolding ram_size_def using assms(6) by (rule unat_of_nat_u16)
  have al: "pbuf_alloc malloc layer (tot_len b) PBUF_RAM h = Some (Some a, ?h)"
    using assms(4) sz by (simp add: pbuf_alloc_def Let_def)
  have a: "a \<notin> fst ` set ((q, b) # xs)" using chain_lookup [OF assms(1)] assms(5) by force
  then have ch: "chain (pbufs ?h) (Some q) ((q, b) # xs)" using assms(1) by simp
  have "pbuf_copy_loop (Some a) (of_nat 0) (Some q) 0 ?h =
      Some (put a (?nb\<lparr>area := overwrite (area ?nb) (nat (int ?o) + 0) (content (map snd ((q, b) # xs)))\<rparr>) ?h)"
    using assms(2,3) a n by (intro pbuf_copy_loop_flat [OF ch]) simp_all
  also have "?nb\<lparr>area := overwrite (area ?nb) (nat (int ?o) + 0) (content (map snd ((q, b) # xs)))\<rparr> = flat_copy layer h a ?bs"
    using n by (simp add: flat_copy_def overwrite_def take_map)
  also note put_again
  finally have "pbuf_copy_loop (Some a) 0 (Some q) 0 ?h = Some (put a (flat_copy layer h a ?bs) h)" by (simp add: fun_upd_def)
  moreover have "deref ?h (Some a) = Some ?nb" "deref ?h (Some q) = Some b" using a assms(1) by (simp_all add: deref_def)
  ultimately have "pbuf_copy (Some a) (Some q) ?h = Some (ERR_OK, put a (flat_copy layer h a ?bs) h)"
    unfolding pbuf_copy_def by simp
  then show ?thesis using al by blast
qed

text \<open>C17: coalescing a chain gives one pbuf with the same bytes and releases the chain, if memory can
  be had for it; otherwise the caller gets the chain back unchanged.\<close>

theorem pbuf_coalesce_content:
  assumes "chain (pbufs h) (Some q) ((q, b) # xs)" "xs \<noteq> []" "packet (b # map snd xs)" "no_empty (b # map snd xs)"
    and "\<forall>(a, b) \<in> set ((q, b) # xs). ref b = 1"
    and "\<And>n a. malloc n = Some a \<Longrightarrow> pbufs h a = None"
    and "SIZEOF_STRUCT_PBUF + layer_offset layer + unat (tot_len b) < 65536"
  shows "\<exists>r h'. pbuf_coalesce malloc (Some q) layer h = Some (Some r, h') \<and>
    (case malloc (ram_size (layer_offset layer) (tot_len b)) of
       None \<Rightarrow> r = q \<and> h' = h
     | Some a \<Rightarrow> r = a \<and> (\<exists>nb. chain (pbufs h') (Some a) [(a, nb)] \<and> packet [nb] \<and> content [nb] = content (b # map snd xs)) \<and>
         (\<forall>c \<in> fst ` set ((q, b) # xs). pbufs h' c = None))"
proof (cases "malloc (ram_size (layer_offset layer) (tot_len b))")
  case None
  then show ?thesis using assms(1,2) by (cases xs) (auto simp: pbuf_coalesce_def deref_def pbuf_alloc_def Let_def)
next
  case (Some a)
  let ?nb = "flat_copy layer h a (b # map snd xs)" and ?xs = "(q, b) # xs"
  let ?h = "put a ?nb h"
  have b: "pbufs h q = Some b" "pnext b \<noteq> None" using assms(1,2) by (cases xs; auto)+
  obtain h1 where h1: "pbuf_alloc malloc layer (tot_len b) PBUF_RAM h = Some (Some a, h1)"
    "pbuf_copy (Some a) (Some q) h1 = Some (ERR_OK, ?h)"
    using copy_packet [where malloc = malloc and layer = layer and a = a, OF assms(1,3,4) Some assms(6) [OF Some] assms(7)] by blast
  have a: "a \<notin> fst ` set ?xs" using chain_lookup [OF assms(1)] assms(6) [OF Some] by force
  then have "chain (pbufs ?h) (Some q) ?xs" using assms(1) by simp
  moreover have live: "live_refs ?xs" using assms(5) by (auto simp: live_refs_def)
  ultimately obtain k where fr: "pbuf_free (Some q) ?h = Some (k, release_all ?xs ?h)"
    using pbuf_free_eq [of ?h "Some q" ?xs] live unref_chain_all [OF assms(5)] by auto
  have eq: "pbuf_coalesce malloc (Some q) layer h = Some (Some a, release_all ?xs ?h)"
    using b h1 fr by (auto simp: pbuf_coalesce_def deref_def)
  have "total_len (b # map snd xs) < 65536" using assms(3,7) by simp
  note nb = flat_copy_ok [OF assms(3) this, of layer h a]
  have "pbufs (release_all ?xs ?h) a = Some ?nb" using a by (simp add: pbufs_release_all)
  moreover have "packet [?nb]" using nb(3) by (auto simp: payload_ok_def head_ok_def flat_copy_def)
  moreover have "pnext ?nb = None" by (simp add: flat_copy_def)
  ultimately show ?thesis using eq Some nb(2) by (simp add: pbufs_release_all)
qed

theorem pbuf_coalesce_content_witness:
  "\<exists>h'. pbuf_coalesce (\<lambda>n. Some 100) (Some 1) PBUF_RAW example_heap = Some (Some 100, h') \<and>
    (\<exists>nb. chain (pbufs h') (Some 100) [(100, nb)] \<and> content [nb] = [10, 11, 12, 13, 14]) \<and> pbufs h' 1 = None \<and> pbufs h' 2 = None"
proof -
  obtain b xs where xs: "example_xs = (1, b) # xs" "xs \<noteq> []" by (simp add: example_xs_def)
  have bs: "b # map snd xs = map snd example_xs" unfolding xs by simp
  have f: "fst ` set example_xs = {1, 2}" by (simp add: example_xs_def)
  have "no_empty (map snd example_xs)" "\<forall>(a, b) \<in> set example_xs. ref b = 1" "pbufs example_heap 100 = None"
    by (simp_all add: example_xs_def example_pbuf_def example_heap_def)
  moreover have "unat (tot_len b) = 5" using xs(1) by (auto simp: example_xs_def example_pbuf_def)
  ultimately show ?thesis
    using pbuf_coalesce_content [OF example_chain(1) [unfolded xs(1)] xs(2), unfolded bs xs(1) [symmetric],
        OF example_chain(2), where malloc = "\<lambda>n. Some 100" and layer = PBUF_RAW] example_chain(5)
    unfolding f by (simp add: SIZEOF_STRUCT_PBUF_def) blast
qed

end
