(* ===== verification/Resolve.thy ===== *)
theory Resolve
  imports Etharp Packets
begin

text \<open>
  Total correctness of address resolution (\<^verbatim>\<open>src/server_dir/lwip/src/core/ipv4/etharp.c\<close>): under an
  invariant that ties the table to the pbufs it holds, the operations of \<^verbatim>\<open>Etharp\<close> do not fail, do
  not touch the packets of others, and do what they are for. A lookup finds the entry of an address or
  takes a free or the oldest one; a packet for an unknown address is kept as a copy and a request goes
  out; an ARP packet teaches the sender's address, releases the waiting packet to it and is answered if
  it asks for us; entries expire.
\<close>

section \<open>The packets of the table\<close>

definition queues :: "etharp_entry list \<Rightarrow> nat set" where
  "queues tab = {q. \<exists>i < length tab. arp_q (tab ! i) = Some q}"

definition queues_distinct :: "etharp_entry list \<Rightarrow> bool" where
  "queues_distinct tab \<longleftrightarrow> (\<forall>i < length tab. \<forall>j < length tab. i \<noteq> j \<longrightarrow> arp_q (tab ! i) \<noteq> None \<longrightarrow> arp_q (tab ! i) \<noteq> arp_q (tab ! j))"

text \<open>
  The table is well formed, its packets are distinct and separate from each other and from the
  packets \<open>P\<close> that the rest of the stack holds.
\<close>

definition arp_good :: "nat set \<Rightarrow> 'a arp_scheme \<Rightarrow> bool" where
  "arp_good P s \<longleftrightarrow> arp_inv s \<and> queues_distinct (arp_table s) \<and> queues (arp_table s) \<inter> P = {} \<and>
     owns (pheap s) (queues (arp_table s) \<union> P)"

lemma queues_update:
  "i < length tab \<Longrightarrow> queues (tab[i := e]) = set_option (arp_q e) \<union> {q. \<exists>j < length tab. j \<noteq> i \<and> arp_q (tab ! j) = Some q}"
  by (auto simp: queues_def nth_list_update split: if_splits)

lemma queues_distinctD:
  "queues_distinct tab \<Longrightarrow> i < length tab \<Longrightarrow> j < length tab \<Longrightarrow> arp_q (tab ! i) = Some q \<Longrightarrow> arp_q (tab ! j) = Some q \<Longrightarrow> i = j"
  unfolding queues_distinct_def by (metis option.distinct(1))

lemma queues_distinctI:
  "(\<And>i j q. i < length tab \<Longrightarrow> j < length tab \<Longrightarrow> arp_q (tab ! i) = Some q \<Longrightarrow> arp_q (tab ! j) = Some q \<Longrightarrow> i = j) \<Longrightarrow>
   queues_distinct tab"
  unfolding queues_distinct_def by (metis option.exhaust)

lemma queues_others:
  assumes "queues_distinct tab" "i < length tab"
  shows "{q. \<exists>j < length tab. j \<noteq> i \<and> arp_q (tab ! j) = Some q} = queues tab - set_option (arp_q (tab ! i))"
  using queues_distinctD [OF assms(1) assms(2)] assms(2) by (auto simp: queues_def)

lemma queues_set:
  assumes "queues_distinct tab" "i < length tab"
  shows "queues (tab[i := e]) = set_option (arp_q e) \<union> (queues tab - set_option (arp_q (tab ! i)))"
  using queues_update [OF assms(2)] queues_others [OF assms] by simp

lemma queues_distinct_set:
  assumes "queues_distinct tab" "i < length tab" "arp_q e = None \<or> arp_q e = arp_q (tab ! i) \<or> (\<exists>p. arp_q e = Some p \<and> p \<notin> queues tab)"
  shows "queues_distinct (tab[i := e])"
proof (rule queues_distinctI)
  fix j k q
  assume a: "j < length (tab[i := e])" "k < length (tab[i := e])" "arp_q (tab[i := e] ! j) = Some q" "arp_q (tab[i := e] ! k) = Some q"
  have n: "arp_q e \<noteq> Some q" if "l < length tab" "l \<noteq> i" "arp_q (tab ! l) = Some q" for l
    using that assms queues_distinctD [OF assms(1) assms(2), of l q] by (auto simp: queues_def)
  show "j = k"
    using a n [of j] n [of k] queues_distinctD [OF assms(1), of j k q] by (cases "j = i"; cases "k = i") simp_all
qed

lemma arp_goodD:
  "arp_good P s \<Longrightarrow> arp_inv s" "arp_good P s \<Longrightarrow> queues_distinct (arp_table s)"
  "arp_good P s \<Longrightarrow> queues (arp_table s) \<inter> P = {}" "arp_good P s \<Longrightarrow> owns (pheap s) (queues (arp_table s) \<union> P)"
  "arp_good P s \<Longrightarrow> length (arp_table s) = ARP_TABLE_SIZE"
  by (auto simp: arp_good_def arp_inv_length)

lemma queue_in: "i < length tab \<Longrightarrow> arp_q (tab ! i) = Some q \<Longrightarrow> q \<in> queues tab"
  by (auto simp: queues_def)

text \<open>Freeing an entry.\<close>

lemma free_entry_total:
  assumes "arp_good P s" "i < ARP_TABLE_SIZE"
  shows "\<exists>t. etharp_free_entry i s = Some t \<and> arp_good P t \<and> arp_table t = (arp_table s)[i := empty_entry] \<and>
    sent t = sent s \<and> keeps P (pheap s) (pheap t)"
proof -
  note g = arp_goodD [OF assms(1)]
  let ?e = "arp_table s ! i" and ?tab = "(arp_table s)[i := empty_entry]"
  have i: "i < length (arp_table s)" using assms(2) g(5) by simp
  have qs: "queues ?tab = queues (arp_table s) - set_option (arp_q ?e)" "queues_distinct ?tab"
    using queues_set [OF g(2) i, of empty_entry] queues_distinct_set [OF g(2) i, of empty_entry] by (simp_all add: empty_entry_def)
  show ?thesis
  proof (cases "arp_q ?e")
    case None
    then have f: "etharp_free_entry i s = Some (table_set i empty_entry s)" using i by (simp add: etharp_free_entry_def table_get_def)
    have "arp_good P (table_set i empty_entry s)"
      using qs None g etharp_free_entry_inv [OF g(1) f] by (simp add: arp_good_def)
    then show ?thesis using f by simp
  next
    case (Some q)
    let ?Q = "queues (arp_table s) \<union> P"
    have q: "q \<in> queues (arp_table s)" using queue_in [OF i Some] .
    obtain h where h: "free_pbuf q s = Some (s\<lparr>pheap := h\<rparr>)" "owns h (?Q - {q})" "keeps (?Q - {q}) (pheap s) h"
      using free_pbuf_total [OF g(4), of q] q by blast
    have f: "etharp_free_entry i s = Some (table_set i empty_entry (s\<lparr>pheap := h\<rparr>))"
      using i Some h(1) by (simp add: etharp_free_entry_def table_get_def)
    have Q: "?Q - {q} = queues ?tab \<union> P" using qs(1) Some q g(3) by auto
    have "arp_good P (table_set i empty_entry (s\<lparr>pheap := h\<rparr>))"
      using qs g(3) h(2) etharp_free_entry_inv [OF g(1) f] unfolding Q by (auto simp: arp_good_def)
    moreover have "keeps P (pheap s) h" using h(3) Q keeps_mono by blast
    ultimately show ?thesis using f by simp
  qed
qed

text \<open>
  The entry that a new address takes: the first empty one; else the oldest stable one; else the oldest
  pending one without a packet; else the oldest pending one.
\<close>

definition victim :: "etharp_entry list \<Rightarrow> nat \<Rightarrow> bool" where
  "victim tab i \<longleftrightarrow> i < length tab \<and>
     (if \<exists>e \<in> set tab. \<not> occupied e then \<not> occupied (tab ! i) \<and> (\<forall>j < i. occupied (tab ! j))
      else (\<exists>P. P = (if \<exists>e \<in> set tab. is_stable e then is_stable else if \<exists>e \<in> set tab. waits_alone e then waits_alone else waits_queued) \<and>
        P (tab ! i) \<and> (\<forall>e \<in> set tab. P e \<longrightarrow> ctime e \<le> ctime (tab ! i))))"

lemma oldest_none: "oldest P tab k age \<Longrightarrow> length tab \<le> ARP_TABLE_SIZE \<Longrightarrow> (\<exists>e \<in> set tab. P e) \<longleftrightarrow> k < ARP_TABLE_SIZE"
  by (auto simp: oldest_def)

lemma oldest_some:
  "oldest P tab k age \<Longrightarrow> k < ARP_TABLE_SIZE \<Longrightarrow> k < length tab \<and> P (tab ! k) \<and> (\<forall>e \<in> set tab. P e \<longrightarrow> ctime e \<le> ctime (tab ! k))"
  by (auto simp: oldest_def)

lemma first_empty_none: "first_empty tab k \<Longrightarrow> length tab \<le> ARP_TABLE_SIZE \<Longrightarrow> (\<exists>e \<in> set tab. \<not> occupied e) \<longleftrightarrow> k < ARP_TABLE_SIZE"
  by (auto simp: first_empty_def)

lemma occupied_cases: "occupied e \<Longrightarrow> is_stable e \<or> waits_alone e \<or> waits_queued e"
  by (cases "arp_state e") (auto simp: occupied_def is_stable_def waits_alone_def waits_queued_def)

text \<open>A full table always has an entry to recycle, and the assertion on it holds.\<close>

lemma choose_recycled_victim:
  assumes "good_candidates tab c" "arp_table s = tab" "arp_inv s" "\<forall>e \<in> set tab. occupied e"
  shows "\<exists>i. choose_recycled c s = Some (Some i) \<and> i < ARP_TABLE_SIZE \<and> victim tab i"
proof -
  have len: "length tab = ARP_TABLE_SIZE" using assms(2,3) arp_inv_length by blast
  have c: "oldest is_stable tab (old_stable c) (age_stable c)" "oldest waits_alone tab (old_pending c) (age_pending c)"
    "oldest waits_queued tab (old_queue c) (age_queue c)" using assms(1) by (simp_all add: good_candidates_def)
  have none: "\<not> (\<exists>e \<in> set tab. \<not> occupied e)" using assms(4) by blast
  consider (st) "old_stable c < ARP_TABLE_SIZE" | (al) "\<not> old_stable c < ARP_TABLE_SIZE" "old_pending c < ARP_TABLE_SIZE"
    | (qu) "\<not> old_stable c < ARP_TABLE_SIZE" "\<not> old_pending c < ARP_TABLE_SIZE" by blast
  then show ?thesis
  proof cases
    case st
    note o = oldest_some [OF c(1) st]
    then have "arp_q (tab ! old_stable c) = None"
      using arp_inv_nth [OF assms(3), of "old_stable c"] assms(2) by (auto simp: entry_ok_def is_stable_def)
    then have "choose_recycled c s = Some (Some (old_stable c))"
      using st o assms(2) by (simp add: choose_recycled_def table_get_def)
    moreover have "victim tab (old_stable c)" using st o none oldest_none [OF c(1)] len by (simp add: victim_def)
    ultimately show ?thesis using st by blast
  next
    case al
    note o = oldest_some [OF c(2) al(2)]
    have "victim tab (old_pending c)" using al o none oldest_none [OF c(1)] oldest_none [OF c(2)] len by (simp add: victim_def)
    then show ?thesis using al by (simp add: choose_recycled_def)
  next
    case qu
    have "\<not> (\<exists>e \<in> set tab. is_stable e)" "\<not> (\<exists>e \<in> set tab. waits_alone e)"
      using qu oldest_none [OF c(1)] oldest_none [OF c(2)] len by simp_all
    moreover have "tab ! 0 \<in> set tab" using len by (simp add: ARP_TABLE_SIZE_def)
    ultimately have "\<exists>e \<in> set tab. waits_queued e" using occupied_cases assms(4) by blast
    then have q: "old_queue c < ARP_TABLE_SIZE" using oldest_none [OF c(3)] len by simp
    note o = oldest_some [OF c(3) q]
    have "victim tab (old_queue c)" using o none \<open>\<not> (\<exists>e \<in> set tab. is_stable e)\<close> \<open>\<not> (\<exists>e \<in> set tab. waits_alone e)\<close>
      by (simp add: victim_def)
    then show ?thesis using qu q by (simp add: choose_recycled_def)
  qed
qed

text \<open>An entry for a new address.\<close>

definition new_entry :: "u32 \<Rightarrow> etharp_entry \<Rightarrow> bool" where
  "new_entry ip e \<longleftrightarrow> \<not> occupied e \<and> arp_ip e = ip \<and> ctime e = 0 \<and> arp_q e = None"

lemma claim_entry_total:
  assumes "arp_good P s" "i < ARP_TABLE_SIZE" "\<not> occupied (arp_table s ! i)"
  shows "\<exists>t e. claim_entry (Some ip) i s = Some (Inr i, t) \<and> arp_good P t \<and> sent t = sent s \<and> pheap t = pheap s \<and>
    arp_table t = (arp_table s)[i := e] \<and> new_entry ip e"
proof -
  note g = arp_goodD [OF assms(1)]
  let ?e = "(arp_table s ! i)\<lparr>arp_ip := ip, ctime := 0\<rparr>"
  have i: "i < length (arp_table s)" using assms(2) g(5) by simp
  have q: "arp_q (arp_table s ! i) = None" using arp_inv_nth [OF g(1) i] assms(3) by (auto simp: entry_ok_def occupied_def)
  have c: "claim_entry (Some ip) i s = Some (Inr i, table_set i ?e s)"
    using assms(2,3) i by (simp add: claim_entry_def table_get_def occupied_def)
  have "arp_inv (table_set i ?e s)" using claim_entry_result [OF c g(1)] by simp
  moreover have "queues ((arp_table s)[i := ?e]) = queues (arp_table s)" using queues_set [OF g(2) i, of ?e] q by simp
  moreover have "queues_distinct ((arp_table s)[i := ?e])" using queues_distinct_set [OF g(2) i, of ?e] q by simp
  ultimately have "arp_good P (table_set i ?e s)" using g by (simp add: arp_good_def)
  moreover have "new_entry ip ?e" using assms(3) q by (simp add: new_entry_def occupied_def)
  ultimately show ?thesis using c by (intro exI [of _ "table_set i ?e s"] exI [of _ ?e]) simp
qed

lemma find_entry_total:
  assumes "arp_good P s"
  shows "\<exists>r t. etharp_find_entry (Some ip) fl s = Some (r, t) \<and> arp_good P t \<and> sent t = sent s \<and> keeps P (pheap s) (pheap t) \<and>
    (if \<exists>e \<in> set (arp_table s). matches (Some ip) e
     then t = s \<and> (\<exists>i < ARP_TABLE_SIZE. r = Inr i \<and> matches (Some ip) (arp_table s ! i))
     else if fl AND ETHARP_FLAG_FIND_ONLY \<noteq> 0 \<or> (\<forall>e \<in> set (arp_table s). occupied e) \<and> fl AND ETHARP_FLAG_TRY_HARD = 0
     then t = s \<and> r = Inl ERR_MEM
     else \<exists>i e. r = Inr i \<and> victim (arp_table s) i \<and> arp_table t = (arp_table s)[i := e] \<and> new_entry ip e)"
proof (cases "find_sweep (Some ip) (arp_table s) 0 no_candidates")
  case (Inl k)
  then have "k < length (arp_table s) \<and> matches (Some ip) (arp_table s ! k)"
    using find_sweep_table [of "arp_table s" "Some ip"] arp_goodD(5) [OF assms] by simp
  moreover have "etharp_find_entry (Some ip) fl s = Some (Inr k, s)" using Inl by (simp add: etharp_find_entry_def)
  ultimately show ?thesis using assms arp_goodD(5) [OF assms] by auto
next
  case (Inr c)
  note g = arp_goodD [OF assms]
  have c: "\<not> (\<exists>e \<in> set (arp_table s). matches (Some ip) e)" "good_candidates (arp_table s) c"
    using find_sweep_table [of "arp_table s" "Some ip"] Inr g(5) by auto
  have fe: "first_empty (arp_table s) (empty c)" using c(2) by (simp add: good_candidates_def)
  have emp: "(\<forall>e \<in> set (arp_table s). occupied e) \<longleftrightarrow> empty c = ARP_TABLE_SIZE" "empty c \<le> ARP_TABLE_SIZE"
    using fe g(5) by (auto simp: first_empty_def)
  let ?no = "fl AND ETHARP_FLAG_FIND_ONLY \<noteq> 0 \<or> empty c = ARP_TABLE_SIZE \<and> fl AND ETHARP_FLAG_TRY_HARD = 0"
  show ?thesis
  proof (cases ?no)
    case True
    then have "etharp_find_entry (Some ip) fl s = Some (Inl ERR_MEM, s)" using Inr by (simp add: etharp_find_entry_def)
    then show ?thesis using assms c(1) True emp(1) by auto
  next
    case False
    have eq: "etharp_find_entry (Some ip) fl s =
     (if empty c < ARP_TABLE_SIZE then claim_entry (Some ip) (empty c) s
      else do {
        r \<leftarrow> choose_recycled c s;
        (case r of
           None \<Rightarrow> Some (Inl ERR_MEM, s)
         | Some i \<Rightarrow> do { lwip_assert (i < ARP_TABLE_SIZE); s \<leftarrow> etharp_free_entry i s; claim_entry (Some ip) i s })
      })"
      unfolding etharp_find_entry_def Inr by (simp only: sum.case if_not_P [OF False])
    have "\<exists>i e t. etharp_find_entry (Some ip) fl s = Some (Inr i, t) \<and> arp_good P t \<and> sent t = sent s \<and> keeps P (pheap s) (pheap t) \<and>
        victim (arp_table s) i \<and> arp_table t = (arp_table s)[i := e] \<and> new_entry ip e"
    proof (cases "empty c < ARP_TABLE_SIZE")
      case True
      then have o: "\<not> occupied (arp_table s ! empty c)" "\<forall>j < empty c. occupied (arp_table s ! j)" using fe by (auto simp: first_empty_def)
      have "victim (arp_table s) (empty c)" using o True g(5) nth_mem [of "empty c" "arp_table s"] by (auto simp: victim_def)
      then show ?thesis using claim_entry_total [OF assms True o(1), of ip] True eq by auto
    next
      case full: False
      then have occ: "\<forall>e \<in> set (arp_table s). occupied e" using emp by simp
      obtain i where i: "choose_recycled c s = Some (Some i)" "i < ARP_TABLE_SIZE" "victim (arp_table s) i"
        using choose_recycled_victim [OF c(2) refl g(1) occ] by blast
      obtain u where u: "etharp_free_entry i s = Some u" "arp_good P u" "arp_table u = (arp_table s)[i := empty_entry]"
        "sent u = sent s" "keeps P (pheap s) (pheap u)" using free_entry_total [OF assms i(2)] by blast
      have "\<not> occupied (arp_table u ! i)" using u(3) i(2) g(5) by simp
      from claim_entry_total [OF u(2) i(2) this, of ip] obtain t e where t: "claim_entry (Some ip) i u = Some (Inr i, t)"
        "arp_good P t" "sent t = sent u" "pheap t = pheap u" "arp_table t = (arp_table u)[i := e]" "new_entry ip e" by blast
      then show ?thesis using u i full eq by auto
    qed
    then show ?thesis using c(1) False emp(1) by auto
  qed
qed

section \<open>Learning an address\<close>

lemma arp_good_kept:
  assumes "arp_good P s" "arp_kept (queues (arp_table s) \<union> P) s t"
  shows "arp_good P t" "keeps P (pheap s) (pheap t)"
proof -
  have t: "arp_table t = arp_table s" "etharp_cached_entry t = etharp_cached_entry s"
    "owns (pheap t) (queues (arp_table s) \<union> P)" "keeps (queues (arp_table s) \<union> P) (pheap s) (pheap t)"
    using assms(2) by (simp_all add: arp_kept_def)
  then show "arp_good P t" using assms(1) by (simp add: arp_good_def arp_inv_def)
  show "keeps P (pheap s) (pheap t)" using t(4) by (rule keeps_mono) blast
qed

definition stable_entry :: "nat \<Rightarrow> bytes \<Rightarrow> etharp_entry \<Rightarrow> etharp_entry" where
  "stable_entry ni mac e =
     e\<lparr>arp_state := ETHARP_STATE_STABLE, arp_netif := Some ni, ethaddr := mac, ctime := 0, arp_q := None\<rparr>"

definition unicast :: "link_env \<Rightarrow> nat \<Rightarrow> u32 \<Rightarrow> bool" where
  "unicast env ni ip \<longleftrightarrow> \<not> ip4_addr_isany (Some ip) \<and> \<not> ip4_addr_isbroadcast ip (netif_of env ni) \<and> \<not> ip4_addr_ismulticast ip"

definition delivered :: "nat \<Rightarrow> bytes \<Rightarrow> (nat \<times> nat \<times> pbuf_heap) list \<Rightarrow> bool" where
  "delivered ni bs l \<longleftrightarrow> (\<exists>q h. (ni, q, h) \<in> set l \<and> frame h q bs)"

lemma delivered_append [simp]: "delivered ni bs (l @ l') \<longleftrightarrow> delivered ni bs l \<or> delivered ni bs l'"
  by (auto simp: delivered_def)

text \<open>The packet \<open>q\<close> of the store \<open>h\<close> goes out with the header \<open>hdr\<close>, if it has room for it.\<close>

definition goes_out :: "nat \<Rightarrow> bytes \<Rightarrow> nat \<Rightarrow> pbuf_heap \<Rightarrow> 'a arp_scheme \<Rightarrow> 'a arp_scheme \<Rightarrow> bool" where
  "goes_out ni hdr q h s t \<longleftrightarrow> (\<exists>l. sent t = sent s @ l \<and>
     (\<forall>b xs. packet_at h q ((q, b) # xs) \<longrightarrow> has_room b \<longrightarrow> unat (len b) + 14 < 65536 \<longrightarrow>
        delivered ni (hdr @ content (b # map snd xs)) l))"

lemma update_found:
  assumes "arp_good P u" "i < ARP_TABLE_SIZE" "link_ok env" "length mac = 6"
    and other: "\<And>j. j < ARP_TABLE_SIZE \<Longrightarrow> j \<noteq> i \<Longrightarrow> occupied (arp_table u ! j) \<Longrightarrow> arp_ip (arp_table u ! j) \<noteq> arp_ip (arp_table u ! i)"
  shows "\<exists>t. (case arp_q (arp_table u ! i) of
        None \<Rightarrow> Some (ERR_OK, table_set i (stable_entry ni mac (arp_table u ! i)) u)
      | Some p \<Rightarrow> do {
          (_, s) \<leftarrow> ethernet_output env ni p (hwaddr (netif_of env ni)) mac ETHTYPE_IP
             (table_set i (stable_entry ni mac (arp_table u ! i)) u);
          s \<leftarrow> free_pbuf p s;
          Some (ERR_OK, s)
        }) = Some (ERR_OK, t) \<and> arp_good P t \<and> keeps P (pheap u) (pheap t) \<and>
      arp_table t = (arp_table u)[i := stable_entry ni mac (arp_table u ! i)] \<and>
      (case arp_q (arp_table u ! i) of None \<Rightarrow> sent t = sent u
       | Some q \<Rightarrow> goes_out ni (eth_hdr mac (hwaddr (netif_of env ni)) (lwip_htons ETHTYPE_IP)) q (pheap u) u t)"
proof -
  note g = arp_goodD [OF assms(1)]
  let ?e = "stable_entry ni mac (arp_table u ! i)" and ?Q = "queues (arp_table u) \<union> P"
  let ?u = "table_set i ?e u" and ?hw = "hwaddr (netif_of env ni)"
  have i: "i < length (arp_table u)" using assms(2) g(5) by simp
  have tok: "table_ok ((arp_table u)[i := ?e])"
  proof (rule table_ok_set)
    show "table_ok (arp_table u)" using g(1) by (simp add: arp_inv_def)
    show "entry_ok ?e" unfolding stable_entry_def using assms(4) by auto
    fix j assume "j < length (arp_table u)" "j \<noteq> i" "occupied (arp_table u ! j)"
    then show "arp_ip (arp_table u ! j) \<noteq> arp_ip ?e" using other [of j] g(5) by (simp add: stable_entry_def)
  qed
  have qs: "queues ((arp_table u)[i := ?e]) = queues (arp_table u) - set_option (arp_q (arp_table u ! i))"
    "queues_distinct ((arp_table u)[i := ?e])"
    using queues_set [OF g(2) i, of ?e] queues_distinct_set [OF g(2) i, of ?e] by (simp_all add: stable_entry_def)
  show ?thesis
  proof (cases "arp_q (arp_table u ! i)")
    case None
    then have "arp_good P ?u" using g tok qs by (simp add: arp_good_def arp_inv_def)
    then show ?thesis using None by simp
  next
    case (Some q)
    have q: "q \<in> ?Q" using queue_in [OF i Some] by simp
    obtain b xs where b: "packet_at (pheap u) q ((q, b) # xs)" using ownsD [OF g(4) q] packet_at_Cons by blast
    have own: "owns (pheap ?u) ?Q" "packet_at (pheap ?u) q ((q, b) # xs)" using g(4) b by simp_all
    obtain r v where v: "ethernet_output env ni q ?hw mac ETHTYPE_IP ?u = Some (r, v)" "arp_table v = arp_table ?u"
      "etharp_cached_entry v = etharp_cached_entry u" "owns (pheap v) ?Q" "keeps (?Q - {q}) (pheap u) (pheap v)"
      "sent v = sent u @ (if has_room b then [(ni, q, pheap v)] else [])"
      "has_room b \<longrightarrow> unat (len b) + 14 < 65536 \<longrightarrow>
         frame (pheap v) q (eth_hdr mac ?hw (lwip_htons ETHTYPE_IP) @ content (b # map snd xs))"
      using ethernet_output_total [OF own(1) q own(2) assms(3) link_okD(2) [OF assms(3), of ni] assms(4), of ni ETHTYPE_IP]
      by (auto split: if_splits)
    obtain h where h: "free_pbuf q v = Some (v\<lparr>pheap := h\<rparr>)" "owns h (?Q - {q})" "keeps (?Q - {q}) (pheap v) h"
      using free_pbuf_total [OF v(4) q] by blast
    have Q: "?Q - {q} = queues ((arp_table u)[i := ?e]) \<union> P" using qs(1) Some queue_in [OF i Some] g(3) by auto
    have "arp_good P (v\<lparr>pheap := h\<rparr>)"
      using g v tok qs h(2) unfolding Q by (auto simp: arp_good_def arp_inv_def)
    moreover have "keeps P (pheap u) h" using keeps_trans [OF v(5) h(3)] Q keeps_mono by blast
    moreover have "goes_out ni (eth_hdr mac ?hw (lwip_htons ETHTYPE_IP)) q (pheap u) u (v\<lparr>pheap := h\<rparr>)"
      unfolding goes_out_def
    proof (intro exI conjI allI impI)
      show "sent (v\<lparr>pheap := h\<rparr>) = sent u @ (if has_room b then [(ni, q, pheap v)] else [])" using v(6) by simp
      fix b' xs' assume a: "packet_at (pheap u) q ((q, b') # xs')" "has_room b'" "unat (len b') + 14 < 65536"
      then have "(q, b') # xs' = (q, b) # xs" using b chain_unique by (auto simp: packet_at_def)
      then show "delivered ni (eth_hdr mac ?hw (lwip_htons ETHTYPE_IP) @ content (b' # map snd xs'))
          (if has_room b then [(ni, q, pheap v)] else [])"
        using v(7) a by (auto simp: delivered_def)
    qed
    ultimately show ?thesis using Some v(1,2) h(1) by simp
  qed
qed

lemma update_total:
  assumes "arp_good P s" "link_ok env" "length mac = 6" "unicast env ni ip"
  obtains (none) "etharp_find_entry (Some ip) fl s = Some (Inl ERR_MEM, s)"
      "etharp_update_arp_entry env ni ip mac fl s = Some (ERR_MEM, s)"
  | (some) i u t where "etharp_find_entry (Some ip) fl s = Some (Inr i, u)" "i < ARP_TABLE_SIZE" "arp_good P u" "sent u = sent s"
      "etharp_update_arp_entry env ni ip mac fl s = Some (ERR_OK, t)" "arp_good P t" "keeps P (pheap s) (pheap t)"
      "arp_table t = (arp_table u)[i := stable_entry ni mac (arp_table u ! i)]" "arp_ip (arp_table u ! i) = ip"
      "case arp_q (arp_table u ! i) of None \<Rightarrow> sent t = sent s
       | Some q \<Rightarrow> goes_out ni (eth_hdr mac (hwaddr (netif_of env ni)) (lwip_htons ETHTYPE_IP)) q (pheap u) s t"
proof -
  obtain r u where u: "etharp_find_entry (Some ip) fl s = Some (r, u)" "arp_good P u" "sent u = sent s" "keeps P (pheap s) (pheap u)"
    using find_entry_total [OF assms(1)] by blast
  have uni: "\<not> (ip4_addr_isany (Some ip) \<or> ip4_addr_isbroadcast ip (netif_of env ni) \<or> ip4_addr_ismulticast ip)"
    using assms(4) by (simp add: unicast_def)
  have eq: "etharp_update_arp_entry env ni ip mac fl s =
      (case r of Inl err \<Rightarrow> Some (err, u)
       | Inr i \<Rightarrow> do {
           e \<leftarrow> table_get i u;
           (case arp_q e of
               None \<Rightarrow> Some (ERR_OK, table_set i (stable_entry ni mac e) u)
             | Some p \<Rightarrow> do {
                 (_, s) \<leftarrow> ethernet_output env ni p (hwaddr (netif_of env ni)) mac ETHTYPE_IP (table_set i (stable_entry ni mac e) u);
                 s \<leftarrow> free_pbuf p s;
                 Some (ERR_OK, s)
               }) })"
    unfolding etharp_update_arp_entry_def Let_def u(1) stable_entry_def using link_okD(1) [OF assms(2), of ni]
    by (simp add: if_not_P [OF uni])
  show thesis
  proof (cases r)
    case (Inl err)
    then have "err = ERR_MEM" "u = s" using find_entry_result [OF u(1) arp_goodD(1) [OF assms(1)]] by simp_all
    then show thesis using none Inl u(1) eq by simp
  next
    case (Inr i)
    note own = find_entry_owner [OF u(1) [unfolded Inr] arp_goodD(1) [OF assms(1)]]
    have i: "i < ARP_TABLE_SIZE" using own(2) arp_goodD(5) [OF u(2)] by simp
    have other: "arp_ip (arp_table u ! j) \<noteq> arp_ip (arp_table u ! i)"
      if "j < ARP_TABLE_SIZE" "j \<noteq> i" "occupied (arp_table u ! j)" for j
      using own(3,5) that arp_goodD(5) [OF u(2)] by auto
    obtain t where t: "etharp_update_arp_entry env ni ip mac fl s = Some (ERR_OK, t)" "arp_good P t" "keeps P (pheap u) (pheap t)"
      "arp_table t = (arp_table u)[i := stable_entry ni mac (arp_table u ! i)]"
      "case arp_q (arp_table u ! i) of None \<Rightarrow> sent t = sent u
       | Some q \<Rightarrow> goes_out ni (eth_hdr mac (hwaddr (netif_of env ni)) (lwip_htons ETHTYPE_IP)) q (pheap u) u t"
      using update_found [OF u(2) i assms(2,3) other, of ni] eq Inr i arp_goodD(5) [OF u(2)] by (auto simp: table_get_def)
    show thesis
    proof (rule some [OF u(1) [unfolded Inr] i u(2,3) t(1,2) keeps_trans [OF u(4) t(3)] t(4) own(3)])
      show "case arp_q (arp_table u ! i) of None \<Rightarrow> sent t = sent s
       | Some q \<Rightarrow> goes_out ni (eth_hdr mac (hwaddr (netif_of env ni)) (lwip_htons ETHTYPE_IP)) q (pheap u) s t"
        using t(5) u(3) by (auto simp: goes_out_def split: option.splits)
    qed
  qed
qed

section \<open>ARP packets that arrive\<close>

text \<open>A pbuf whose payload starts with an ARP packet.\<close>

definition arp_area :: "bytes \<Rightarrow> u16 \<Rightarrow> bytes \<Rightarrow> u32 \<Rightarrow> bytes \<Rightarrow> u32 \<Rightarrow> bytes \<Rightarrow> bytes" where
  "arp_area pre opcode shw sip dhw dip rest = pre @ arp_packet opcode shw sip dhw dip @ rest"

definition arp_pbuf :: "bytes \<Rightarrow> u16 \<Rightarrow> bytes \<Rightarrow> u32 \<Rightarrow> bytes \<Rightarrow> u32 \<Rightarrow> bytes \<Rightarrow> pbuf \<Rightarrow> bool" where
  "arp_pbuf pre opcode shw sip dhw dip rest b \<longleftrightarrow> payload b = Some (int (length pre)) \<and> length shw = 6 \<and> length dhw = 6 \<and>
     area b = arp_area pre opcode shw sip dhw dip rest"

lemma payload_read_area:
  assumes "payload b = Some (int (length pre))" "area b = pre @ xs" "k + n \<le> length xs" "n \<noteq> 0"
  shows "payload_read b k n = Some (take n (drop k xs))"
  using assms by (simp add: payload_read_def Let_def nat_add_distrib flip: of_nat_add)

lemma take_drop_field:
  "length x0 = 2 \<Longrightarrow> length x1 = 2 \<Longrightarrow> length x2 = 1 \<Longrightarrow> length x3 = 1 \<Longrightarrow> length x4 = 2 \<Longrightarrow> length x5 = 6 \<Longrightarrow> length x6 = 4 \<Longrightarrow>
   length x7 = 6 \<Longrightarrow> length x8 = 4 \<Longrightarrow> xs = x0 @ x1 @ x2 @ x3 @ x4 @ x5 @ x6 @ x7 @ x8 @ rest \<Longrightarrow>
   take 2 (drop 0 xs) = x0 \<and> take 2 (drop 2 xs) = x1 \<and> take 1 (drop 4 xs) = x2 \<and> take 1 (drop 5 xs) = x3 \<and>
   take 2 (drop 6 xs) = x4 \<and> take 6 (drop 8 xs) = x5 \<and> take 4 (drop 14 xs) = x6 \<and> take 6 (drop 18 xs) = x7 \<and> take 4 (drop 24 xs) = x8"
  by simp

lemma arp_pbuf_read:
  assumes "arp_pbuf pre opcode shw sip dhw dip rest b"
  shows "payload_read b 0 2 = Some (le16_bytes (PP_HTONS HWTYPE_ETHERNET))" "payload_read b 2 2 = Some (le16_bytes (PP_HTONS ETHTYPE_IP))"
    "payload_read b 4 1 = Some [6]" "payload_read b 5 1 = Some [4]" "payload_read b 6 2 = Some (le16_bytes (lwip_htons opcode))"
    "payload_read b 8 6 = Some shw" "payload_read b 14 4 = Some (le32_bytes sip)" "payload_read b 18 6 = Some dhw"
    "payload_read b 24 4 = Some (le32_bytes dip)"
proof -
  let ?xs = "arp_packet opcode shw sip dhw dip @ rest"
  have b: "payload b = Some (int (length pre))" "area b = pre @ ?xs" and l: "length shw = 6" "length dhw = 6"
    using assms by (simp_all add: arp_pbuf_def arp_area_def)
  have len: "28 \<le> length ?xs" using l by simp
  have xs: "?xs = le16_bytes (PP_HTONS HWTYPE_ETHERNET) @ le16_bytes (PP_HTONS ETHTYPE_IP) @ [6] @ [4] @ le16_bytes (lwip_htons opcode) @
     shw @ le32_bytes sip @ dhw @ le32_bytes dip @ rest" by (simp add: arp_packet_def)
  note f = take_drop_field [OF _ _ _ _ _ l(1) _ l(2) _ xs, simplified length_le16_bytes length_le32_bytes list.size, simplified]
  note r = payload_read_area [OF b]
  show "payload_read b 0 2 = Some (le16_bytes (PP_HTONS HWTYPE_ETHERNET))" using r [of 0 2] len f by simp
  show "payload_read b 2 2 = Some (le16_bytes (PP_HTONS ETHTYPE_IP))" using r [of 2 2] len f by simp
  show "payload_read b 4 1 = Some [6]" using r [of 4 1] len f by simp
  show "payload_read b 5 1 = Some [4]" using r [of 5 1] len f by simp
  show "payload_read b 6 2 = Some (le16_bytes (lwip_htons opcode))" using r [of 6 2] len f by simp
  show "payload_read b 8 6 = Some shw" using r [of 8 6] len f by simp
  show "payload_read b 14 4 = Some (le32_bytes sip)" using r [of 14 4] len f by simp
  show "payload_read b 18 6 = Some dhw" using r [of 18 6] len f by simp
  show "payload_read b 24 4 = Some (le32_bytes dip)" using r [of 24 4] len f by simp
qed

lemma arp_area_overwrite:
  assumes "length shw = 6" "length dhw = 6"
  shows "overwrite (arp_area pre opcode shw sip dhw dip rest) (length pre + 6) (le16_bytes (lwip_htons op')) =
      arp_area pre op' shw sip dhw dip rest"
    "length m = 6 \<Longrightarrow> overwrite (arp_area pre opcode shw sip dhw dip rest) (length pre + 8) m = arp_area pre opcode m sip dhw dip rest"
    "overwrite (arp_area pre opcode shw sip dhw dip rest) (length pre + 14) (le32_bytes ip) = arp_area pre opcode shw ip dhw dip rest"
    "length m = 6 \<Longrightarrow> overwrite (arp_area pre opcode shw sip dhw dip rest) (length pre + 18) m = arp_area pre opcode shw sip m dip rest"
    "overwrite (arp_area pre opcode shw sip dhw dip rest) (length pre + 24) (le32_bytes ip) = arp_area pre opcode shw sip dhw ip rest"
  using assms by (simp_all add: overwrite_def arp_area_def arp_packet_def)

lemma le16_of_le16_bytes [simp]: "le16_of_bytes (le16_bytes w ! 0) (le16_bytes w ! Suc 0) = w"
  by (rule bit_word_eqI) (auto simp: le16_of_bytes_def le16_bytes_def bit_simps)

lemma le32_of_le32_bytes [simp]:
  "le32_of_bytes (le32_bytes w ! 0) (le32_bytes w ! Suc 0) (le32_bytes w ! 2) (le32_bytes w ! 3) = w"
  by (simp add: le32_bytes_def)

lemma keeps_head:
  assumes "owns h P" "p \<in> P" "keeps P h h'"
  shows "pbufs h' p = pbufs h p"
proof -
  obtain xs where xs: "packet_at h p xs" using ownsD [OF assms(1,2)] by blast
  then obtain b ys where b: "xs = (p, b) # ys" "pbufs h p = Some b" using packet_at_Cons by blast
  have "chain (pbufs h') (Some p) xs" using xs assms(2,3) by (simp add: packet_at_def keeps_def)
  then show ?thesis using b by simp
qed

lemma peek_arp:
  assumes "pbufs (pheap s) p = Some b" "arp_pbuf pre opcode shw sip dhw dip rest b"
  shows "arp_hdr_wrong p s = Some False" "peek32 p 14 s = Some sip" "peek32 p 24 s = Some dip" "peek_at p 8 6 s = Some shw"
    "peek16 p 6 s = Some (lwip_htons opcode)" "peek_at p 14 4 s = Some (le32_bytes sip)" "peek_at p 18 6 s = Some dhw"
  using arp_pbuf_read [OF assms(2)] assms(1)
  by (simp_all add: arp_hdr_wrong_def peek16_def peek32_def peek_at_def ETH_HWADDR_LEN_def)

lemma poke_arp:
  assumes "pbufs (pheap s) p = Some b" "arp_pbuf pre opcode shw sip dhw dip rest b" "k + length ds \<le> 28" "ds \<noteq> []"
  shows "poke p k ds s = Some (s\<lparr>pheap := put p (b\<lparr>area := overwrite (area b) (length pre + k) ds\<rparr>) (pheap s)\<rparr>)"
proof -
  have "28 \<le> length (arp_packet opcode shw sip dhw dip @ rest)" using assms(2) by (simp add: arp_pbuf_def)
  then have "length pre + k + length ds \<le> length (area b)" using assms(2,3) by (simp add: arp_pbuf_def arp_area_def)
  then show ?thesis using assms by (intro poke_eq) (simp_all add: arp_pbuf_def)
qed

text \<open>The pbuf of the request with the reply in it.\<close>

definition reply_pbuf :: "netif \<Rightarrow> bytes \<Rightarrow> bytes \<Rightarrow> u32 \<Rightarrow> bytes \<Rightarrow> pbuf \<Rightarrow> pbuf" where
  "reply_pbuf n pre shw sip rest b = b\<lparr>area := arp_area pre ARP_REPLY (hwaddr n) (ip_addr n) shw sip rest\<rparr>"

lemma arp_reply_eq:
  assumes "pbufs (pheap s) p = Some b" "arp_pbuf pre opcode shw sip dhw dip rest b" "link_ok env"
  shows "arp_reply env p ni s = map_option snd (ethernet_output env ni p (hwaddr (netif_of env ni)) shw ETHTYPE_ARP
     (s\<lparr>pheap := put p (reply_pbuf (netif_of env ni) pre shw sip rest b) (pheap s)\<rparr>))"
proof -
  let ?n = "netif_of env ni" and ?r = "\<lambda>xs. s\<lparr>pheap := put p (b\<lparr>area := xs\<rparr>) (pheap s)\<rparr>"
  have l: "length shw = 6" "length dhw = 6" "length (hwaddr ?n) = 6" using assms(2) link_okD(2) [OF assms(3)] by (simp_all add: arp_pbuf_def)
  then have ne: "shw \<noteq> []" "hwaddr ?n \<noteq> []" by auto
  have ar: "area b = arp_area pre opcode shw sip dhw dip rest" using assms(2) by (simp add: arp_pbuf_def)
  have pk: "poke p k ds (?r (arp_area pre o1 m1 i1 m2 i2 rest)) = Some (?r (overwrite (arp_area pre o1 m1 i1 m2 i2 rest) (length pre + k) ds))"
    if "length m1 = 6" "length m2 = 6" "k + length ds \<le> 28" "ds \<noteq> []" for k ds o1 m1 i1 m2 i2
    using that assms(2) by (subst poke_arp [where b = "b\<lparr>area := arp_area pre o1 m1 i1 m2 i2 rest\<rparr>"
          and pre = pre and opcode = o1 and shw = m1 and sip = i1 and dhw = m2 and dip = i2 and rest = rest])
      (simp_all add: arp_pbuf_def)
  have rd: "peek_at p 14 4 (?r (arp_area pre o1 m1 i1 m2 i2 rest)) = Some (le32_bytes i1)"
    "peek_at p 8 6 (?r (arp_area pre o1 m1 i1 m2 i2 rest)) = Some m1"
    "peek_at p 18 6 (?r (arp_area pre o1 m1 i1 m2 i2 rest)) = Some m2"
    if "length m1 = 6" "length m2 = 6" for o1 m1 i1 m2 i2
    using that assms(2) by (auto intro!: peek_arp(4,6,7) [where b = "b\<lparr>area := arp_area pre o1 m1 i1 m2 i2 rest\<rparr>"] simp: arp_pbuf_def)
  have s: "poke p 6 (le16_bytes (lwip_htons ARP_REPLY)) s = Some (?r (arp_area pre ARP_REPLY shw sip dhw dip rest))"
    using poke_arp [OF assms(1,2), of 6 "le16_bytes (lwip_htons ARP_REPLY)"] l ar by (simp add: arp_area_overwrite)
  show ?thesis
    unfolding arp_reply_def Let_def s Option.bind.bind_lunit reply_pbuf_def
    using l ne link_okD(1) [OF assms(3), of ni]
    by (simp add: pk rd arp_area_overwrite)
      (cases "ethernet_output env ni p (hwaddr ?n) shw ETHTYPE_ARP (?r (arp_area pre ARP_REPLY (hwaddr ?n) (ip_addr ?n) shw sip rest))"; force)
qed

lemma find_addr_stable:
  assumes "arp_inv t" "i < ARP_TABLE_SIZE" "stable (arp_state (arp_table t ! i))" "arp_ip (arp_table t ! i) = ip"
  shows "etharp_find_addr ip t = Some (Some (i, ethaddr (arp_table t ! i), ip), t)"
proof -
  have len: "length (arp_table t) = ARP_TABLE_SIZE" using assms(1) by (rule arp_inv_length)
  have occ: "occupied (arp_table t ! i)" using assms(3) by (auto simp: occupied_def)
  then have m: "matches (Some ip) (arp_table t ! i)" using assms(4) by (simp add: matches_def)
  have "find_sweep (Some ip) (arp_table t) 0 no_candidates = Inl i"
  proof (cases "find_sweep (Some ip) (arp_table t) 0 no_candidates")
    case (Inl k)
    then have "k < length (arp_table t)" "matches (Some ip) (arp_table t ! k)"
      using find_sweep_table [of "arp_table t" "Some ip"] len by simp_all
    then have "k = i" using m assms(1,2) len unfolding arp_inv_def table_ok_def unique_ips_def matches_def by simp
    then show ?thesis using Inl by simp
  next
    case (Inr c)
    then show ?thesis using find_sweep_table [of "arp_table t" "Some ip"] len m assms(2) by simp
  qed
  then show ?thesis using assms(2,3,4) len by (simp add: etharp_find_addr_def etharp_find_entry_def table_get_def)
qed

text \<open>One of the frames \<open>l\<close> has the bytes \<open>bs\<close>.\<close>

text \<open>An answer to a request in the packet \<open>p\<close>.\<close>

lemma arp_reply_total:
  assumes "arp_good P s" "p \<in> P" "link_ok env" "packet_at (pheap s) p ((p, b) # xs)" "arp_pbuf pre opcode shw sip dhw dip rest b"
    and n_def: "n = netif_of env ni"
  shows "\<exists>t l. arp_reply env p ni s = Some t \<and> arp_good P t \<and> arp_table t = arp_table s \<and> keeps (P - {p}) (pheap s) (pheap t) \<and>
    sent t = sent s @ l \<and>
    (has_room b \<and> 28 \<le> unat (len b) \<and> unat (len b) + 14 < 65536 \<longrightarrow>
      (\<exists>rest. delivered ni (eth_hdr shw (hwaddr n) (lwip_htons ETHTYPE_ARP) @
         arp_packet ARP_REPLY (hwaddr n) (ip_addr n) shw sip @ rest) l))"
proof -
  note g = arp_goodD [OF assms(1)]
  let ?Q = "queues (arp_table s) \<union> P" and ?b = "reply_pbuf n pre shw sip rest b"
  let ?s = "s\<lparr>pheap := put p ?b (pheap s)\<rparr>"
  have b: "pbufs (pheap s) p = Some b" "head_ok b" "0 < ref b" using assms(4) by (auto simp: packet_at_def)
  have l: "length shw = 6" "length dhw = 6" "length (hwaddr n) = 6"
    using assms(5) link_okD(2) [OF assms(3)] by (simp_all add: arp_pbuf_def n_def)
  have pl: "payload b = Some (int (length pre))" "area b = arp_area pre opcode shw sip dhw dip rest"
    using assms(5) by (simp_all add: arp_pbuf_def)
  have len: "length (area ?b) = length (area b)" using l pl by (simp add: reply_pbuf_def arp_area_def)
  have ok: "head_ok ?b" using b(2) len by (simp add: head_ok_def reply_pbuf_def)
  have p: "p \<in> ?Q" using assms(2) by simp
  have "pnext ?b = pnext b" "0 < ref ?b" using b(3) by (simp_all add: reply_pbuf_def)
  note own = owns_put_head [OF g(4) p assms(4) this ok]
  have own': "owns (pheap ?s) ?Q" "packet_at (pheap ?s) p ((p, ?b) # xs)" using own by simp_all
  obtain r t where t: "ethernet_output env ni p (hwaddr n) shw ETHTYPE_ARP ?s = Some (r, t)" "arp_table t = arp_table s"
    "etharp_cached_entry t = etharp_cached_entry s" "owns (pheap t) ?Q" "keeps (?Q - {p}) (pheap ?s) (pheap t)"
    "if has_room ?b then sent t = sent s @ [(ni, p, pheap t)] \<and>
       (unat (len ?b) + 14 < 65536 \<longrightarrow> frame (pheap t) p (eth_hdr shw (hwaddr n) (lwip_htons ETHTYPE_ARP) @ content (?b # map snd xs)))
     else t = ?s"
    using ethernet_output_total [OF own'(1) p own'(2) assms(3) l(3,1), of ni ETHTYPE_ARP] by (auto split: if_splits)
  have eq: "arp_reply env p ni s = Some t" using arp_reply_eq [OF b(1) assms(5,3), of ni] t(1) by (simp add: n_def)
  have good: "arp_good P t" using g t(2-4) by (simp add: arp_good_def arp_inv_def)
  have k: "keeps (P - {p}) (pheap s) (pheap t)"
    using keeps_trans [OF own(3)] t(5) by (simp add: keeps_def)
  have room: "has_room ?b = has_room b" "len ?b = len b" by (simp_all add: has_room_def reply_pbuf_def)
  have data: "\<exists>rest. content (?b # map snd xs) = arp_packet ARP_REPLY (hwaddr n) (ip_addr n) shw sip @ rest" if "28 \<le> unat (len b)"
  proof -
    have "pdata ?b = take (unat (len b)) (arp_packet ARP_REPLY (hwaddr n) (ip_addr n) shw sip @ rest)"
      using pl(1) by (simp add: pdata_def reply_pbuf_def arp_area_def)
    then show ?thesis using that l by simp
  qed
  show ?thesis
  proof (cases "has_room b")
    case True
    then have "sent t = sent s @ [(ni, p, pheap t)]" "unat (len b) + 14 < 65536 \<longrightarrow>
        frame (pheap t) p (eth_hdr shw (hwaddr n) (lwip_htons ETHTYPE_ARP) @ content (?b # map snd xs))" using t(6) room by auto
    then show ?thesis using eq good t(2) k data unfolding delivered_def by fastforce
  next
    case False
    then show ?thesis using eq good t(2,6) k room by auto
  qed
qed

lemma htons_eq_iff: "lwip_htons a = PP_HTONS b \<longleftrightarrow> a = b"
  by (metis lwip_htons_def lwip_htons_htons)

text \<open>The last part of \<^verbatim>\<open>etharp_input\<close>, after the update.\<close>

lemma input_end:
  assumes "arp_good P s" "p \<in> P" "link_ok env" "pbufs (pheap s) p = Some b" "arp_pbuf pre opcode shw sip dhw dip rest b"
  shows "\<exists>t l. do {
       op \<leftarrow> peek16 p 6 s;
       s \<leftarrow> (if op = PP_HTONS ARP_REQUEST \<and> for_us then arp_reply env p ni s else Some s);
       free_pbuf p s
     } = Some t \<and> arp_good (P - {p}) t \<and> arp_table t = arp_table s \<and> keeps (P - {p}) (pheap s) (pheap t) \<and> sent t = sent s @ l \<and>
     (opcode = ARP_REQUEST \<and> for_us \<and> has_room b \<and> 28 \<le> unat (len b) \<and> unat (len b) + 14 < 65536 \<longrightarrow>
      (\<exists>rest. delivered ni (eth_hdr shw (hwaddr (netif_of env ni)) (lwip_htons ETHTYPE_ARP) @
         arp_packet ARP_REPLY (hwaddr (netif_of env ni)) (ip_addr (netif_of env ni)) shw sip @ rest) l))"
proof -
  note g = arp_goodD [OF assms(1)]
  obtain xs where xs: "packet_at (pheap s) p ((p, b) # xs)"
    using ownsD [OF g(4), of p] packet_at_Cons assms(2,4) by fastforce
  have pk: "peek16 p 6 s = Some (lwip_htons opcode)" using peek_arp(5) [OF assms(4,5)] .
  have fin: "\<exists>t. free_pbuf p u = Some t \<and> arp_good (P - {p}) t \<and> arp_table t = arp_table u \<and> keeps (P - {p}) (pheap u) (pheap t) \<and>
      sent t = sent u" if u: "arp_good P u" for u
  proof -
    note gu = arp_goodD [OF u]
    let ?Q = "queues (arp_table u) \<union> P"
    obtain h where h: "free_pbuf p u = Some (u\<lparr>pheap := h\<rparr>)" "owns h (?Q - {p})" "keeps (?Q - {p}) (pheap u) h"
      using free_pbuf_total [OF gu(4), of p] assms(2) by blast
    have Q: "?Q - {p} = queues (arp_table u) \<union> (P - {p})" using gu(3) assms(2) by blast
    have "arp_good (P - {p}) (u\<lparr>pheap := h\<rparr>)" using gu h(2) unfolding Q by (auto simp: arp_good_def arp_inv_def)
    moreover have "keeps (P - {p}) (pheap u) h" using h(3) unfolding Q by (rule keeps_mono) blast
    ultimately show ?thesis using h(1) by simp
  qed
  show ?thesis
  proof (cases "opcode = ARP_REQUEST \<and> for_us")
    case True
    obtain u l where u: "arp_reply env p ni s = Some u" "arp_good P u" "arp_table u = arp_table s"
      "keeps (P - {p}) (pheap s) (pheap u)" "sent u = sent s @ l"
      "has_room b \<and> 28 \<le> unat (len b) \<and> unat (len b) + 14 < 65536 \<longrightarrow>
        (\<exists>rest. delivered ni (eth_hdr shw (hwaddr (netif_of env ni)) (lwip_htons ETHTYPE_ARP) @
         arp_packet ARP_REPLY (hwaddr (netif_of env ni)) (ip_addr (netif_of env ni)) shw sip @ rest) l)"
      using arp_reply_total [OF assms(1-3) xs assms(5) refl] by blast
    obtain t where t: "free_pbuf p u = Some t" "arp_good (P - {p}) t" "arp_table t = arp_table u"
      "keeps (P - {p}) (pheap u) (pheap t)" "sent t = sent u" using fin [OF u(2)] by blast
    have "keeps (P - {p}) (pheap s) (pheap t)" using keeps_trans [OF u(4) t(4)] .
    then show ?thesis using True pk u t by (intro exI [of _ t] exI [of _ l]) (simp add: htons_eq_iff)
  next
    case False
    then show ?thesis using fin [OF assms(1)] pk by (auto simp: htons_eq_iff)
  qed
qed

lemma matches_unique:
  assumes "arp_inv s" "e \<in> set (arp_table s)" "matches (Some ip) e" "i < ARP_TABLE_SIZE" "matches (Some ip) (arp_table s ! i)"
  shows "e = arp_table s ! i"
proof -
  have len: "length (arp_table s) = ARP_TABLE_SIZE" using assms(1) by (rule arp_inv_length)
  obtain j where j: "e = arp_table s ! j" "j < ARP_TABLE_SIZE" using assms(2) len by (metis in_set_conv_nth)
  then have "j = i" using assms len unfolding arp_inv_def table_ok_def unique_ips_def matches_def by simp
  then show ?thesis using j by simp
qed

lemma input_learns:
  assumes "arp_good P s" "p \<in> P" "link_ok env"
    and "pbufs (pheap s) p = Some b" "arp_pbuf pre opcode shw sip dhw dip rest b"
    and "unicast env ni sip"
    and "n = netif_of env ni" "for_us \<longleftrightarrow> ip_addr n \<noteq> IPADDR_ANY \<and> dip = ip_addr n"
    and "for_us \<or> (\<exists>e \<in> set (arp_table s). matches (Some sip) e)"
  shows "\<exists>t l i. etharp_input env p (Some ni) s = Some t \<and> arp_good (P - {p}) t \<and> sent t = sent s @ l \<and>
    etharp_find_addr sip t = Some (Some (i, shw, sip), t) \<and>
    (\<forall>e q c xs. e \<in> set (arp_table s) \<and> matches (Some sip) e \<and> arp_q e = Some q \<and>
       packet_at (pheap s) q ((q, c) # xs) \<and> has_room c \<and> unat (len c) + 14 < 65536 \<longrightarrow>
       delivered ni (eth_hdr shw (hwaddr n) (lwip_htons ETHTYPE_IP) @ content (c # map snd xs)) l) \<and>
    (opcode = ARP_REQUEST \<and> for_us \<and> has_room b \<and> 28 \<le> unat (len b) \<and> unat (len b) + 14 < 65536 \<longrightarrow>
      (\<exists>rest. delivered ni (eth_hdr shw (hwaddr n) (lwip_htons ETHTYPE_ARP) @
         arp_packet ARP_REPLY (hwaddr n) (ip_addr n) shw sip @ rest) l))"
proof -
  note g = arp_goodD [OF assms(1)]
  let ?fl = "if for_us then ETHARP_FLAG_TRY_HARD else ETHARP_FLAG_FIND_ONLY"
  have l: "length shw = 6" using assms(5) by (simp add: arp_pbuf_def)
  note pk = peek_arp [OF assms(4,5)]
  have eq: "etharp_input env p (Some ni) s = do {
       (_, s) \<leftarrow> etharp_update_arp_entry env ni sip shw ?fl s;
       op \<leftarrow> peek16 p 6 s;
       s \<leftarrow> (if op = PP_HTONS ARP_REQUEST \<and> for_us then arp_reply env p ni s else Some s);
       free_pbuf p s }"
    using pk assms(7,8) by (simp add: etharp_input_def Let_def)
  obtain r w where w: "etharp_find_entry (Some sip) ?fl s = Some (r, w)"
    "if \<exists>e \<in> set (arp_table s). matches (Some sip) e
     then w = s \<and> (\<exists>i < ARP_TABLE_SIZE. r = Inr i \<and> matches (Some sip) (arp_table s ! i))
     else if ?fl AND ETHARP_FLAG_FIND_ONLY \<noteq> 0 \<or> (\<forall>e \<in> set (arp_table s). occupied e) \<and> ?fl AND ETHARP_FLAG_TRY_HARD = 0
     then w = s \<and> r = Inl ERR_MEM
     else \<exists>i e. r = Inr i \<and> victim (arp_table s) i \<and> arp_table w = (arp_table s)[i := e] \<and> new_entry sip e"
    using find_entry_total [OF assms(1)] by blast
  have found: "r \<noteq> Inl ERR_MEM"
    using w(2) assms(9) by (auto simp: ETHARP_FLAG_TRY_HARD_def ETHARP_FLAG_FIND_ONLY_def split: if_splits)
  from assms(1,3) l assms(6) show ?thesis
  proof (cases rule: update_total [where fl = ?fl])
    case none
    then show ?thesis using found w(1) by simp
  next
    case (some i u v)
    have wu: "w = u" "r = Inr i" using some(1) w(1) by simp_all
    have own: "owns (pheap s) P" using g(4) by (rule owns_mono) blast
    have b: "pbufs (pheap v) p = Some b" using keeps_head [OF own assms(2) some(7)] assms(4) by simp
    obtain l1 where l1: "sent v = sent s @ l1"
      "\<And>q b xs. arp_q (arp_table u ! i) = Some q \<Longrightarrow> packet_at (pheap u) q ((q, b) # xs) \<Longrightarrow> has_room b \<Longrightarrow>
         unat (len b) + 14 < 65536 \<Longrightarrow> delivered ni (eth_hdr shw (hwaddr n) (lwip_htons ETHTYPE_IP) @ content (b # map snd xs)) l1"
      using some(10) assms(7) by (cases "arp_q (arp_table u ! i)") (auto simp: goes_out_def)
    obtain t l where t: "do {
       op \<leftarrow> peek16 p 6 v;
       s \<leftarrow> (if op = PP_HTONS ARP_REQUEST \<and> for_us then arp_reply env p ni v else Some v);
       free_pbuf p s } = Some t" "arp_good (P - {p}) t" "arp_table t = arp_table v" "sent t = sent v @ l"
      "opcode = ARP_REQUEST \<and> for_us \<and> has_room b \<and> 28 \<le> unat (len b) \<and> unat (len b) + 14 < 65536 \<longrightarrow>
      (\<exists>rest. delivered ni (eth_hdr shw (hwaddr n) (lwip_htons ETHTYPE_ARP) @
         arp_packet ARP_REPLY (hwaddr n) (ip_addr n) shw sip @ rest) l)"
      using input_end [OF some(6) assms(2,3) b assms(5), of for_us ni] assms(7) by blast
    have i: "arp_table t ! i = stable_entry ni shw (arp_table u ! i)"
      using some(2,8) t(3) arp_goodD(5) [OF some(3)] by simp
    then have "etharp_find_addr sip t = Some (Some (i, shw, sip), t)"
      using find_addr_stable [OF arp_goodD(1) [OF t(2)] some(2), of sip] some(9) by (simp add: stable_entry_def)
    moreover have "etharp_input env p (Some ni) s = Some t" unfolding eq some(5) using t(1) by simp
    moreover have "delivered ni (eth_hdr shw (hwaddr n) (lwip_htons ETHTYPE_IP) @ content (c # map snd xs)) l1"
      if e: "e \<in> set (arp_table s)" "matches (Some sip) e" "arp_q e = Some q" and
        x: "packet_at (pheap s) q ((q, c) # xs)" "has_room c" "unat (len c) + 14 < 65536" for e q c xs
    proof -
      have us: "u = s" "matches (Some sip) (arp_table s ! i)" using w(2) wu e by (auto split: if_splits)
      then have "e = arp_table s ! i" using matches_unique [OF g(1) e(1,2)] some(2) by blast
      then show ?thesis using l1(2) us(1) e(3) x by blast
    qed
    ultimately show ?thesis using t(2,4,5) l1(1)
      by (intro exI [of _ t] exI [of _ "l1 @ l"] exI [of _ i]) auto
  qed
qed

text \<open>C34: an ARP packet that is meant for us, or whose sender is in the table, is processed without
  failure. Afterwards the sender's hardware address is found in the table, the packet has been
  released, a packet that waited for this address has been sent to it unchanged behind an Ethernet
  header, and a request for our address has been answered with our hardware address.\<close>

theorem etharp_input_learns:
  assumes "arp_good P s" "p \<in> P" "link_ok env"
    and "pbufs (pheap s) p = Some b" "arp_pbuf pre opcode shw sip dhw dip rest b"
    and "unicast env ni sip"
    and "n = netif_of env ni" "for_us \<longleftrightarrow> ip_addr n \<noteq> IPADDR_ANY \<and> dip = ip_addr n"
    and "for_us \<or> (\<exists>e \<in> set (arp_table s). matches (Some sip) e)"
  shows "\<exists>t l i. etharp_input env p (Some ni) s = Some t \<and> arp_good (P - {p}) t \<and> sent t = sent s @ l \<and>
    etharp_find_addr sip t = Some (Some (i, shw, sip), t) \<and>
    (\<forall>e q c xs. e \<in> set (arp_table s) \<and> matches (Some sip) e \<and> arp_q e = Some q \<and>
       packet_at (pheap s) q ((q, c) # xs) \<and> has_room c \<and> unat (len c) + 14 < 65536 \<longrightarrow>
       delivered ni (eth_hdr shw (hwaddr n) (lwip_htons ETHTYPE_IP) @ content (c # map snd xs)) l) \<and>
    (opcode = ARP_REQUEST \<and> for_us \<and> has_room b \<and> 28 \<le> unat (len b) \<and> unat (len b) + 14 < 65536 \<longrightarrow>
      (\<exists>rest. delivered ni (eth_hdr shw (hwaddr n) (lwip_htons ETHTYPE_ARP) @
         arp_packet ARP_REPLY (hwaddr n) (ip_addr n) shw sip @ rest) l))"
  using assms by (rule input_learns)

section \<open>Queueing a packet for an unknown address\<close>

text \<open>A packet as the upper layers hand it down: not empty anywhere, its first pbuf writable, and
  small enough for one block.\<close>

definition sendable :: "pbuf list \<Rightarrow> bool" where
  "sendable bs \<longleftrightarrow> bs \<noteq> [] \<and> packet bs \<and> no_empty bs \<and> ptype (hd bs) \<noteq> PBUF_ROM \<and> 40 + total_len bs < 65536"

abbreviation link_copy :: "pbuf_heap \<Rightarrow> nat \<Rightarrow> pbuf list \<Rightarrow> pbuf" where
  "link_copy h a bs \<equiv> flat_copy PBUF_LINK h a bs"

lemma link_offset [simp]: "layer_offset PBUF_LINK = 16"
  by (simp add: PBUF_LINK_HLEN_def PBUF_LINK_ENCAPSULATION_HLEN_def)

lemma link_copy_ok:
  assumes "sendable bs"
  shows "unat (len (link_copy h a bs)) + 14 < 65536" "pdata (link_copy h a bs) = content bs" "head_ok (link_copy h a bs)"
    "has_room (link_copy h a bs)" "pnext (link_copy h a bs) = None" "0 < ref (link_copy h a bs)"
proof -
  have "packet bs" "total_len bs < 65536" "total_len bs + 14 < 65536" using assms by (simp_all add: sendable_def)
  then show "unat (len (link_copy h a bs)) + 14 < 65536" "pdata (link_copy h a bs) = content bs" "head_ok (link_copy h a bs)"
    using flat_copy_ok [of bs] by simp_all
  show "has_room (link_copy h a bs)" "pnext (link_copy h a bs) = None" "0 < ref (link_copy h a bs)"
    by (simp_all add: has_room_def flat_copy_def PBUF_LINK_HLEN_def PBUF_LINK_ENCAPSULATION_HLEN_def)
qed

definition copy_size :: "pbuf list \<Rightarrow> u16" where
  "copy_size bs = of_nat (40 + total_len bs)"

lemma take_over_eq:
  assumes "packet_at (pheap s) q ((q, b) # xs)" "sendable (b # map snd xs)" "link_ok env"
  shows "take_over env q s = (case link_malloc env (pheap s) (copy_size (b # map snd xs)) of
      None \<Rightarrow> Some (None, s)
    | Some a \<Rightarrow> Some (Some a, s\<lparr>pheap := put a (link_copy (pheap s) a (b # map snd xs)) (pheap s)\<rparr>))"
proof -
  let ?bs = "b # map snd xs"
  have p: "chain (pbufs (pheap s)) (Some q) ((q, b) # xs)" "packet ?bs" "no_empty ?bs" "ptype b \<noteq> PBUF_ROM" "40 + total_len ?bs < 65536"
    using assms(1,2) by (simp_all add: packet_at_def sendable_def)
  have lk: "len b \<noteq> tot_len b \<or> pnext b = None"
    using packet_head_link [of "(q, b) # xs", OF _ _ p(1)] p by auto
  have b: "pbufs (pheap s) q = Some b" using p(1) by simp
  have cn: "copy_needed_at (Some q) (pheap s) = Some (Some q)"
    using lk p(4) b by (subst copy_needed_at.simps) simp
  have sz: "ram_size (layer_offset PBUF_LINK) (tot_len b) = copy_size ?bs"
    using p(2) by (simp add: ram_size_def copy_size_def SIZEOF_STRUCT_PBUF_def PBUF_LINK_HLEN_def PBUF_LINK_ENCAPSULATION_HLEN_def del: of_nat_add)
  have lim: "SIZEOF_STRUCT_PBUF + layer_offset PBUF_LINK + unat (tot_len b) < 65536"
    using p(2,5) by (simp add: SIZEOF_STRUCT_PBUF_def PBUF_LINK_HLEN_def PBUF_LINK_ENCAPSULATION_HLEN_def)
  show ?thesis
  proof (cases "link_malloc env (pheap s) (copy_size ?bs)")
    case None
    then show ?thesis unfolding take_over_def cn using b sz by (simp add: pbuf_alloc_def)
  next
    case (Some a)
    then obtain h where "pbuf_alloc (link_malloc env (pheap s)) PBUF_LINK (tot_len b) PBUF_RAM (pheap s) = Some (Some a, h)"
      "pbuf_copy (Some a) (Some q) h = Some (ERR_OK, put a (link_copy (pheap s) a ?bs) (pheap s))"
      using copy_packet [where malloc = "link_malloc env (pheap s)" and layer = PBUF_LINK and a = a, OF p(1-3) _ _ lim]
        link_okD(3) [OF assms(3) Some] sz by auto
    then show ?thesis unfolding take_over_def cn using b Some by simp
  qed
qed

text \<open>The entry \<open>e\<close> keeps a copy of the packet \<open>bs\<close>.\<close>

definition holds_copy :: "pbuf_heap \<Rightarrow> etharp_entry \<Rightarrow> pbuf list \<Rightarrow> bool" where
  "holds_copy h e bs \<longleftrightarrow> (\<exists>a nb. arp_q e = Some a \<and> packet_at h a [(a, nb)] \<and> has_room nb \<and> unat (len nb) + 14 < 65536 \<and>
     pdata nb = content bs)"

lemma query_packet_total:
  assumes "arp_good P s" "q \<in> P" "link_ok env" "packet_at (pheap s) q ((q, b) # xs)" "sendable (b # map snd xs)"
    and "i < ARP_TABLE_SIZE" "arp_state (arp_table s ! i) = ETHARP_STATE_PENDING"
  shows "\<exists>r t. query_packet env ni i q s = Some (r, t) \<and> arp_good P t \<and> keeps P (pheap s) (pheap t) \<and> sent t = sent s \<and>
    (if link_malloc env (pheap s) (copy_size (b # map snd xs)) = None then r = ERR_MEM \<and> t = s
     else r = ERR_OK \<and> (\<exists>a. arp_table t = (arp_table s)[i := (arp_table s ! i)\<lparr>arp_q := Some a\<rparr>]) \<and>
       holds_copy (pheap t) (arp_table t ! i) (b # map snd xs))"
proof -
  note g = arp_goodD [OF assms(1)]
  let ?e = "arp_table s ! i" and ?bs = "b # map snd xs" and ?Q = "queues (arp_table s) \<union> P"
  have i: "i < length (arp_table s)" "table_get i s = Some ?e" using assms(6) g(5) by (simp_all add: table_get_def)
  have st: "\<not> stable (arp_state ?e)" using assms(7) by simp
  note to = take_over_eq [OF assms(4,5,3)]
  show ?thesis
  proof (cases "link_malloc env (pheap s) (copy_size ?bs)")
    case None
    then show ?thesis unfolding query_packet_def i(2) using st to assms(1) by simp
  next
    case (Some a)
    let ?nb = "link_copy (pheap s) a ?bs" and ?f = "?e\<lparr>arp_q := Some a\<rparr>"
    let ?h = "put a ?nb (pheap s)"
    let ?u = "s\<lparr>pheap := ?h\<rparr>" and ?R = "insert a ?Q - set_option (arp_q ?e)"
    note ok = link_copy_ok [OF assms(5), of "pheap s" a]
    note new = owns_new [OF g(4) link_okD(3) [OF assms(3) Some] ok(5,6,3)]
    have old: "\<exists>h. (case arp_q ?e of None \<Rightarrow> Some ?u | Some old \<Rightarrow> free_pbuf old ?u) = Some (?u\<lparr>pheap := h\<rparr>) \<and>
        owns h ?R \<and> keeps ?R ?h h"
    proof (cases "arp_q ?e")
      case None
      then show ?thesis using new(3) by (intro exI [of _ ?h]) simp
    next
      case (Some o')
      have "o' \<in> insert a ?Q" using queue_in [OF i(1) Some] by simp
      moreover have "owns (pheap ?u) (insert a ?Q)" using new(3) by simp
      ultimately show ?thesis using free_pbuf_total [of ?u "insert a ?Q" o'] Some by fastforce
    qed
    then obtain h where h: "(case arp_q ?e of None \<Rightarrow> Some ?u | Some old \<Rightarrow> free_pbuf old ?u) = Some (?u\<lparr>pheap := h\<rparr>)"
      "owns h ?R" "keeps ?R ?h h" by blast
    let ?t = "table_set i ?f (?u\<lparr>pheap := h\<rparr>)"
    have eq: "query_packet env ni i q s = Some (ERR_OK, ?t)"
      unfolding query_packet_def i(2) using st to Some h(1) by simp
    have aq: "a \<notin> set_option (arp_q ?e)" "set_option (arp_q ?e) \<inter> P = {}"
      using new(1) queue_in [OF i(1)] g(3) by auto
    have qs: "queues ((arp_table s)[i := ?f]) = insert a (queues (arp_table s) - set_option (arp_q ?e))"
      "queues_distinct ((arp_table s)[i := ?f])"
      using queues_set [OF g(2) i(1), of ?f] queues_distinct_set [OF g(2) i(1), of ?f] new(1) by simp_all
    have R: "?R = queues ((arp_table s)[i := ?f]) \<union> P" unfolding qs(1) using aq by blast
    have tok: "table_ok ((arp_table s)[i := ?f])"
    proof (rule table_ok_set)
      show "table_ok (arp_table s)" using g(1) by (simp add: arp_inv_def)
      show "entry_ok ?f" using arp_inv_nth [OF g(1) i(1)] assms(7) by (auto simp: entry_ok_def occupied_def)
      fix j assume "j < length (arp_table s)" "j \<noteq> i" "occupied (arp_table s ! j)"
      then show "arp_ip (arp_table s ! j) \<noteq> arp_ip ?f"
        using g(1) i(1) assms(7) unfolding arp_inv_def table_ok_def unique_ips_def by (auto simp: occupied_def)
    qed
    have "queues ((arp_table s)[i := ?f]) \<inter> P = {}" unfolding qs(1) using new(1) g(3) by blast
    then have good: "arp_good P ?t" using g(1,5) h(2) qs(2) tok unfolding R by (simp add: arp_good_def arp_inv_def)
    have "keeps P ?h h" using h(3) unfolding R by (rule keeps_mono) blast
    then have kp: "keeps P (pheap s) h" using keeps_trans keeps_mono [OF new(2)] by blast
    have "a \<in> ?R" using aq(1) by simp
    then have "chain (pbufs h) (Some a) [(a, ?nb)]" using new(4) h(3) unfolding packet_at_def keeps_def by blast
    then have "packet_at h a [(a, ?nb)]" using new(4) unfolding packet_at_def by blast
    then have "holds_copy h ?f ?bs" unfolding holds_copy_def using ok by auto
    then show ?thesis using eq good kp Some i(1) by (intro exI [of _ ERR_OK] exI [of _ ?t]) auto
  qed
qed

lemma keeps_packet: "keeps P h h' \<Longrightarrow> q \<in> P \<Longrightarrow> packet_at h q xs \<Longrightarrow> packet_at h' q xs"
  by (simp add: keeps_def packet_at_def)

lemma find_entry_dom:
  assumes "etharp_find_entry ip fl s = Some (r, t)"
  shows "dom (pbufs (pheap t)) \<subseteq> dom (pbufs (pheap s))"
proof -
  have claim: "pheap w = pheap v" if "claim_entry ip i v = Some (r, w)" for i v w r
    using that by (auto simp: claim_entry_def Let_def split: bind_splits)
  have free: "dom (pbufs (pheap w)) \<subseteq> dom (pbufs (pheap s))" if "etharp_free_entry i s = Some w" for i w
    using that free_pbuf_dom [of _ s] by (fastforce simp: etharp_free_entry_def split: bind_splits option.splits)
  consider "t = s" | i where "claim_entry ip i s = Some (r, t)"
    | i w where "etharp_free_entry i s = Some w" "claim_entry ip i w = Some (r, t)"
    using assms unfolding etharp_find_entry_def by (auto split: sum.splits if_splits bind_splits option.splits)
  then show ?thesis by cases (simp_all add: claim, metis claim free)
qed

lemma pending_good:
  assumes "arp_good P u" "i < ARP_TABLE_SIZE" "new_entry ip (arp_table u ! i)"
    and other: "\<And>j. j < ARP_TABLE_SIZE \<Longrightarrow> j \<noteq> i \<Longrightarrow> occupied (arp_table u ! j) \<Longrightarrow> arp_ip (arp_table u ! j) \<noteq> ip"
  shows "arp_good P (table_set i ((arp_table u ! i)\<lparr>arp_state := ETHARP_STATE_PENDING, arp_netif := Some ni\<rparr>) u)"
proof -
  note g = arp_goodD [OF assms(1)]
  let ?e = "arp_table u ! i"
  let ?f = "?e\<lparr>arp_state := ETHARP_STATE_PENDING, arp_netif := Some ni\<rparr>"
  have i: "i < length (arp_table u)" using assms(2) g(5) by simp
  have e: "entry_ok ?e" "arp_q ?e = None" "ctime ?e = 0" "arp_ip ?e = ip"
    using arp_inv_nth [OF g(1) i] assms(3) by (simp_all add: new_entry_def)
  have "table_ok ((arp_table u)[i := ?f])"
  proof (rule table_ok_set)
    show "table_ok (arp_table u)" using g(1) by (simp add: arp_inv_def)
    show "entry_ok ?f" using e by (simp add: entry_ok_def ARP_MAXAGE_def ARP_MAXPENDING_def)
    fix j assume "j < length (arp_table u)" "j \<noteq> i" "occupied (arp_table u ! j)"
    then show "arp_ip (arp_table u ! j) \<noteq> arp_ip ?f" using other [of j] g(5) e(4) by simp
  qed
  moreover have "queues ((arp_table u)[i := ?f]) = queues (arp_table u)" "queues_distinct ((arp_table u)[i := ?f])"
    using queues_set [OF g(2) i, of ?f] queues_distinct_set [OF g(2) i, of ?f] e(2) by simp_all
  ultimately show ?thesis using g by (simp add: arp_good_def arp_inv_def)
qed

lemma query_eq:
  assumes "unicast env ni ip" "etharp_find_entry (Some ip) ETHARP_FLAG_TRY_HARD s = Some (Inr i, u)" "i < length (arp_table u)"
  shows "etharp_query env ni ip (Some q) s =
    (if arp_state (arp_table u ! i) = ETHARP_STATE_EMPTY then do {
       (_, w) \<leftarrow> etharp_request env ni ip
         (table_set i ((arp_table u ! i)\<lparr>arp_state := ETHARP_STATE_PENDING, arp_netif := Some ni\<rparr>) u);
       query_packet env ni i q w }
     else query_packet env ni i q u)"
proof -
  have "\<not> (ip4_addr_isbroadcast ip (netif_of env ni) \<or> ip4_addr_ismulticast ip \<or> ip4_addr_isany (Some ip))"
    using assms(1) by (simp add: unicast_def)
  note un = if_not_P [OF this]
  have tg: "table_get i u = Some (arp_table u ! i)" using assms(3) by (simp add: table_get_def)
  show ?thesis unfolding etharp_query_def Let_def un assms(2) by (simp add: tg)
qed

text \<open>A packet for an address without a usable entry: the address is pending afterwards. The entry keeps
  a copy of the packet unless there is no memory for it; a new entry also sends a request.\<close>

lemma query_total:
  assumes "arp_good P s" "q \<in> P" "link_ok env" "unicast env ni ip"
    and "packet_at (pheap s) q ((q, b) # xs)" "sendable (b # map snd xs)"
    and "\<forall>e \<in> set (arp_table s). matches (Some ip) e \<longrightarrow> \<not> stable (arp_state e)"
  shows "\<exists>r t l i. etharp_query env ni ip (Some q) s = Some (r, t) \<and> arp_good P t \<and> keeps P (pheap s) (pheap t) \<and>
    sent t = sent s @ l \<and> i < ARP_TABLE_SIZE \<and> matches (Some ip) (arp_table t ! i) \<and> r \<in> {ERR_OK, ERR_MEM} \<and>
    (r = ERR_OK \<longrightarrow> holds_copy (pheap t) (arp_table t ! i) (b # map snd xs)) \<and>
    (r = ERR_MEM \<longrightarrow> link_malloc env (pheap t) (copy_size (b # map snd xs)) = None \<and> dom (pbufs (pheap t)) \<subseteq> dom (pbufs (pheap s))) \<and>
    (\<not> (\<exists>e \<in> set (arp_table s). matches (Some ip) e) \<longrightarrow>
       delivered ni (request_frame env ni ethbroadcast ip) l \<or>
       (\<exists>h. dom (pbufs h) \<subseteq> dom (pbufs (pheap s)) \<and> link_malloc env h 68 = None))"
proof -
  let ?bs = "b # map snd xs"
  obtain r0 u where u: "etharp_find_entry (Some ip) ETHARP_FLAG_TRY_HARD s = Some (r0, u)" "arp_good P u" "sent u = sent s"
    "keeps P (pheap s) (pheap u)"
    "if \<exists>e \<in> set (arp_table s). matches (Some ip) e
     then u = s \<and> (\<exists>i < ARP_TABLE_SIZE. r0 = Inr i \<and> matches (Some ip) (arp_table s ! i))
     else \<exists>i e. r0 = Inr i \<and> victim (arp_table s) i \<and> arp_table u = (arp_table s)[i := e] \<and> new_entry ip e"
    using find_entry_total [OF assms(1), of ip ETHARP_FLAG_TRY_HARD]
    by (fastforce simp: ETHARP_FLAG_TRY_HARD_def ETHARP_FLAG_FIND_ONLY_def split: if_splits)
  have pk: "packet_at (pheap v) q ((q, b) # xs)" if "keeps P (pheap s) (pheap v)" for v
    using keeps_packet [OF that assms(2,5)] .
  show ?thesis
  proof (cases "\<exists>e \<in> set (arp_table s). matches (Some ip) e")
    case True
    then obtain i where i: "u = s" "r0 = Inr i" "i < ARP_TABLE_SIZE" "matches (Some ip) (arp_table s ! i)" using u(5) by auto
    have il: "i < length (arp_table s)" using i(3) arp_goodD(5) [OF assms(1)] by simp
    then have "\<not> stable (arp_state (arp_table s ! i))" using assms(7) i(4) nth_mem by blast
    then have st: "arp_state (arp_table s ! i) = ETHARP_STATE_PENDING"
      using i(4) by (cases "arp_state (arp_table s ! i)") (auto simp: matches_def occupied_def)
    have eq: "etharp_query env ni ip (Some q) s = query_packet env ni i q s"
      using query_eq [OF assms(4) u(1) [unfolded i(2)]] i(1) il st by simp
    obtain r t where t: "query_packet env ni i q s = Some (r, t)" "arp_good P t" "keeps P (pheap s) (pheap t)" "sent t = sent s"
      "if link_malloc env (pheap s) (copy_size ?bs) = None then r = ERR_MEM \<and> t = s
       else r = ERR_OK \<and> (\<exists>a. arp_table t = (arp_table s)[i := (arp_table s ! i)\<lparr>arp_q := Some a\<rparr>]) \<and>
         holds_copy (pheap t) (arp_table t ! i) ?bs"
      using query_packet_total [OF assms(1-3,5,6) i(3) st] by blast
    have "matches (Some ip) (arp_table t ! i)" using t(5) i(4) il by (auto simp: matches_def occupied_def split: if_splits)
    moreover have "r = ERR_OK \<and> holds_copy (pheap t) (arp_table t ! i) ?bs \<or> r = ERR_MEM \<and> t = s \<and> link_malloc env (pheap s) (copy_size ?bs) = None"
      using t(5) by (auto split: if_splits)
    ultimately show ?thesis using True eq t(1-4) i(3)
      by (intro exI [of _ r] exI [of _ t] exI [of _ "[]"] exI [of _ i]) auto
  next
    case False
    then obtain i e where i: "r0 = Inr i" "victim (arp_table s) i" "arp_table u = (arp_table s)[i := e]" "new_entry ip e"
      using u(5) by auto
    have il: "i < ARP_TABLE_SIZE" "i < length (arp_table u)" "arp_table u ! i = e"
      using i(2,3) arp_goodD(5) [OF assms(1)] by (auto simp: victim_def)
    have other: "arp_ip (arp_table u ! j) \<noteq> ip" if "j < ARP_TABLE_SIZE" "j \<noteq> i" "occupied (arp_table u ! j)" for j
      using False that i(3) arp_goodD(5) [OF assms(1)] by (auto simp: matches_def)
    let ?f = "e\<lparr>arp_state := ETHARP_STATE_PENDING, arp_netif := Some ni\<rparr>"
    let ?v = "table_set i ?f u"
    have v: "arp_good P ?v" using pending_good [OF u(2) il(1), of ip ni] i(4) other il(3) by simp
    obtain r1 w where w: "etharp_request env ni ip ?v = Some (r1, w)" "arp_kept (queues (arp_table ?v) \<union> P) ?v w"
      "arp_sent env ni (request_frame env ni ethbroadcast ip) ?v r1 w" "dom (pbufs (pheap w)) \<subseteq> dom (pbufs (pheap u))"
      using etharp_request_total [OF arp_goodD(4) [OF v] assms(3), of ethbroadcast ni ip] by (auto simp: etharp_request_def ethbroadcast_def)
    note wk = arp_good_kept [OF v w(2)]
    have kw: "keeps P (pheap s) (pheap w)" using keeps_trans [OF u(4)] wk(2) by simp
    have wi: "arp_table w ! i = ?f" using w(2) il by (simp add: arp_kept_def)
    then have st: "arp_state (arp_table w ! i) = ETHARP_STATE_PENDING" by simp
    have "arp_state e = ETHARP_STATE_EMPTY" using i(4) by (simp add: new_entry_def occupied_def)
    then have eq: "etharp_query env ni ip (Some q) s = query_packet env ni i q w"
      using query_eq [OF assms(4) u(1) [unfolded i(1)] il(2)] il(3) w(1) by simp
    obtain r t where t: "query_packet env ni i q w = Some (r, t)" "arp_good P t" "keeps P (pheap w) (pheap t)" "sent t = sent w"
      "if link_malloc env (pheap w) (copy_size ?bs) = None then r = ERR_MEM \<and> t = w
       else r = ERR_OK \<and> (\<exists>a. arp_table t = (arp_table w)[i := (arp_table w ! i)\<lparr>arp_q := Some a\<rparr>]) \<and>
         holds_copy (pheap t) (arp_table t ! i) ?bs"
      using query_packet_total [OF wk(1) assms(2,3) pk [OF kw] assms(6) il(1) st] by blast
    have ml: "matches (Some ip) ?f" using i(4) by (simp add: matches_def occupied_def new_entry_def)
    have "matches (Some ip) (arp_table t ! i)"
      using t(5) wi ml il(1) arp_goodD(5) [OF wk(1)] by (auto simp: matches_def occupied_def split: if_splits)
    moreover obtain l where l: "sent t = sent s @ l"
      "delivered ni (request_frame env ni ethbroadcast ip) l \<or> link_malloc env (pheap u) 68 = None"
      using w(3) t(4) u(3) by (auto simp: arp_sent_def delivered_def split: if_splits)
    moreover have "r = ERR_OK \<and> holds_copy (pheap t) (arp_table t ! i) ?bs \<or> r = ERR_MEM \<and> t = w \<and> link_malloc env (pheap w) (copy_size ?bs) = None"
      using t(5) by (auto split: if_splits)
    moreover have "dom (pbufs (pheap w)) \<subseteq> dom (pbufs (pheap s))" "delivered ni (request_frame env ni ethbroadcast ip) l \<or>
        (\<exists>h. dom (pbufs h) \<subseteq> dom (pbufs (pheap s)) \<and> link_malloc env h 68 = None)"
      using find_entry_dom [OF u(1)] w(4) l(2) by blast+
    ultimately show ?thesis using eq t(1,2) keeps_trans [OF kw t(3)] il(1)
      by (intro exI [of _ r] exI [of _ t] exI [of _ l] exI [of _ i]) auto
  qed
qed

text \<open>C33: a packet that waits for an address arrives. A packet for an address that has no usable entry
  is taken by \<^verbatim>\<open>etharp_query\<close>, or the result is \<^verbatim>\<open>ERR_MEM\<close>; then the allocator has no block for the
  copy in the store that is left, in which no more pbufs are live than before. When the packet has
  been taken and an ARP packet from that address comes in next, the input of the ARP packet succeeds
  and puts the bytes of the waiting packet on the link, behind an Ethernet header with the hardware
  address that was learned.\<close>

theorem arp_resolution:
  assumes "arp_good P s" "q \<in> P" "p \<in> P" "link_ok env" "unicast env ni ip"
    and "packet_at (pheap s) q ((q, b) # xs)" "sendable (b # map snd xs)"
    and "\<forall>e \<in> set (arp_table s). matches (Some ip) e \<longrightarrow> \<not> stable (arp_state e)"
    and "pbufs (pheap s) p = Some c" "arp_pbuf pre opcode mac ip dhw dip rest c"
  shows "\<exists>r t. etharp_query env ni ip (Some q) s = Some (r, t) \<and>
    (r = ERR_OK \<or> r = ERR_MEM \<and> link_malloc env (pheap t) (copy_size (b # map snd xs)) = None \<and>
       dom (pbufs (pheap t)) \<subseteq> dom (pbufs (pheap s))) \<and>
    (r = ERR_OK \<longrightarrow> (\<exists>u l. etharp_input env p (Some ni) t = Some u \<and> arp_good (P - {p}) u \<and> sent u = sent s @ l \<and>
       delivered ni (eth_hdr mac (hwaddr (netif_of env ni)) (lwip_htons ETHTYPE_IP) @ content (b # map snd xs)) l))"
proof -
  let ?bs = "b # map snd xs" and ?n = "netif_of env ni"
  let ?us = "ip_addr ?n \<noteq> IPADDR_ANY \<and> dip = ip_addr ?n"
  obtain r t l i where t: "etharp_query env ni ip (Some q) s = Some (r, t)" "arp_good P t" "keeps P (pheap s) (pheap t)"
    "sent t = sent s @ l" "i < ARP_TABLE_SIZE" "matches (Some ip) (arp_table t ! i)" "r \<in> {ERR_OK, ERR_MEM}"
    "r = ERR_OK \<longrightarrow> holds_copy (pheap t) (arp_table t ! i) ?bs"
    "r = ERR_MEM \<longrightarrow> link_malloc env (pheap t) (copy_size ?bs) = None \<and> dom (pbufs (pheap t)) \<subseteq> dom (pbufs (pheap s))"
    using query_total [OF assms(1,2,4-8)] by blast
  have own: "owns (pheap s) P" using arp_goodD(4) [OF assms(1)] by (rule owns_mono) blast
  have c: "pbufs (pheap t) p = Some c" using keeps_head [OF own assms(3) t(3)] assms(9) by simp
  have e: "arp_table t ! i \<in> set (arp_table t)" using t(5) arp_goodD(5) [OF t(2)] by simp
  have "\<exists>u l. etharp_input env p (Some ni) t = Some u \<and> arp_good (P - {p}) u \<and> sent u = sent s @ l \<and>
      delivered ni (eth_hdr mac (hwaddr ?n) (lwip_htons ETHTYPE_IP) @ content ?bs) l" if ok: "r = ERR_OK"
  proof -
    obtain a nb where a: "arp_q (arp_table t ! i) = Some a" "packet_at (pheap t) a [(a, nb)]" "has_room nb"
      "unat (len nb) + 14 < 65536" "pdata nb = content ?bs" using t(8) ok unfolding holds_copy_def by blast
    obtain u l' where u: "etharp_input env p (Some ni) t = Some u" "arp_good (P - {p}) u" "sent u = sent t @ l'"
      "\<forall>e q c xs. e \<in> set (arp_table t) \<and> matches (Some ip) e \<and> arp_q e = Some q \<and>
       packet_at (pheap t) q ((q, c) # xs) \<and> has_room c \<and> unat (len c) + 14 < 65536 \<longrightarrow>
       delivered ni (eth_hdr mac (hwaddr ?n) (lwip_htons ETHTYPE_IP) @ content (c # map snd xs)) l'"
      using input_learns [OF t(2) assms(3,4) c assms(10,5) refl refl] e t(6) by blast
    have "delivered ni (eth_hdr mac (hwaddr ?n) (lwip_htons ETHTYPE_IP) @ content [nb]) l'"
      using u(4) e t(6) a by fastforce
    then show ?thesis using u(1-3) t(4) a(5) by (intro exI [of _ u] exI [of _ "l @ l'"]) simp
  qed
  then show ?thesis using t(1,7,9) by blast
qed

section \<open>An example\<close>

text \<open>A link with ten free blocks, a store with the two-pbuf packet at 1, and at 20 an ARP reply from
  10.0.0.7 to us.\<close>

definition example_lan :: link_env where
  "example_lan = example_link\<lparr>link_malloc := \<lambda>h n. find (\<lambda>a. pbufs h a = None) [100..<110]\<rparr>"

definition example_mac :: bytes where "example_mac = [2, 0, 0, 0, 0, 7]"

definition example_reply :: pbuf where
  "example_reply = \<lparr>pnext = None, payload = Some 0, tot_len = 28, len = 28, ptype = PBUF_POOL, flags = 0, ref = 1,
     area = arp_packet ARP_REPLY example_mac (IP4_ADDR 10 0 0 7) (hwaddr example_netif) (IP4_ADDR 10 0 0 1)\<rparr>"

definition example_arp :: arp where
  "example_arp = arp_start (put 20 example_reply example_heap)"

lemma example_reply_ok: "arp_pbuf [] ARP_REPLY example_mac (IP4_ADDR 10 0 0 7) (hwaddr example_netif) (IP4_ADDR 10 0 0 1) [] example_reply"
  by (simp add: arp_pbuf_def example_reply_def arp_area_def example_mac_def example_netif_def)

lemma example_lan_ok: "link_ok example_lan" "unicast example_lan 0 (IP4_ADDR 10 0 0 7)" "netif_of example_lan 0 = example_netif"
proof -
  show "link_ok example_lan"
    by (auto simp: link_ok_def example_lan_def example_link_def example_netif_def ETH_HWADDR_LEN_def find_Some_iff)
  show "unicast example_lan 0 (IP4_ADDR 10 0 0 7)" by code_simp
qed (simp add: example_lan_def example_link_def)

lemma example_packet:
  "packet_at example_heap 1 example_xs" "sendable (map snd example_xs)"
  using example_chain by (simp_all add: packet_at_def head_ok_def sendable_def example_xs_def example_pbuf_def)

lemma example_arp_good: "arp_good {1, 20} example_arp" "packet_at (pheap example_arp) 1 example_xs" "pbufs (pheap example_arp) 20 = Some example_reply"
proof -
  have "owns example_heap {1}" using example_packet(1) by (intro ownsI) auto
  note new = owns_new [OF this, of 20 example_reply]
  have "pbufs example_heap 20 = None" "pnext example_reply = None" "0 < ref example_reply" "head_ok example_reply"
    by (simp_all add: example_heap_def example_reply_def head_ok_def example_mac_def example_netif_def)
  note new = new [OF this]
  have q: "queues (arp_table example_arp) = {}" "queues_distinct (arp_table example_arp)"
    by (simp_all add: queues_def queues_distinct_def example_arp_def arp_start_def empty_entry_def)
  have "arp_inv example_arp" unfolding example_arp_def by (rule arp_start_inv)
  then show "arp_good {1, 20} example_arp" using q new(3) by (simp add: arp_good_def example_arp_def arp_start_def insert_commute)
  show "packet_at (pheap example_arp) 1 example_xs" 
    using keeps_packet [OF new(2) _ example_packet(1)] by (simp add: example_arp_def arp_start_def)
  show "pbufs (pheap example_arp) 20 = Some example_reply" by (simp add: example_arp_def arp_start_def)
qed

lemma example_no_entry: "\<not> matches (Some ip) e" if "e \<in> set (arp_table example_arp)"
  using that by (simp add: example_arp_def arp_start_def empty_entry_def matches_def occupied_def split: if_splits)

text \<open>C36: looking up an address never fails under the invariant and keeps it. The entry of the address
  is returned if there is one. Otherwise, unless the caller only wants to find it or the table is full
  and must not be recycled, the first empty entry is taken, or if there is none the oldest stable entry,
  or if there is none the oldest pending entry without a packet, or else the oldest with one.\<close>

theorem etharp_find_entry_spec:
  assumes "arp_good P s"
  shows "\<exists>r t. etharp_find_entry (Some ip) fl s = Some (r, t) \<and> arp_good P t \<and> sent t = sent s \<and> keeps P (pheap s) (pheap t) \<and>
    (if \<exists>e \<in> set (arp_table s). matches (Some ip) e
     then t = s \<and> (\<exists>i < ARP_TABLE_SIZE. r = Inr i \<and> matches (Some ip) (arp_table s ! i))
     else if fl AND ETHARP_FLAG_FIND_ONLY \<noteq> 0 \<or> (\<forall>e \<in> set (arp_table s). occupied e) \<and> fl AND ETHARP_FLAG_TRY_HARD = 0
     then t = s \<and> r = Inl ERR_MEM
     else \<exists>i e. r = Inr i \<and> victim (arp_table s) i \<and> arp_table t = (arp_table s)[i := e] \<and> new_entry ip e)"
  using assms by (rule find_entry_total)

theorem etharp_find_entry_spec_witness:
  "\<exists>i t. etharp_find_entry (Some (IP4_ADDR 10 0 0 7)) ETHARP_FLAG_TRY_HARD example_arp = Some (Inr i, t) \<and>
    victim (arp_table example_arp) i \<and> arp_ip (arp_table t ! i) = IP4_ADDR 10 0 0 7"
proof -
  have n: "\<not> (\<exists>e \<in> set (arp_table example_arp). matches (Some (IP4_ADDR 10 0 0 7)) e)" using example_no_entry by blast
  have fl: "ETHARP_FLAG_TRY_HARD AND ETHARP_FLAG_FIND_ONLY = 0" "ETHARP_FLAG_TRY_HARD AND ETHARP_FLAG_TRY_HARD \<noteq> 0"
    by (simp_all add: ETHARP_FLAG_TRY_HARD_def ETHARP_FLAG_FIND_ONLY_def)
  obtain i t e where "etharp_find_entry (Some (IP4_ADDR 10 0 0 7)) ETHARP_FLAG_TRY_HARD example_arp = Some (Inr i, t)"
    "victim (arp_table example_arp) i" "arp_table t = (arp_table example_arp)[i := e]" "new_entry (IP4_ADDR 10 0 0 7) e"
    using etharp_find_entry_spec [OF example_arp_good(1), of "IP4_ADDR 10 0 0 7" ETHARP_FLAG_TRY_HARD] n fl by auto
  moreover from this(2) have "i < length (arp_table example_arp)" by (simp add: victim_def)
  ultimately show ?thesis by (intro exI [of _ i] exI [of _ t]) (simp add: new_entry_def)
qed

theorem etharp_input_learns_witness:
  "\<exists>t i. etharp_input example_lan 20 (Some 0) example_arp = Some t \<and>
    etharp_find_addr (IP4_ADDR 10 0 0 7) t = Some (Some (i, example_mac, IP4_ADDR 10 0 0 7), t)"
proof -
  have "ip_addr example_netif \<noteq> IPADDR_ANY \<and> IP4_ADDR 10 0 0 1 = ip_addr example_netif" by code_simp
  then show ?thesis
    using etharp_input_learns [OF example_arp_good(1) _ example_lan_ok(1) example_arp_good(3) example_reply_ok example_lan_ok(2)
        example_lan_ok(3) [symmetric], of True] by blast
qed

lemma example_query_ok:
  "case etharp_query example_lan 0 (IP4_ADDR 10 0 0 7) (Some 1) example_arp of None \<Rightarrow> False | Some (r, t) \<Rightarrow> r = ERR_OK"
  by code_simp

theorem arp_resolution_witness:
  "\<exists>t u l. etharp_query example_lan 0 (IP4_ADDR 10 0 0 7) (Some 1) example_arp = Some (ERR_OK, t) \<and>
    etharp_input example_lan 20 (Some 0) t = Some u \<and> sent u = sent example_arp @ l \<and>
    delivered 0 (eth_hdr example_mac (hwaddr example_netif) (lwip_htons ETHTYPE_IP) @ [10, 11, 12, 13, 14]) l"
proof -
  obtain b xs where xs: "example_xs = (1, b) # xs" by (simp add: example_xs_def)
  have bs: "b # map snd xs = map snd example_xs" unfolding xs by simp
  have "sendable (b # map snd xs)" "content (b # map snd xs) = [10, 11, 12, 13, 14]"
    using example_packet(2) example_chain(5) unfolding bs by simp_all
  then show ?thesis
    using arp_resolution [OF example_arp_good(1) _ _ example_lan_ok(1,2) example_arp_good(2) [unfolded xs] _ _ example_arp_good(3)
        example_reply_ok] example_no_entry example_lan_ok(3) example_query_ok
    by fastforce
qed

section \<open>Expiry\<close>

text \<open>What a second does to an entry.\<close>

definition expires :: "etharp_entry \<Rightarrow> bool" where
  "expires e \<longleftrightarrow> ARP_MAXAGE \<le> ctime e + 1 \<or> arp_state e = ETHARP_STATE_PENDING \<and> ARP_MAXPENDING \<le> ctime e + 1"

fun next_state :: "etharp_state \<Rightarrow> etharp_state" where
  "next_state ETHARP_STATE_STABLE_REREQUESTING_1 = ETHARP_STATE_STABLE_REREQUESTING_2"
| "next_state ETHARP_STATE_STABLE_REREQUESTING_2 = ETHARP_STATE_STABLE"
| "next_state st = st"

definition aged :: "etharp_entry \<Rightarrow> etharp_entry" where
  "aged e = (if \<not> occupied e then e else if expires e then empty_entry
     else e\<lparr>ctime := ctime e + 1, arp_state := next_state (arp_state e)\<rparr>)"

lemma keep_state: "arp_state e = st \<Longrightarrow> e\<lparr>ctime := c, arp_state := st\<rparr> = e\<lparr>ctime := c\<rparr>"
  by (cases e) simp

lemma free_entry_overwritten:
  assumes "i < length (arp_table s)" "arp_q e = arp_q (arp_table s ! i)"
  shows "etharp_free_entry i (table_set i e s) = etharp_free_entry i s"
proof (cases "arp_q e")
  case None
  then show ?thesis using assms by (simp add: etharp_free_entry_def table_get_def)
next
  case (Some q)
  then show ?thesis using assms
    by (cases "pbuf_free (Some q) (pheap s)") (auto simp: etharp_free_entry_def table_get_def free_pbuf_def)
qed

lemma aged_good:
  assumes "arp_good P s" "i < ARP_TABLE_SIZE" "occupied (arp_table s ! i)" "\<not> expires (arp_table s ! i)"
  shows "arp_good P (table_set i (aged (arp_table s ! i)) s)"
proof -
  note g = arp_goodD [OF assms(1)]
  let ?e = "arp_table s ! i"
  have i: "i < length (arp_table s)" using assms(2) g(5) by simp
  have ok: "entry_ok ?e" using arp_inv_nth [OF g(1) i] .
  have a: "aged ?e = ?e\<lparr>ctime := ctime ?e + 1, arp_state := next_state (arp_state ?e)\<rparr>" using assms(3,4) by (simp add: aged_def)
  have q: "arp_q (aged ?e) = arp_q ?e" by (simp add: a)
  have "table_ok ((arp_table s)[i := aged ?e])"
  proof (rule table_ok_set)
    show "table_ok (arp_table s)" using g(1) by (simp add: arp_inv_def)
    show "entry_ok (aged ?e)" using ok assms(3,4) unfolding a
      by (cases "arp_state ?e") (auto simp: entry_ok_def expires_def occupied_def not_le)
    fix j assume "j < length (arp_table s)" "j \<noteq> i" "occupied (arp_table s ! j)"
    then show "arp_ip (arp_table s ! j) \<noteq> arp_ip (aged ?e)"
      using g(1) i assms(3) unfolding a arp_inv_def table_ok_def unique_ips_def by auto
  qed
  moreover have "queues ((arp_table s)[i := aged ?e]) = queues (arp_table s)" "queues_distinct ((arp_table s)[i := aged ?e])"
    using queues_set [OF g(2) i, of "aged ?e"] queues_distinct_set [OF g(2) i, of "aged ?e"] q queue_in [OF i] by auto
  ultimately show ?thesis using g by (simp add: arp_good_def arp_inv_def)
qed

lemma tmr_entry_total:
  assumes "arp_good P s" "link_ok env" "i < ARP_TABLE_SIZE"
  shows "\<exists>t. tmr_entry env i s = Some t \<and> arp_good P t \<and> keeps P (pheap s) (pheap t) \<and>
    arp_table t = (arp_table s)[i := aged (arp_table s ! i)]"
proof -
  note g = arp_goodD [OF assms(1)]
  let ?e = "arp_table s ! i"
  have i: "i < length (arp_table s)" "table_get i s = Some ?e" using assms(3) g(5) by (simp_all add: table_get_def)
  consider (empty) "\<not> occupied ?e" | (gone) "occupied ?e" "expires ?e" | (stays) "occupied ?e" "\<not> expires ?e" by blast
  then show ?thesis
  proof cases
    case empty
    then have "tmr_entry env i s = Some s" unfolding tmr_entry_def i(2) by (simp add: occupied_def)
    then show ?thesis using assms(1) empty by (intro exI [of _ s]) (simp add: aged_def)
  next
    case gone
    then have "tmr_entry env i s = etharp_free_entry i (table_set i (?e\<lparr>ctime := ctime ?e + 1\<rparr>) s)"
      unfolding tmr_entry_def i(2) by (auto simp: occupied_def expires_def Let_def)
    also have "\<dots> = etharp_free_entry i s" using i(1) by (intro free_entry_overwritten) simp_all
    finally show ?thesis using free_entry_total [OF assms(1,3)] gone by (auto simp: aged_def)
  next
    case stays
    let ?s = "table_set i (aged ?e) s"
    note good = aged_good [OF assms(1,3) stays]
    show ?thesis
    proof (cases "arp_state ?e = ETHARP_STATE_PENDING")
      case True
      have a: "aged ?e = ?e\<lparr>ctime := ctime ?e + 1\<rparr>" using stays True by (simp add: aged_def)
      obtain ni where ni: "arp_netif ?e = Some ni" using arp_inv_nth [OF g(1) i(1)] stays(1) by (auto simp: entry_ok_def)
      obtain r t where t: "etharp_request env ni (arp_ip ?e) ?s = Some (r, t)" "arp_kept (queues (arp_table ?s) \<union> P) ?s t"
        using etharp_request_total [OF arp_goodD(4) [OF good] assms(2), of ethbroadcast ni "arp_ip ?e"]
        by (auto simp: etharp_request_def ethbroadcast_def)
      have "tmr_entry env i s = Some t"
        unfolding tmr_entry_def i(2) using stays True ni t(1) unfolding a expires_def by (simp add: Let_def)
      then show ?thesis using arp_good_kept [OF good t(2)] t(2) by (simp add: arp_kept_def)
    next
      case False
      have "tmr_entry env i s = Some ?s"
        unfolding tmr_entry_def i(2) using stays False unfolding aged_def expires_def occupied_def
        by (cases "arp_state ?e") (simp_all add: Let_def keep_state)
      then show ?thesis using good by simp
    qed
  qed
qed

lemma for_entries_aged:
  assumes "arp_good P s" "link_ok env" "n + length is = ARP_TABLE_SIZE" "is = [n..<ARP_TABLE_SIZE]"
  shows "\<exists>t. for_entries (tmr_entry env) is s = Some t \<and> arp_good P t \<and> keeps P (pheap s) (pheap t) \<and>
    arp_table t = take n (arp_table s) @ map aged (drop n (arp_table s))"
  using assms
proof (induction "is" arbitrary: s n)
  case Nil
  then show ?case using arp_goodD(5) [OF Nil.prems(1)] by simp
next
  case (Cons i "is")
  have i: "i = n" "n < ARP_TABLE_SIZE" "is = [Suc n..<ARP_TABLE_SIZE]" using Cons.prems(4) upt_eq_Cons_conv [of n ARP_TABLE_SIZE i "is"] by auto
  obtain u where u: "tmr_entry env n s = Some u" "arp_good P u" "keeps P (pheap s) (pheap u)"
    "arp_table u = (arp_table s)[n := aged (arp_table s ! n)]" using tmr_entry_total [OF Cons.prems(1,2) i(2)] by blast
  obtain t where t: "for_entries (tmr_entry env) is u = Some t" "arp_good P t" "keeps P (pheap u) (pheap t)"
    "arp_table t = take (Suc n) (arp_table u) @ map aged (drop (Suc n) (arp_table u))"
    using Cons.IH [OF u(2) Cons.prems(2), of "Suc n"] Cons.prems(3) i(3) by auto
  have n: "n < length (arp_table s)" using i(2) arp_goodD(5) [OF Cons.prems(1)] by simp
  have "arp_table t = take n (arp_table s) @ map aged (drop n (arp_table s))"
    unfolding t(4) u(4) using n by (simp add: take_Suc_conv_app_nth Cons_nth_drop_Suc [symmetric])
  then show ?case using t(1,2) u(1) i(1) keeps_trans [OF u(3) t(3)] by simp
qed

lemma etharp_tmr_total:
  assumes "arp_good P s" "link_ok env"
  shows "\<exists>t. etharp_tmr env s = Some t \<and> arp_good P t \<and> keeps P (pheap s) (pheap t) \<and> arp_table t = map aged (arp_table s)"
  using for_entries_aged [OF assms, of 0 "[0..<ARP_TABLE_SIZE]"] by (simp add: etharp_tmr_def)

text \<open>\<open>n\<close> seconds without traffic.\<close>

primrec ticks :: "link_env \<Rightarrow> nat \<Rightarrow> 'a arp_scheme \<Rightarrow> 'a arp_scheme option" where
  "ticks env 0 s = Some s"
| "ticks env (Suc n) s = do { s \<leftarrow> etharp_tmr env s; ticks env n s }"

lemma ticks_total:
  assumes "arp_good P s" "link_ok env"
  shows "\<exists>t. ticks env n s = Some t \<and> arp_good P t \<and> keeps P (pheap s) (pheap t) \<and> arp_table t = map (aged ^^ n) (arp_table s)"
  using assms(1)
proof (induction n arbitrary: s)
  case (Suc n)
  obtain u where u: "etharp_tmr env s = Some u" "arp_good P u" "keeps P (pheap s) (pheap u)" "arp_table u = map aged (arp_table s)"
    using etharp_tmr_total [OF Suc.prems assms(2)] by blast
  obtain t where t: "ticks env n u = Some t" "arp_good P t" "keeps P (pheap u) (pheap t)" "arp_table t = map (aged ^^ n) (arp_table u)"
    using Suc.IH [OF u(2)] by blast
  have "arp_table t = map (aged ^^ Suc n) (arp_table s)" unfolding t(4) u(4) by (simp add: funpow_swap1)
  then show ?case using u(1) t(1,2) keeps_trans [OF u(3) t(3)] by simp
qed simp

text \<open>The seconds an entry has left.\<close>

definition lifetime :: "etharp_entry \<Rightarrow> nat" where
  "lifetime e = (if \<not> occupied e then 0
     else unat (if arp_state e = ETHARP_STATE_PENDING then ARP_MAXPENDING else ARP_MAXAGE) - unat (ctime e))"

lemma aged_lifetime:
  assumes "entry_ok e"
  shows "lifetime (aged e) = lifetime e - 1 \<and> entry_ok (aged e) \<and> (\<not> occupied e \<longrightarrow> \<not> occupied (aged e))"
proof -
  let ?m = "if arp_state e = ETHARP_STATE_PENDING then ARP_MAXPENDING else ARP_MAXAGE"
  have c: "unat (ctime e + 1) = unat (ctime e) + 1" if "occupied e"
    using that assms by (auto simp: entry_ok_def word_less_nat_alt ARP_MAXAGE_def intro!: unat_add_u16 [of _ 1, simplified])
  show ?thesis
  proof (cases "arp_state e")
    case ETHARP_STATE_EMPTY
    then show ?thesis using assms by (simp add: aged_def lifetime_def occupied_def)
  qed (use c assms in \<open>auto simp: aged_def lifetime_def expires_def occupied_def entry_ok_def empty_entry_def ethzero_def
      word_le_nat_alt word_less_nat_alt ARP_MAXAGE_def ARP_MAXPENDING_def\<close>)
qed

lemma aged_gone: "entry_ok e \<Longrightarrow> lifetime e \<le> n \<Longrightarrow> \<not> occupied ((aged ^^ n) e)"
proof (induction n arbitrary: e)
  case 0
  then show ?case by (auto simp: lifetime_def entry_ok_def word_less_nat_alt split: if_splits)
next
  case (Suc n)
  then show ?case using aged_lifetime [OF Suc.prems(1)] Suc.IH [of "aged e"] by (simp add: funpow_swap1)
qed

text \<open>C35: entries expire. Ticks of the timer never fail; after five of them no address that was pending
  is still in the table, and after 300 the table is empty, whatever it held; the packets of the rest
  of the stack stay as they are.\<close>

theorem arp_entries_expire:
  assumes "arp_good P s" "link_ok env"
  shows "\<exists>t. ticks env n s = Some t \<and> arp_good P t \<and> keeps P (pheap s) (pheap t) \<and>
    (5 \<le> n \<longrightarrow> (\<forall>i < ARP_TABLE_SIZE. arp_state (arp_table s ! i) = ETHARP_STATE_PENDING \<longrightarrow> \<not> occupied (arp_table t ! i))) \<and>
    (300 \<le> n \<longrightarrow> (\<forall>e \<in> set (arp_table t). \<not> occupied e))"
proof -
  note g = arp_goodD [OF assms(1)]
  obtain t where t: "ticks env n s = Some t" "arp_good P t" "keeps P (pheap s) (pheap t)" "arp_table t = map (aged ^^ n) (arp_table s)"
    using ticks_total [OF assms] by blast
  have ok: "entry_ok e" if "e \<in> set (arp_table s)" for e using g(1) that by (simp add: arp_inv_def table_ok_def)
  have "\<not> occupied (arp_table t ! i)" if "5 \<le> n" "i < ARP_TABLE_SIZE" "arp_state (arp_table s ! i) = ETHARP_STATE_PENDING" for i
    unfolding t(4) using that g(5) ok by (simp, intro aged_gone) (auto simp: lifetime_def ARP_MAXPENDING_def)
  moreover have "\<not> occupied e" if e: "300 \<le> n" "e \<in> set (arp_table t)" for e
  proof -
    obtain d where d: "d \<in> set (arp_table s)" "e = (aged ^^ n) d" using e(2) unfolding t(4) by auto
    have "lifetime d \<le> n" using e(1) by (auto simp: lifetime_def ARP_MAXAGE_def ARP_MAXPENDING_def)
    then show ?thesis using aged_gone [OF ok [OF d(1)]] d(2) by simp
  qed
  ultimately show ?thesis using t(1-3) by blast
qed

lemma example_waits:
  "case etharp_query example_lan 0 (IP4_ADDR 10 0 0 7) (Some 1) example_arp of
     None \<Rightarrow> False | Some (r, t) \<Rightarrow> arp_state (arp_table t ! 0) = ETHARP_STATE_PENDING \<and> arp_q (arp_table t ! 0) \<noteq> None"
  by code_simp

lemma example_waits_good:
  obtains r t where "etharp_query example_lan 0 (IP4_ADDR 10 0 0 7) (Some 1) example_arp = Some (r, t)" "arp_good {1, 20} t"
    "arp_state (arp_table t ! 0) = ETHARP_STATE_PENDING" "arp_q (arp_table t ! 0) \<noteq> None"
proof -
  obtain b xs where xs: "example_xs = (1, b) # xs" by (simp add: example_xs_def)
  have "sendable (b # map snd xs)" using example_packet(2) unfolding xs by simp
  moreover have "\<forall>e \<in> set (arp_table example_arp). matches (Some (IP4_ADDR 10 0 0 7)) e \<longrightarrow> \<not> stable (arp_state e)"
    using example_no_entry by blast
  ultimately obtain r t where "etharp_query example_lan 0 (IP4_ADDR 10 0 0 7) (Some 1) example_arp = Some (r, t)" "arp_good {1, 20} t"
    using query_total [OF example_arp_good(1) _ example_lan_ok(1,2) example_arp_good(2) [unfolded xs]] by blast
  then show thesis using that example_waits by auto
qed

theorem arp_entries_expire_witness:
  "\<exists>s t u. etharp_query example_lan 0 (IP4_ADDR 10 0 0 7) (Some 1) example_arp = Some (ERR_OK, s) \<and>
    arp_state (arp_table s ! 0) = ETHARP_STATE_PENDING \<and> arp_q (arp_table s ! 0) \<noteq> None \<and>
    ticks example_lan 5 s = Some t \<and> \<not> occupied (arp_table t ! 0) \<and>
    ticks example_lan 300 s = Some u \<and> (\<forall>e \<in> set (arp_table u). \<not> occupied e)"
proof -
  obtain r s where s: "etharp_query example_lan 0 (IP4_ADDR 10 0 0 7) (Some 1) example_arp = Some (r, s)" "arp_good {1, 20} s"
    "arp_state (arp_table s ! 0) = ETHARP_STATE_PENDING" "arp_q (arp_table s ! 0) \<noteq> None" by (rule example_waits_good)
  have "r = ERR_OK" using example_query_ok s(1) by simp
  moreover obtain t where "ticks example_lan 5 s = Some t" "\<not> occupied (arp_table t ! 0)"
    using arp_entries_expire [OF s(2) example_lan_ok(1), of 5] s(3) by (auto simp: ARP_TABLE_SIZE_def)
  moreover obtain u where "ticks example_lan 300 s = Some u" "\<forall>e \<in> set (arp_table u). \<not> occupied e"
    using arp_entries_expire [OF s(2) example_lan_ok(1), of 300] by auto
  ultimately show ?thesis using s by blast
qed

end
