(* ===== verification/LinkOutput.thy ===== *)
theory LinkOutput
  imports Resolve
begin

text \<open>
  Total correctness of the sending side of address resolution
  (\<^verbatim>\<open>src/server_dir/lwip/src/core/ipv4/etharp.c\<close>): \<^verbatim>\<open>etharp_output\<close> never fails on a packet of the
  caller, leaves the other packets alone, and a packet to an address whose hardware address is known
  goes out in a frame to it.
\<close>

section \<open>Output of IP packets\<close>

lemma goes_outI:
  assumes "sent t = sent s @ l"
    "\<And>b xs. packet_at h q ((q, b) # xs) \<Longrightarrow> has_room b \<Longrightarrow> unat (len b) + 14 < 65536 \<Longrightarrow>
       delivered ni (hdr @ content (b # map snd xs)) l"
  shows "goes_out ni hdr q h s t"
  using assms unfolding goes_out_def by blast

lemma goes_out_after:
  assumes "goes_out ni hdr q h1 s1 t" "sent s1 = sent s @ l" "keeps P h h1" "q \<in> P"
  shows "goes_out ni hdr q h s t"
proof -
  obtain l1 where l1: "sent t = sent s1 @ l1"
    "\<forall>b xs. packet_at h1 q ((q, b) # xs) \<longrightarrow> has_room b \<longrightarrow> unat (len b) + 14 < 65536 \<longrightarrow> delivered ni (hdr @ content (b # map snd xs)) l1"
    using assms(1) unfolding goes_out_def by blast
  show ?thesis
    using l1 assms(2) keeps_packet [OF assms(3,4)] by (intro goes_outI [where l = "l @ l1"]) simp_all
qed

lemma eth_send_total:
  assumes "arp_good P s" "q \<in> P" "link_ok env" "length src = 6" "length dst = 6"
  shows "\<exists>r t. ethernet_output env ni q src dst ty s = Some (r, t) \<and> arp_good P t \<and> keeps (P - {q}) (pheap s) (pheap t) \<and>
    goes_out ni (eth_hdr dst src (lwip_htons ty)) q (pheap s) s t"
proof -
  note g = arp_goodD [OF assms(1)]
  let ?Q = "queues (arp_table s) \<union> P"
  have q: "q \<in> ?Q" using assms(2) by simp
  obtain b xs where b: "packet_at (pheap s) q ((q, b) # xs)" using ownsD [OF g(4) q] packet_at_Cons by blast
  obtain r t where t: "ethernet_output env ni q src dst ty s = Some (r, t)" "arp_table t = arp_table s"
    "etharp_cached_entry t = etharp_cached_entry s" "owns (pheap t) ?Q" "keeps (?Q - {q}) (pheap s) (pheap t)"
    "sent t = sent s @ (if has_room b then [(ni, q, pheap t)] else [])"
    "has_room b \<longrightarrow> unat (len b) + 14 < 65536 \<longrightarrow> frame (pheap t) q (eth_hdr dst src (lwip_htons ty) @ content (b # map snd xs))"
    using ethernet_output_total [OF g(4) q b assms(3-5), of ni ty] by (auto split: if_splits)
  have "arp_good P t" using g t(2-4) by (simp add: arp_good_def arp_inv_def)
  moreover have "keeps (P - {q}) (pheap s) (pheap t)" using t(5) by (rule keeps_mono) blast
  moreover have "goes_out ni (eth_hdr dst src (lwip_htons ty)) q (pheap s) s t"
  proof (rule goes_outI [OF t(6)])
    fix b' xs' assume a: "packet_at (pheap s) q ((q, b') # xs')" "has_room b'" "unat (len b') + 14 < 65536"
    then have "(q, b') # xs' = (q, b) # xs" using b chain_unique by (auto simp: packet_at_def)
    then show "delivered ni (eth_hdr dst src (lwip_htons ty) @ content (b' # map snd xs'))
        (if has_room b then [(ni, q, pheap t)] else [])"
      using t(7) a by (auto simp: delivered_def)
  qed
  ultimately show ?thesis using t(1) by blast
qed

lemma set_entry_good:
  assumes "arp_good P s" "i < ARP_TABLE_SIZE" "entry_ok e" "arp_ip e = arp_ip (arp_table s ! i)" "arp_q e = arp_q (arp_table s ! i)"
    and "occupied (arp_table s ! i)"
  shows "arp_good P (table_set i e s)"
proof -
  note g = arp_goodD [OF assms(1)]
  have i: "i < length (arp_table s)" using assms(2) g(5) by simp
  have "table_ok ((arp_table s)[i := e])"
  proof (rule table_ok_set)
    show "table_ok (arp_table s)" using g(1) by (simp add: arp_inv_def)
    show "entry_ok e" by fact
    fix j assume "j < length (arp_table s)" "j \<noteq> i" "occupied (arp_table s ! j)"
    then show "arp_ip (arp_table s ! j) \<noteq> arp_ip e"
      using g(1) i assms(4,6) unfolding arp_inv_def table_ok_def unique_ips_def by auto
  qed
  moreover have "queues ((arp_table s)[i := e]) = queues (arp_table s)" "queues_distinct ((arp_table s)[i := e])"
    using queues_set [OF g(2) i, of e] queues_distinct_set [OF g(2) i, of e] assms(5) queue_in [OF i] by auto
  ultimately show ?thesis using g by (simp add: arp_good_def arp_inv_def)
qed

lemma request_good:
  assumes "arp_good P s" "link_ok env" "length dst = 6"
  shows "\<exists>r t l. etharp_request_dst env ni ip dst s = Some (r, t) \<and> arp_good P t \<and> keeps P (pheap s) (pheap t) \<and>
    arp_table t = arp_table s \<and> sent t = sent s @ l"
proof -
  obtain r t where t: "etharp_request_dst env ni ip dst s = Some (r, t)" "arp_kept (queues (arp_table s) \<union> P) s t"
    "arp_sent env ni (request_frame env ni dst ip) s r t"
    using etharp_request_total [OF arp_goodD(4) [OF assms(1)] assms(2,3)] by blast
  have "\<exists>l. sent t = sent s @ l" using t(3) by (auto simp: arp_sent_def split: if_splits)
  then show ?thesis using t(1,2) arp_good_kept [OF assms(1) t(2)] by (auto simp: arp_kept_def)
qed

lemma request_step:
  assumes "arp_good P s" "link_ok env" "length dst = 6" "i < ARP_TABLE_SIZE" "arp_state (arp_table s ! i) = ETHARP_STATE_STABLE"
  shows "\<exists>t l. do { (r, t) \<leftarrow> etharp_request_dst env ni ip dst s;
      Some (if r = ERR_OK then table_set i ((arp_table s ! i)\<lparr>arp_state := ETHARP_STATE_STABLE_REREQUESTING_1\<rparr>) t else t) } = Some t \<and>
    arp_good P t \<and> keeps P (pheap s) (pheap t) \<and> sent t = sent s @ l"
proof -
  let ?e = "(arp_table s ! i)\<lparr>arp_state := ETHARP_STATE_STABLE_REREQUESTING_1\<rparr>"
  obtain r t l where t: "etharp_request_dst env ni ip dst s = Some (r, t)" "arp_good P t" "keeps P (pheap s) (pheap t)"
    "arp_table t = arp_table s" "sent t = sent s @ l" using request_good [OF assms(1-3)] by blast
  have "entry_ok (arp_table s ! i)" using arp_inv_nth [OF arp_goodD(1)] assms(1,4) arp_goodD(5) [OF assms(1)] by metis
  then have "arp_good P (table_set i ?e t)"
    using assms(5) t(4) by (intro set_entry_good [OF t(2) assms(4)]) (auto simp: entry_ok_def occupied_def)
  then show ?thesis using t by auto
qed

lemma output_index_total:
  assumes "arp_good P s" "q \<in> P" "link_ok env" "i < ARP_TABLE_SIZE" "stable (arp_state (arp_table s ! i))"
  shows "\<exists>r t. etharp_output_to_arp_index env ni q i s = Some (r, t) \<and> arp_good P t \<and> keeps (P - {q}) (pheap s) (pheap t) \<and>
    goes_out ni (eth_hdr (ethaddr (arp_table s ! i)) (hwaddr (netif_of env ni)) (lwip_htons ETHTYPE_IP)) q (pheap s) s t"
proof -
  note g = arp_goodD [OF assms(1)]
  let ?e = "arp_table s ! i" and ?hw = "hwaddr (netif_of env ni)"
  have i: "table_get i s = Some ?e" "i < length (arp_table s)" using assms(4) g(5) by (simp_all add: table_get_def)
  have l6: "length (ethaddr ?e) = 6" using arp_inv_nth [OF g(1) i(2)] by (simp add: entry_ok_def)
  have bc: "length ethbroadcast = 6" by (simp add: ethbroadcast_def)
  let ?req = "\<lambda>dst. do { (r, t) \<leftarrow> etharp_request_dst env ni (arp_ip ?e) dst s;
      Some (if r = ERR_OK then table_set i (?e\<lparr>arp_state := ETHARP_STATE_STABLE_REREQUESTING_1\<rparr>) t else t) }"
  let ?pre = "if arp_state ?e = ETHARP_STATE_STABLE then
      if ARP_AGE_REREQUEST_USED_BROADCAST \<le> ctime ?e then ?req ethbroadcast
      else if ARP_AGE_REREQUEST_USED_UNICAST \<le> ctime ?e then ?req (ethaddr ?e) else Some s
    else Some s"
  have eq: "etharp_output_to_arp_index env ni q i s = do { s \<leftarrow> ?pre; ethernet_output env ni q ?hw (ethaddr ?e) ETHTYPE_IP s }"
    unfolding etharp_output_to_arp_index_def i(1) etharp_request_def using assms(5) by simp
  have "\<exists>u l. ?pre = Some u \<and> arp_good P u \<and> keeps P (pheap s) (pheap u) \<and> sent u = sent s @ l"
    using request_step [OF assms(1,3) bc assms(4), of ni "arp_ip ?e"] request_step [OF assms(1,3) l6 assms(4), of ni "arp_ip ?e"] assms(1)
    by (auto intro: exI [of _ s] exI [of _ "[]"])
  then obtain u l where u: "?pre = Some u" "arp_good P u" "keeps P (pheap s) (pheap u)" "sent u = sent s @ l" by blast
  obtain r t where t: "ethernet_output env ni q ?hw (ethaddr ?e) ETHTYPE_IP u = Some (r, t)" "arp_good P t"
    "keeps (P - {q}) (pheap u) (pheap t)" "goes_out ni (eth_hdr (ethaddr ?e) ?hw (lwip_htons ETHTYPE_IP)) q (pheap u) u t"
    using eth_send_total [OF u(2) assms(2,3) link_okD(2) [OF assms(3)] l6] by blast
  have "keeps (P - {q}) (pheap s) (pheap t)" using keeps_trans [OF keeps_mono [OF u(3)] t(3)] by blast
  then show ?thesis using eq u(1) t(1,2) goes_out_after [OF t(4) u(4,3) assms(2)] by (simp del: etharp_request_def)
qed

text \<open>The table knows the hardware address \<open>mac\<close> of \<open>ip\<close>.\<close>

definition resolved :: "u32 \<Rightarrow> bytes \<Rightarrow> 'a arp_scheme \<Rightarrow> bool" where
  "resolved ip mac s \<longleftrightarrow> (\<exists>e \<in> set (arp_table s). stable (arp_state e) \<and> arp_ip e = ip \<and> ethaddr e = mac)"

lemma resolved_entry:
  assumes "resolved ip mac s" "arp_inv s" "i < ARP_TABLE_SIZE" "stable (arp_state (arp_table s ! i))" "arp_ip (arp_table s ! i) = ip"
  shows "ethaddr (arp_table s ! i) = mac"
proof -
  obtain e where e: "e \<in> set (arp_table s)" "stable (arp_state e)" "arp_ip e = ip" "ethaddr e = mac"
    using assms(1) by (auto simp: resolved_def)
  have m: "matches (Some ip) e" "matches (Some ip) (arp_table s ! i)" using e assms(4,5) by (auto simp: matches_def occupied_def)
  show ?thesis using matches_unique [OF assms(2) e(1) m(1) assms(3) m(2)] e(4) by simp
qed

lemma find_stable_None: "find_stable ip es k = None \<Longrightarrow> e \<in> set es \<Longrightarrow> stable (arp_state e) \<Longrightarrow> arp_ip e \<noteq> ip"
  by (induction es arbitrary: k) (auto split: if_splits)

lemma cached_good: "arp_good P s \<Longrightarrow> i < ARP_TABLE_SIZE \<Longrightarrow> arp_good P (s\<lparr>etharp_cached_entry := i\<rparr>)"
  by (auto simp: arp_good_def intro: arp_inv_cached)

lemma output_unicast_total:
  assumes "arp_good P s" "q \<in> P" "link_ok env" "packet_at (pheap s) q ((q, b) # xs)" "sendable (b # map snd xs)"
  shows "\<exists>r t. output_unicast env ni q dst s = Some (r, t) \<and> arp_good P t \<and> keeps (P - {q}) (pheap s) (pheap t) \<and>
    (\<exists>l. sent t = sent s @ l) \<and>
    (\<forall>mac. resolved dst mac s \<longrightarrow> goes_out ni (eth_hdr mac (hwaddr (netif_of env ni)) (lwip_htons ETHTYPE_IP)) q (pheap s) s t)"
proof -
  note g = arp_goodD [OF assms(1)]
  let ?c = "etharp_cached_entry s"
  have c: "?c < ARP_TABLE_SIZE" "table_get ?c s = Some (arp_table s ! ?c)" using g(1,5) by (simp_all add: arp_inv_def table_get_def)
  have idx: "\<exists>r t. etharp_output_to_arp_index env ni q i u = Some (r, t) \<and> arp_good P t \<and> keeps (P - {q}) (pheap s) (pheap t) \<and>
    (\<exists>l. sent t = sent s @ l) \<and>
    (\<forall>mac. resolved dst mac s \<longrightarrow> goes_out ni (eth_hdr mac (hwaddr (netif_of env ni)) (lwip_htons ETHTYPE_IP)) q (pheap s) s t)"
    if u: "u = s\<lparr>etharp_cached_entry := k\<rparr>" "k < ARP_TABLE_SIZE" "i < ARP_TABLE_SIZE" "stable (arp_state (arp_table s ! i))"
      "arp_ip (arp_table s ! i) = dst" for u k i
  proof -
    have "arp_good P u" using cached_good [OF assms(1) u(2)] u(1) by simp
    then obtain r t where t: "etharp_output_to_arp_index env ni q i u = Some (r, t)" "arp_good P t" "keeps (P - {q}) (pheap s) (pheap t)"
      "goes_out ni (eth_hdr (ethaddr (arp_table s ! i)) (hwaddr (netif_of env ni)) (lwip_htons ETHTYPE_IP)) q (pheap s) s t"
      using output_index_total [of P u q env i ni] assms(2,3) u by (auto simp: goes_out_def)
    show ?thesis using t resolved_entry [OF _ g(1) u(3-5)] by (fastforce simp: goes_out_def)
  qed
  show ?thesis
  proof (cases "stable (arp_state (arp_table s ! ?c)) \<and> dst = arp_ip (arp_table s ! ?c)")
    case True
    then have "output_unicast env ni q dst s = etharp_output_to_arp_index env ni q ?c s"
      unfolding output_unicast_def c(2) by simp
    then show ?thesis using idx [of s ?c ?c] True c(1) by simp
  next
    case False
    show ?thesis
    proof (cases "find_stable dst (arp_table s) 0")
      case (Some i)
      then have "output_unicast env ni q dst s = etharp_output_to_arp_index env ni q i (s\<lparr>etharp_cached_entry := i\<rparr>)"
        unfolding output_unicast_def c(2) using False by auto
      then show ?thesis using idx [OF refl, of i i] find_stable_Some [OF Some] g(5) by simp
    next
      case None
      have eq: "output_unicast env ni q dst s = etharp_query env ni dst (Some q) s"
        unfolding output_unicast_def c(2) using False None by auto
      have nr: "\<not> resolved dst mac s" for mac using find_stable_None [OF None] by (auto simp: resolved_def)
      show ?thesis
      proof (cases "unicast env ni dst")
        case True
        have ns: "\<forall>e \<in> set (arp_table s). matches (Some dst) e \<longrightarrow> \<not> stable (arp_state e)"
          using find_stable_None [OF None] by (auto simp: matches_def)
        obtain r t l where "etharp_query env ni dst (Some q) s = Some (r, t)" "arp_good P t" "keeps P (pheap s) (pheap t)" "sent t = sent s @ l"
          using query_total [OF assms(1-3) True assms(4,5) ns] by blast
        then show ?thesis using eq nr keeps_mono [of P "pheap s" "pheap t" "P - {q}"] by auto
      next
        case False
        then have "etharp_query env ni dst (Some q) s = Some (ERR_ARG, s)" by (auto simp: etharp_query_def unicast_def Let_def)
        then show ?thesis using eq nr assms(1) by simp
      qed
    qed
  qed
qed

text \<open>The address that the packet is sent to on the link.\<close>

definition next_hop :: "netif \<Rightarrow> u32 \<Rightarrow> u32" where
  "next_hop n ip = (if ip4_addr_netcmp ip (ip_addr n) (netmask n) \<or> ip4_addr_islinklocal ip then ip else gw n)"

lemma etharp_output_total:
  assumes "arp_good P s" "q \<in> P" "link_ok env" "packet_at (pheap s) q ((q, b) # xs)" "sendable (b # map snd xs)"
  shows "\<exists>r t. etharp_output env ni q ip s = Some (r, t) \<and> arp_good P t \<and> keeps (P - {q}) (pheap s) (pheap t) \<and>
    (\<exists>l. sent t = sent s @ l) \<and>
    (\<forall>mac. unicast env ni ip \<and> next_hop (netif_of env ni) ip \<noteq> IPADDR_ANY \<and> resolved (next_hop (netif_of env ni) ip) mac s \<longrightarrow>
       goes_out ni (eth_hdr mac (hwaddr (netif_of env ni)) (lwip_htons ETHTYPE_IP)) q (pheap s) s t)"
proof -
  let ?n = "netif_of env ni"
  have six: "length ethbroadcast = 6" "length (multicast_mac ip) = 6" "length (hwaddr ?n) = 6"
    using link_okD(2) [OF assms(3)] by (simp_all add: ethbroadcast_def multicast_mac_def Let_def)
  consider (bc) "ip4_addr_isbroadcast ip ?n" | (mc) "\<not> ip4_addr_isbroadcast ip ?n" "ip4_addr_ismulticast ip"
    | (uni) "\<not> ip4_addr_isbroadcast ip ?n" "\<not> ip4_addr_ismulticast ip" by blast
  then show ?thesis
  proof cases
    case bc
    then show ?thesis using eth_send_total [OF assms(1-3) six(3,1), of ni ETHTYPE_IP]
      by (auto simp: etharp_output_def Let_def unicast_def goes_out_def)
  next
    case mc
    then show ?thesis using eth_send_total [OF assms(1-3) six(3,2), of ni ETHTYPE_IP]
      by (auto simp: etharp_output_def Let_def unicast_def goes_out_def)
  next
    case uni
    then have eq: "etharp_output env ni q ip s =
        (if \<not> ip4_addr_netcmp ip (ip_addr ?n) (netmask ?n) \<and> \<not> ip4_addr_islinklocal ip \<and> gw ?n = IPADDR_ANY then Some (ERR_RTE, s)
         else output_unicast env ni q (next_hop ?n ip) s)"
      by (auto simp: etharp_output_def Let_def next_hop_def)
    show ?thesis
      using output_unicast_total [OF assms, of ni "next_hop ?n ip"] eq assms(1) by (auto simp: next_hop_def split: if_splits)
  qed
qed

end
