(* ===== verification/Ip4.thy ===== *)
theory Ip4
  imports LinkOutput InetChksum
begin

text \<open>
  The sending side of IPv4 (\<^verbatim>\<open>src/server_dir/lwip/src/core/ipv4/ip4.c\<close>): the choice of the interface
  (\<^verbatim>\<open>ip4_route\<close>) and \<^verbatim>\<open>ip4_output\<close> with the functions it is made of. The state is that of the link layer
  with \<^verbatim>\<open>ip_data\<close> and the identification counter. \<^verbatim>\<open>write_ip_hdr_eq\<close> gives the bytes that are written in
  front of the payload.
\<close>

section \<open>Data\<close>

text \<open>\<^verbatim>\<open>ip_data\<close> and \<^verbatim>\<open>ip_id\<close>; a pointer to a header is a pbuf and an offset in its memory.\<close>

record ip = arp +
  ip_id :: u16
  current_netif :: "nat option"
  current_input_netif :: "nat option"
  current_ip4_header :: "(nat \<times> int) option"
  current_ip_header_tot_len :: u16
  current_iphdr_src :: u32
  current_iphdr_dest :: u32

text \<open>What the IP layer calls: \<^verbatim>\<open>tcp_input\<close>, \<^verbatim>\<open>ip4_reass\<close> and \<^verbatim>\<open>ip4_frag\<close>; \<open>odd_at p\<close> tells whether
  the payload of the pbuf \<open>p\<close> starts at an odd address, which the checksum routine tests.\<close>

record 's ip_env =
  tcp_input :: "nat \<Rightarrow> nat \<Rightarrow> 's \<Rightarrow> 's option"
  ip4_reass :: "nat \<Rightarrow> 's \<Rightarrow> (nat option \<times> 's) option"
  ip4_frag :: "nat \<Rightarrow> nat \<Rightarrow> u32 \<Rightarrow> 's \<Rightarrow> (err_t \<times> 's) option"
  odd_at :: "nat \<Rightarrow> bool"

definition IP_HLEN :: nat where "IP_HLEN = 20"
definition IP_MF :: u16 where "IP_MF = 0x2000"
definition IP_OFFMASK :: u16 where "IP_OFFMASK = 0x1fff"
definition IP_PROTO_ICMP :: u8 where "IP_PROTO_ICMP = 1"
definition IP_PROTO_TCP :: u8 where "IP_PROTO_TCP = 6"
definition NETIF_FLAG_UP :: u8 where "NETIF_FLAG_UP = 0x01"
definition NETIF_FLAG_LINK_UP :: u8 where "NETIF_FLAG_LINK_UP = 0x04"

definition netif_is_up :: "netif \<Rightarrow> bool" where
  "netif_is_up n \<longleftrightarrow> netif_flags n AND NETIF_FLAG_UP \<noteq> 0"

definition netif_is_link_up :: "netif \<Rightarrow> bool" where
  "netif_is_link_up n \<longleftrightarrow> netif_flags n AND NETIF_FLAG_LINK_UP \<noteq> 0"

text \<open>\<^verbatim>\<open>IPH_V\<close> and \<^verbatim>\<open>IPH_HL\<close> of the first byte.\<close>

definition IPH_V :: "u8 \<Rightarrow> u8" where "IPH_V v_hl = drop_bit 4 v_hl"
definition IPH_HL :: "u8 \<Rightarrow> u8" where "IPH_HL v_hl = v_hl AND 0x0f"

definition peek8 :: "nat \<Rightarrow> nat \<Rightarrow> 'a arp_scheme \<Rightarrow> u8 option" where
  "peek8 p off s = do { ds \<leftarrow> peek_at p off 1 s; Some (ds ! 0) }"

text \<open>Reading \<open>n\<close> bytes behind a pointer.\<close>

definition ptr_read :: "nat \<times> int \<Rightarrow> nat \<Rightarrow> nat \<Rightarrow> 'a arp_scheme \<Rightarrow> bytes option" where
  "ptr_read ptr off n s =
     (case ptr of (p, base) \<Rightarrow> do { b \<leftarrow> pbufs (pheap s) p; payload_read (b\<lparr>payload := Some base\<rparr>) off n })"

section \<open>Routing\<close>

definition route_usable :: "netif \<Rightarrow> bool" where
  "route_usable n \<longleftrightarrow> netif_is_up n \<and> netif_is_link_up n \<and> ip_addr n \<noteq> IPADDR_ANY"

fun route_loop :: "link_env \<Rightarrow> u32 \<Rightarrow> nat list \<Rightarrow> nat option" where
  "route_loop env dest [] = None"
| "route_loop env dest (ni # nis) =
     (let n = netif_of env ni
      in if route_usable n then
           if ip4_addr_netcmp dest (ip_addr n) (netmask n) then Some ni
           else if netif_flags n AND NETIF_FLAG_BROADCAST = 0 \<and> dest = gw n then Some ni
           else route_loop env dest nis
         else route_loop env dest nis)"

definition ip4_route :: "link_env \<Rightarrow> u32 \<Rightarrow> nat option" where
  "ip4_route env dest =
     (case route_loop env dest (netif_list env) of
        Some ni \<Rightarrow> Some ni
      | None \<Rightarrow>
          (case netif_default env of
             None \<Rightarrow> None
           | Some d \<Rightarrow> if route_usable (netif_of env d) then Some d else None))"

section \<open>Output\<close>

text \<open>The checksum of the header, summed up field by field while the header is written.\<close>

definition ip_hdr_chksum :: "u8 \<Rightarrow> u8 \<Rightarrow> u8 \<Rightarrow> u16 \<Rightarrow> u16 \<Rightarrow> u32 \<Rightarrow> u32 \<Rightarrow> u16" where
  "ip_hdr_chksum tos ttl proto hlen' hid src dest =
     (let chk_sum = ucast (PP_HTONS (ucast proto OR push_bit 8 (ucast ttl)));
          chk_sum = chk_sum + (dest AND 0xffff);
          chk_sum = chk_sum + drop_bit 16 dest;
          chk_sum = chk_sum + ucast (PP_HTONS (ucast tos OR push_bit 8 0x45));
          chk_sum = chk_sum + ucast hlen';
          chk_sum = chk_sum + ucast hid;
          chk_sum = chk_sum + (src AND 0xffff);
          chk_sum = chk_sum + drop_bit 16 src;
          chk_sum = drop_bit 16 chk_sum + (chk_sum AND 0xffff);
          chk_sum = drop_bit 16 chk_sum + chk_sum :: u32
      in ucast (NOT chk_sum))"

text \<open>The header in front of the payload, if there is room for it.\<close>

definition write_ip_hdr ::
  "nat \<Rightarrow> u32 option \<Rightarrow> u32 \<Rightarrow> u8 \<Rightarrow> u8 \<Rightarrow> u8 \<Rightarrow> 'a ip_scheme \<Rightarrow> (bool \<times> 'a ip_scheme) option" where
  "write_ip_hdr p src dest ttl tos proto s = do {
     (failed, h) \<leftarrow> pbuf_header (Some p) (int IP_HLEN) (pheap s);
     if failed \<noteq> 0 then Some (False, s\<lparr>pheap := h\<rparr>)
     else do {
       b \<leftarrow> pbufs h p;
       lwip_assert (IP_HLEN \<le> unat (len b));
       s \<leftarrow> poke p 8 [ttl] (s\<lparr>pheap := h\<rparr>);
       s \<leftarrow> poke p 9 [proto] s;
       s \<leftarrow> poke p 16 (le32_bytes dest) s;
       s \<leftarrow> poke p 0 [0x45] s;
       s \<leftarrow> poke p 1 [tos] s;
       s \<leftarrow> poke p 2 (le16_bytes (lwip_htons (tot_len b))) s;
       s \<leftarrow> poke p 6 (le16_bytes 0) s;
       s \<leftarrow> poke p 4 (le16_bytes (lwip_htons (ip_id s))) s;
       let hid = lwip_htons (ip_id s);
       let s = s\<lparr>ip_id := ip_id s + 1\<rparr>;
       let from = (case src of None \<Rightarrow> IPADDR_ANY | Some a \<Rightarrow> a);
       s \<leftarrow> poke p 12 (le32_bytes from) s;
       s \<leftarrow> poke p 10 (le16_bytes (ip_hdr_chksum tos ttl proto (lwip_htons (tot_len b)) hid from dest)) s;
       Some (True, s)
     }
   }"

text \<open>
  \<open>dest\<close> is \<open>None\<close> for \<^verbatim>\<open>LWIP_IP_HDRINCL\<close>: the packet has its header already. The output function of
  the interfaces is \<^verbatim>\<open>etharp_output\<close>.
\<close>

definition ip4_output_if_src ::
  "'a ip_scheme ip_env \<Rightarrow> link_env \<Rightarrow> nat \<Rightarrow> u32 option \<Rightarrow> u32 option \<Rightarrow> u8 \<Rightarrow> u8 \<Rightarrow> u8 \<Rightarrow> nat \<Rightarrow> 'a ip_scheme \<Rightarrow>
   (err_t \<times> 'a ip_scheme) option" where
  "ip4_output_if_src E env p src dest ttl tos proto ni s = do {
     b \<leftarrow> pbufs (pheap s) p;
     lwip_assert (ref b = 1);
     (ok, to, s) \<leftarrow> (case dest of
         Some d \<Rightarrow> do { (ok, s) \<leftarrow> write_ip_hdr p src d ttl tos proto s; Some (ok, d, s) }
       | None \<Rightarrow> do { d \<leftarrow> peek32 p 16 s; Some (True, d, s) });
     if \<not> ok then Some (ERR_BUF, s)
     else do {
       b \<leftarrow> pbufs (pheap s) p;
       let n = netif_of env ni;
       if mtu n \<noteq> 0 \<and> mtu n < tot_len b then ip4_frag E p ni to s
       else etharp_output env ni p to s
     }
   }"

definition ip4_output_if ::
  "'a ip_scheme ip_env \<Rightarrow> link_env \<Rightarrow> nat \<Rightarrow> u32 option \<Rightarrow> u32 option \<Rightarrow> u8 \<Rightarrow> u8 \<Rightarrow> u8 \<Rightarrow> nat \<Rightarrow> 'a ip_scheme \<Rightarrow>
   (err_t \<times> 'a ip_scheme) option" where
  "ip4_output_if E env p src dest ttl tos proto ni s =
     (let src_used = (if dest \<noteq> None \<and> ip4_addr_isany src then Some (ip_addr (netif_of env ni)) else src)
      in ip4_output_if_src E env p src_used dest ttl tos proto ni s)"

definition ip4_output ::
  "'a ip_scheme ip_env \<Rightarrow> link_env \<Rightarrow> nat \<Rightarrow> u32 option \<Rightarrow> u32 \<Rightarrow> u8 \<Rightarrow> u8 \<Rightarrow> u8 \<Rightarrow> 'a ip_scheme \<Rightarrow>
   (err_t \<times> 'a ip_scheme) option" where
  "ip4_output E env p src dest ttl tos proto s = do {
     b \<leftarrow> pbufs (pheap s) p;
     lwip_assert (ref b = 1);
     (case ip4_route env dest of
        None \<Rightarrow> Some (ERR_RTE, s)
      | Some ni \<Rightarrow> ip4_output_if E env p src (Some dest) ttl tos proto ni s)
   }"

section \<open>Writing and reading headers\<close>

text \<open>The state in which the pbuf \<open>p\<close> is \<open>b\<close> with \<open>xs\<close> from the payload on.\<close>

definition set_view :: "nat \<Rightarrow> pbuf \<Rightarrow> bytes \<Rightarrow> bytes \<Rightarrow> 'a arp_scheme \<Rightarrow> 'a arp_scheme" where
  "set_view p b pre xs s = s\<lparr>pheap := put p (b\<lparr>area := pre @ xs\<rparr>) (pheap s)\<rparr>"

lemma overwrite_append: "overwrite (pre @ xs) (length pre + k) ds = pre @ overwrite xs k ds"
  by (simp add: overwrite_def)

lemma set_view_put: "(set_view p b pre xs s)\<lparr>pheap := put p c (pheap (set_view p b pre xs s))\<rparr> = s\<lparr>pheap := put p c (pheap s)\<rparr>"
proof -
  have "pheap (set_view p b pre xs s) = put p (b\<lparr>area := pre @ xs\<rparr>) (pheap s)" by (simp add: set_view_def)
  moreover have "(set_view p b pre xs s)\<lparr>pheap := h\<rparr> = s\<lparr>pheap := h\<rparr>" for h by (simp add: set_view_def)
  ultimately show ?thesis by (simp only: put_again)
qed

lemma poke_view:
  assumes "payload b = Some (int (length pre))" "k + length ds \<le> length xs" "ds \<noteq> []"
  shows "poke p k ds (set_view p b pre xs s) = Some (set_view p b pre (overwrite xs k ds) s)"
proof -
  have "poke p k ds (set_view p b pre xs s) = Some (set_view p b pre xs s
      \<lparr>pheap := put p (b\<lparr>area := overwrite (pre @ xs) (length pre + k) ds\<rparr>) (pheap (set_view p b pre xs s))\<rparr>)"
    using assms by (subst poke_eq [where b = "b\<lparr>area := pre @ xs\<rparr>" and off = "length pre"]) (simp_all add: set_view_def)
  then show ?thesis unfolding overwrite_append set_view_put by (simp only: set_view_def)
qed

lemma peek_view:
  assumes "payload b = Some (int (length pre))" "k + n \<le> length xs" "0 < n"
  shows "peek_at p k n (set_view p b pre xs s) = Some (take n (drop k xs))"
  using assms payload_read_area [of "b\<lparr>area := pre @ xs\<rparr>" pre xs k n] by (simp add: peek_at_def set_view_def)

lemma set_view_simps [simp]:
  "pheap (set_view p b pre xs s) = put p (b\<lparr>area := pre @ xs\<rparr>) (pheap s)" "sent (set_view p b pre xs s) = sent s"
  "arp_table (set_view p b pre xs s) = arp_table s" "etharp_cached_entry (set_view p b pre xs s) = etharp_cached_entry s"
  by (simp_all add: set_view_def)

lemma set_view_ip [simp]:
  "ip_id (set_view p b pre xs s) = ip_id s" "current_iphdr_src (set_view p b pre xs s) = current_iphdr_src s"
  "(set_view p b pre xs s)\<lparr>ip_id := i\<rparr> = set_view p b pre xs (s\<lparr>ip_id := i\<rparr>)"
  by (simp_all add: set_view_def)

text \<open>The bytes of an IP header without options; the 16-bit fields are in network byte order.\<close>

definition ip_header :: "u8 \<Rightarrow> u16 \<Rightarrow> u16 \<Rightarrow> u16 \<Rightarrow> u8 \<Rightarrow> u8 \<Rightarrow> u16 \<Rightarrow> u32 \<Rightarrow> u32 \<Rightarrow> bytes" where
  "ip_header tos l i off ttl proto chk src dest =
     [0x45, tos] @ le16_bytes l @ le16_bytes i @ le16_bytes off @ [ttl, proto] @ le16_bytes chk @ le32_bytes src @ le32_bytes dest"

lemma length_ip_header [simp]: "length (ip_header tos l i off ttl proto chk src dest) = 20"
  by (simp add: ip_header_def)

text \<open>A pbuf with \<open>hdr\<close> in front of its payload.\<close>

definition prepend :: "bytes \<Rightarrow> pbuf \<Rightarrow> pbuf" where
  "prepend hdr b = (let off = nat (the (payload b)); n = length hdr in
     b\<lparr>payload := Some (int (off - n)), len := len b + of_nat n, tot_len := tot_len b + of_nat n,
       area := take (off - n) (area b) @ hdr @ drop off (area b)\<rparr>)"

lemma write_fields:
  assumes "length xs = 20"
  shows "foldl (\<lambda>ys (k, ds). overwrite ys k ds) (xs @ rest)
      [(8, [ttl]), (9, [proto]), (16, le32_bytes dest), (0, [0x45]), (1, [tos]), (2, le16_bytes l), (6, le16_bytes off),
       (4, le16_bytes i), (12, le32_bytes src), (10, le16_bytes chk)] = ip_header tos l i off ttl proto chk src dest @ rest"
  using assms by (simp add: overwrite_def ip_header_def)

definition hdr_room :: "nat \<Rightarrow> pbuf \<Rightarrow> bool" where
  "hdr_room n b \<longleftrightarrow> ptype b \<in> {PBUF_RAM, PBUF_POOL} \<and> (case payload b of None \<Rightarrow> False | Some off \<Rightarrow> int n \<le> off)"

lemma overwrite_fits: "n \<le> length xs \<Longrightarrow> k + length ds \<le> n \<Longrightarrow> n \<le> length (overwrite xs k ds)"
  by simp

lemma poke_fits:
  assumes "payload b = Some (int (length pre))" "n \<le> length xs" "k + length ds \<le> n" "ds \<noteq> []"
  shows "poke p k ds (set_view p b pre xs s) = Some (set_view p b pre (overwrite xs k ds) s)"
  by (rule poke_view [OF assms(1) order_trans [OF assms(3,2)] assms(4)])

lemma write_view:
  assumes "pbuf_header (Some p) (int IP_HLEN) (pheap s) = Some (0, put p (m\<lparr>area := pre @ xs @ rest\<rparr>) (pheap s))"
    and "payload m = Some (int (length pre))" "length xs = 20" "IP_HLEN \<le> unat (len m)"
    and "from = (case src of None \<Rightarrow> IPADDR_ANY | Some a \<Rightarrow> a)" "l = lwip_htons (tot_len m)" "i = lwip_htons (ip_id s)"
  shows "write_ip_hdr p src dest ttl tos proto s = Some (True, set_view p m pre
    (ip_header tos l i 0 ttl proto (ip_hdr_chksum tos ttl proto l i from dest) from dest @ rest) (s\<lparr>ip_id := ip_id s + 1\<rparr>))"
proof -
  have st: "s\<lparr>pheap := put p (m\<lparr>area := pre @ xs @ rest\<rparr>) (pheap s)\<rparr> = set_view p m pre (xs @ rest) s"
    by (simp add: set_view_def)
  have pb: "pbufs (put p (m\<lparr>area := pre @ xs @ rest\<rparr>) (pheap s)) p = Some (m\<lparr>area := pre @ xs @ rest\<rparr>)" by simp
  have lx: "20 \<le> length (xs @ rest)" using assms(3) by simp
  show ?thesis
    unfolding write_fields [OF assms(3), symmetric] write_ip_hdr_def assms(1) Option.bind.bind_lunit prod.case pb st
    using assms(4) lx by (simp add: poke_fits [OF assms(2), of 20] overwrite_fits [of 20] Let_def assms(5-7) [symmetric] del: length_overwrite)
qed

lemma write_ip_hdr_eq:
  assumes "pbufs (pheap s) p = Some b" "head_ok b" "unat (len b) + 20 < 65536"
  shows "write_ip_hdr p src dest ttl tos proto s =
    (if hdr_room 20 b
     then let from = (case src of None \<Rightarrow> IPADDR_ANY | Some a \<Rightarrow> a); l = lwip_htons (tot_len b + 20); i = lwip_htons (ip_id s)
          in Some (True, s\<lparr>ip_id := ip_id s + 1,
               pheap := put p (prepend (ip_header tos l i 0 ttl proto (ip_hdr_chksum tos ttl proto l i from dest) from dest) b) (pheap s)\<rparr>)
     else Some (False, s))"
proof -
  obtain off where off: "payload b = Some off" "0 \<le> off" "nat off + unat (len b) \<le> length (area b)"
    using assms(2) by (auto simp: head_ok_def)
  show ?thesis
  proof (cases "hdr_room 20 b")
    case False
    then have "pbuf_header (Some p) (int IP_HLEN) (pheap s) = Some (1, pheap s)"
      using assms(1) off(1,2) by (cases "ptype b") (auto simp: hdr_room_def pbuf_header_def pbuf_header_impl_def IP_HLEN_def Let_def)
    then show ?thesis using False by (simp add: write_ip_hdr_def)
  next
    case True
    then have ge: "20 \<le> off" and ty: "ptype b = PBUF_RAM \<or> ptype b = PBUF_POOL" using off(1) by (auto simp: hdr_room_def)
    let ?k = "nat off"
    obtain pre xs rest where ar: "area b = pre @ xs @ rest" "pre = take (?k - 20) (area b)" "rest = drop ?k (area b)"
      "length pre = ?k - 20" "length xs = 20"
    proof
      show "area b = take (?k - 20) (area b) @ take 20 (drop (?k - 20) (area b)) @ drop ?k (area b)"
        using append_take_drop_id [of "?k - 20" "area b"] append_take_drop_id [of 20 "drop (?k - 20) (area b)"] ge by simp
    qed (use ge off in auto)
    let ?m = "b\<lparr>payload := Some (off - 20), len := len b + 20, tot_len := tot_len b + 20\<rparr>"
    have m: "?m\<lparr>area := pre @ xs @ rest\<rparr> = ?m" using ar(1) by (cases b) simp
    have h: "pbuf_header (Some p) (int IP_HLEN) (pheap s) = Some (0, put p (?m\<lparr>area := pre @ xs @ rest\<rparr>) (pheap s))"
      unfolding m using assms(1) off(1) ge ty by (auto simp: pbuf_header_def pbuf_header_impl_def IP_HLEN_def Let_def)
    have k: "off - 20 = int (length pre)" using ar(4) ge by linarith
    then have ml: "payload ?m = Some (int (length pre))" by simp
    have le: "IP_HLEN \<le> unat (len ?m)" using assms(3) unat_add_u16 [of "len b" 20] by (simp add: IP_HLEN_def)
    have i: "int (nat off - 20) = off - 20" using ge by linarith
    have pp: "prepend hdr b = ?m\<lparr>area := pre @ hdr @ rest\<rparr>" if "length hdr = 20" for hdr
      using that off(1) i by (simp add: prepend_def ar(2,3) Let_def)
    show ?thesis
      using True write_view [OF h ml ar(5) le refl refl refl, of src dest ttl tos proto]
      by (simp add: Let_def set_view_def pp)
  qed
qed

section \<open>Checksums of headers\<close>

lemma unat_inet_chksum: "length bs \<le> 65535 \<Longrightarrow> unat (inet_chksum od bs) = 65535 - ones (word_sum bs)"
  by (simp add: inet_chksum_def unat_not16 chksum2_eq)

lemma chksum_zero_iff: "length bs \<le> 65535 \<Longrightarrow> inet_chksum od bs = 0 \<longleftrightarrow> ones (word_sum bs) = 65535"
  using unat_inet_chksum [of bs od] ones_le [of "word_sum bs"] unsigned_eq_0_iff [of "inet_chksum od bs"] by auto

lemma word_sum_even: "even (length xs) \<Longrightarrow> word_sum (xs @ ys) = word_sum xs + word_sum ys"
  by (induction xs rule: word_sum.induct) simp_all

lemma ones_complement: "unat c = 65535 - ones n \<Longrightarrow> ones (n + unat c) = 65535"
  using ones_le [of n] ones_add [of n "unat c"] by (simp add: ones_def [of 65535])

lemma PP_HTONS_pair: "PP_HTONS (ucast lo OR push_bit 8 (ucast hi)) = le16_of_bytes hi lo" for lo hi :: u8
  unfolding PP_HTONS_bits le16_of_bytes_def by (rule bit_word_eqI) (auto simp: bit_simps dest: bit_imp_le_length)

lemma add_half:
  fixes x y :: u32
  assumes "unat x = n" "unat y = m" "n \<le> k * 65535" "m \<le> 65535" "k < 60000"
  shows "unat (x + y) = n + m \<and> n + m \<le> (k + 1) * 65535"
proof -
  have "k * 65535 \<le> 60000 * 65535" using assms(5) by (intro mult_right_mono) simp_all
  then have "n + m < 4294967296" using assms(3,4) by linarith
  then show ?thesis using assms by (simp add: unat_add_u32)
qed

lemma fold_end: "unat (ucast (NOT (drop_bit 16 (FOLD_U32T c) + FOLD_U32T c)) :: u16) = 65535 - ones (unat c)" for c :: u32
proof -
  let ?d = "FOLD_U32T c"
  have le: "unat ?d \<le> 131070" unfolding unat_FOLD_U32T by (rule fold_le) simp
  then have "unat (drop_bit 16 ?d + ?d) = unat ?d div 65536 + unat ?d"
    by (subst unat_add_u32) (simp_all add: unat_drop_bit_eq drop_bit_eq_div [where ?'a = nat])
  moreover have "(unat ?d div 65536 + unat ?d) mod 65536 = unat ?d div 65536 + unat ?d mod 65536"
  proof -
    have "unat ?d div 65536 + unat ?d mod 65536 < 65536" using fold_le_small [OF le] by linarith
    then show ?thesis using mod_add_right_eq [of "unat ?d div 65536" "unat ?d" 65536] by (simp only: mod_less)
  qed
  moreover have "\<dots> = ones (unat c)" using unat_FOLD_twice [of c] by (simp only: unat_FOLD_U32T)
  ultimately have "unat (ucast (drop_bit 16 ?d + ?d) :: u16) = ones (unat c)"
    by (simp add: unsigned_ucast_eq take_bit_eq_mod)
  moreover have "ucast (NOT w) = NOT (ucast w :: u16)" for w :: u32 by (rule bit_word_eqI) (simp add: bit_simps)
  ultimately show ?thesis by (simp add: unat_not16)
qed

lemma unat_ucast_8: "unat (ucast (w :: u8) :: u16) = unat w"
proof -
  have "unat w < 2 ^ 16" by (rule less_trans [OF unat_u8_less]) simp
  then show ?thesis by (simp add: unsigned_ucast_eq take_bit_nat_eq_self)
qed

text \<open>The sum of the header's words without its checksum.\<close>

definition ip_header_sum :: "u8 \<Rightarrow> u16 \<Rightarrow> u16 \<Rightarrow> u8 \<Rightarrow> u8 \<Rightarrow> u32 \<Rightarrow> u32 \<Rightarrow> nat" where
  "ip_header_sum tos l i ttl proto src dest =
     (unat ttl + 256 * unat proto) + unat dest mod 65536 + unat dest div 65536 + (69 + 256 * unat tos) +
     unat l + unat i + unat src mod 65536 + unat src div 65536"

lemma unat_ip_hdr_chksum:
  "unat (ip_hdr_chksum tos ttl proto l i src dest) = 65535 - ones (ip_header_sum tos l i ttl proto src dest)"
proof -
  have halves: "unat w mod 65536 \<le> 65535" "unat w div 65536 \<le> 65535" "unat (w AND 0xffff) = unat w mod 65536"
    "unat (drop_bit 16 w) = unat w div 65536" for w :: u32
    using unat_u32_less [of w] less_mult_imp_div_less [of "unat w" 65536 65536]
    by (simp_all add: unat_and_ffff unat_drop_bit_eq drop_bit_eq_div [where ?'a = nat] less_Suc_eq_le [symmetric])
  have pair: "unat (ucast (PP_HTONS (ucast lo OR push_bit 8 (ucast hi))) :: u32) = unat hi + 256 * unat lo"
    "unat hi + 256 * unat lo \<le> 65535" for hi lo :: u8
    using unat_u8_le [of hi] unat_u8_le [of lo] by (simp_all only: PP_HTONS_pair unat_ucast_16 le16_of_bytes_nat)
  have x45: "push_bit 8 0x45 = (push_bit 8 (ucast (0x45 :: u8)) :: u16)" by simp
  have h: "unat (ucast w :: u32) = unat w" "unat w \<le> 65535" for w :: u16
    using unat_u16_less [of w] by (simp add: unat_ucast_16, linarith)
  let ?x0 = "ucast (PP_HTONS (ucast proto OR push_bit 8 (ucast ttl))) :: u32"
  let ?c = "?x0 + (dest AND 0xffff) + drop_bit 16 dest + ucast (PP_HTONS (ucast tos OR push_bit 8 0x45)) + ucast l + ucast i +
    (src AND 0xffff) + drop_bit 16 src"
  have s0: "unat ttl + 256 * unat proto \<le> 1 * 65535" using pair(2) by simp
  have k: "(1::nat) < 60000" "(1 + 1::nat) < 60000" "(1 + 1 + 1::nat) < 60000" "(1 + 1 + 1 + 1::nat) < 60000"
    "(1 + 1 + 1 + 1 + 1::nat) < 60000" "(1 + 1 + 1 + 1 + 1 + 1::nat) < 60000" "(1 + 1 + 1 + 1 + 1 + 1 + 1::nat) < 60000" by simp_all
  note s1 = add_half [OF pair(1) [of proto ttl] halves(3) [of dest] s0 halves(1) k(1)]
  note s2 = add_half [OF conjunct1 [OF s1] halves(4) [of dest] conjunct2 [OF s1] halves(2) k(2)]
  note s3 = add_half [OF conjunct1 [OF s2] pair(1) [of tos "0x45"] conjunct2 [OF s2] pair(2) k(3)]
  note s4 = add_half [OF conjunct1 [OF s3] h(1) [of l] conjunct2 [OF s3] h(2) k(4)]
  note s5 = add_half [OF conjunct1 [OF s4] h(1) [of i] conjunct2 [OF s4] h(2) k(5)]
  note s6 = add_half [OF conjunct1 [OF s5] halves(3) [of src] conjunct2 [OF s5] halves(1) k(6)]
  note s7 = add_half [OF conjunct1 [OF s6] halves(4) [of src] conjunct2 [OF s6] halves(2) k(7)]
  have "unat ?c = ip_header_sum tos l i ttl proto src dest"
    using conjunct1 [OF s7] unfolding ip_header_sum_def x45 by simp
  moreover have "ip_hdr_chksum tos ttl proto l i src dest = ucast (NOT (drop_bit 16 (FOLD_U32T ?c) + FOLD_U32T ?c))"
    unfolding ip_hdr_chksum_def Let_def FOLD_U32T_def ..
  ultimately show ?thesis by (simp only: fold_end)
qed

lemma word_sum_ip_header:
  "word_sum (ip_header tos l i 0 ttl proto chk src dest) = ip_header_sum tos l i ttl proto src dest + unat chk"
  by (simp add: ip_header_def ip_header_sum_def word_sum_even word_sum_le16 word_sum_le32)

text \<open>The checksum of a header that has been written is right.\<close>

lemma ip_header_verifies: "inet_chksum od (ip_header tos l i 0 ttl proto (ip_hdr_chksum tos ttl proto l i src dest) src dest) = 0"
  by (simp add: chksum_zero_iff word_sum_ip_header ones_complement [OF unat_ip_hdr_chksum])

section \<open>Sending\<close>

lemma prepend_ok:
  assumes "head_ok b" "hdr_room (length hdr) b" "unat (len b) + length hdr < 65536"
  shows "head_ok (prepend hdr b)" "pdata (prepend hdr b) = hdr @ pdata b" "unat (len (prepend hdr b)) = unat (len b) + length hdr"
    "pnext (prepend hdr b) = pnext b" "ref (prepend hdr b) = ref b" "ptype (prepend hdr b) = ptype b"
    "hdr_room (n + length hdr) b \<Longrightarrow> hdr_room n (prepend hdr b)"
    "tot_len (prepend hdr b) = tot_len b + of_nat (length hdr)"
proof -
  obtain off where off: "payload b = Some off" "int (length hdr) \<le> off" "nat off + unat (len b) \<le> length (area b)"
    using assms(1,2) by (auto simp: head_ok_def hdr_room_def)
  let ?o = "nat off" and ?n = "length hdr"
  have o: "?n \<le> ?o" "?o \<le> length (area b)" using off by linarith+
  have l: "unat (len b + of_nat ?n) = unat (len b) + ?n" using assms(3) by (simp add: unat_add_u16 unat_of_nat_u16)
  show "unat (len (prepend hdr b)) = unat (len b) + ?n" using l by (simp add: prepend_def Let_def)
  show "pnext (prepend hdr b) = pnext b" "ref (prepend hdr b) = ref b" "ptype (prepend hdr b) = ptype b"
    "tot_len (prepend hdr b) = tot_len b + of_nat ?n"
    by (simp_all add: prepend_def Let_def)
  show "head_ok (prepend hdr b)" using off o l by (auto simp: head_ok_def prepend_def Let_def)
  show "pdata (prepend hdr b) = hdr @ pdata b" using off o l by (simp add: pdata_def prepend_def Let_def)
  show "hdr_room n (prepend hdr b)" if "hdr_room (n + ?n) b" using that off o by (auto simp: hdr_room_def prepend_def Let_def)
qed

lemma has_room_iff: "has_room b = hdr_room 14 b"
  by (auto simp: has_room_def hdr_room_def split: option.splits)

text \<open>The pbuf \<open>q\<close> at the head of a packet of \<open>P\<close> changes in place.\<close>

lemma arp_good_put:
  assumes "arp_good P s" "q \<in> P" "packet_at (pheap s) q ((q, b) # xs)" "pnext b' = pnext b" "0 < ref b'" "head_ok b'"
    and "pheap t = put q b' (pheap s)" "arp_table t = arp_table s" "etharp_cached_entry t = etharp_cached_entry s"
  shows "arp_good P t" "packet_at (pheap t) q ((q, b') # xs)" "keeps (P - {q}) (pheap s) (pheap t)"
proof -
  note g = arp_goodD [OF assms(1)]
  have q: "q \<in> queues (arp_table s) \<union> P" using assms(2) by simp
  note o = owns_put_head [OF g(4) q assms(3-6)]
  show "arp_good P t" using g o(1) assms(7-9) by (simp add: arp_good_def arp_inv_def)
  show "packet_at (pheap t) q ((q, b') # xs)" using o(2) assms(7) by simp
  show "keeps (P - {q}) (pheap s) (pheap t)" unfolding assms(7) by (rule keeps_mono [OF o(3)]) blast
qed

lemma sendable_prepend:
  assumes "sendable (b # bs)" "hdr_room (length hdr) b" "head_ok b" "40 + length hdr + total_len (b # bs) < 65536"
  shows "sendable (prepend hdr b # bs)" "content (prepend hdr b # bs) = hdr @ content (b # bs)"
    "unat (tot_len (prepend hdr b)) = length hdr + unat (tot_len b)"
proof -
  have l: "unat (len b) + length hdr < 65536" "unat (tot_len b) + length hdr < 65536" using assms(1,4) by (simp_all add: sendable_def)
  note p = prepend_ok [OF assms(3,2) l(1)]
  show tl: "unat (tot_len (prepend hdr b)) = length hdr + unat (tot_len b)"
    using l(2) by (simp add: p(8) unat_add_u16 unat_of_nat_u16)
  show "content (prepend hdr b # bs) = hdr @ content (b # bs)" by (simp add: p(2))
  have "payload_ok (prepend hdr b)" using p(1) by (auto simp: head_ok_def payload_ok_def)
  moreover have "len (prepend hdr b) \<noteq> 0" using p(3) assms(1) by (auto simp: sendable_def unat_eq_0)
  ultimately show "sendable (prepend hdr b # bs)" using assms(1,4) tl p(3,6) by (simp add: sendable_def)
qed

text \<open>A frame with \<open>bs\<close> goes out to the neighbour that is the next hop for \<open>ip\<close>, if its address is known.\<close>

definition ip_goes_out :: "link_env \<Rightarrow> nat \<Rightarrow> u32 \<Rightarrow> bytes \<Rightarrow> 'a arp_scheme \<Rightarrow> 'a arp_scheme \<Rightarrow> bool" where
  "ip_goes_out env ni ip bs s t \<longleftrightarrow> (\<forall>mac. unicast env ni ip \<and> next_hop (netif_of env ni) ip \<noteq> IPADDR_ANY \<and>
     resolved (next_hop (netif_of env ni) ip) mac s \<longrightarrow>
     (\<exists>l. sent t = sent s @ l \<and> delivered ni (eth_hdr mac (hwaddr (netif_of env ni)) (lwip_htons ETHTYPE_IP) @ bs) l))"

lemma output_ip_total:
  assumes "arp_good P s" "q \<in> P" "link_ok env" "packet_at (pheap s) q ((q, b) # xs)" "sendable (b # map snd xs)"
  shows "\<exists>r t. etharp_output env ni q ip s = Some (r, t) \<and> arp_good P t \<and> keeps (P - {q}) (pheap s) (pheap t) \<and>
    (\<exists>l. sent t = sent s @ l) \<and> (has_room b \<longrightarrow> ip_goes_out env ni ip (content (b # map snd xs)) s t)"
proof -
  have l: "unat (len b) + 14 < 65536" using assms(5) by (simp add: sendable_def)
  obtain r t where t: "etharp_output env ni q ip s = Some (r, t)" "arp_good P t" "keeps (P - {q}) (pheap s) (pheap t)"
    "\<exists>l. sent t = sent s @ l"
    "\<forall>mac. unicast env ni ip \<and> next_hop (netif_of env ni) ip \<noteq> IPADDR_ANY \<and> resolved (next_hop (netif_of env ni) ip) mac s \<longrightarrow>
       goes_out ni (eth_hdr mac (hwaddr (netif_of env ni)) (lwip_htons ETHTYPE_IP)) q (pheap s) s t"
    using etharp_output_total [OF assms] by blast
  have "ip_goes_out env ni ip (content (b # map snd xs)) s t" if "has_room b"
    using t(5) that l assms(4) unfolding ip_goes_out_def goes_out_def by blast
  then show ?thesis using t by blast
qed

lemma ip_goes_out_cong:
  "arp_table s = arp_table s' \<Longrightarrow> sent s = sent s' \<Longrightarrow> ip_goes_out env ni ip bs s t = ip_goes_out env ni ip bs s' t"
  by (simp add: ip_goes_out_def resolved_def)

text \<open>The header that is written for a packet of \<open>n\<close> bytes.\<close>

definition out_header :: "nat \<Rightarrow> u16 \<Rightarrow> u8 \<Rightarrow> u8 \<Rightarrow> u8 \<Rightarrow> u32 \<Rightarrow> u32 \<Rightarrow> bytes" where
  "out_header n ident ttl tos proto src dest =
     (let l = lwip_htons (of_nat (n + 20)); i = lwip_htons ident
      in ip_header tos l i 0 ttl proto (ip_hdr_chksum tos ttl proto l i src dest) src dest)"

lemma out_header_ok [simp]: "length (out_header n ident ttl tos proto src dest) = 20" "inet_chksum od (out_header n ident ttl tos proto src dest) = 0"
  by (simp_all add: out_header_def Let_def ip_header_verifies)

text \<open>The packet \<open>q\<close> may be sent with an IP header in front of it.\<close>

definition ip_sendable :: "link_env \<Rightarrow> nat \<Rightarrow> pbuf list \<Rightarrow> bool" where
  "ip_sendable env ni bs \<longleftrightarrow> sendable bs \<and> 60 + total_len bs < 65536 \<and> ref (hd bs) = 1 \<and>
     (mtu (netif_of env ni) = 0 \<or> 20 + total_len bs \<le> unat (mtu (netif_of env ni)))"

lemma output_if_src_total:
  assumes "arp_good P s" "q \<in> P" "link_ok env" "packet_at (pheap s) q ((q, b) # xs)" "ip_sendable env ni (b # map snd xs)"
    and "from = (case src of None \<Rightarrow> IPADDR_ANY | Some a \<Rightarrow> a)"
  shows "\<exists>r t. ip4_output_if_src E env q src (Some dest) ttl tos proto ni s = Some (r, t) \<and> arp_good P t \<and>
    keeps (P - {q}) (pheap s) (pheap t) \<and> (\<exists>l. sent t = sent s @ l) \<and>
    (hdr_room 34 b \<longrightarrow> ip_goes_out env ni dest
       (out_header (total_len (b # map snd xs)) (ip_id s) ttl tos proto from dest @ content (b # map snd xs)) s t)"
proof -
  let ?bs = "b # map snd xs"
  obtain ys where b: "pbufs (pheap s) q = Some b" "head_ok b" "ref b = 1" using packet_at_Cons [OF assms(4)] assms(5) by (auto simp: ip_sendable_def)
  have sb: "sendable ?bs" "60 + total_len ?bs < 65536" using assms(5) by (simp_all add: ip_sendable_def)
  have tl: "unat (tot_len b) = total_len ?bs" using sb(1) by (simp add: sendable_def)
  then have "tot_len b = of_nat (total_len ?bs)" by (simp del: total_len_simps flip: tl)
  then have tl20: "tot_len b + 20 = of_nat (total_len ?bs + 20)" by simp
  let ?l = "lwip_htons (tot_len b + 20)" and ?i = "lwip_htons (ip_id s)"
  let ?hdr = "out_header (total_len ?bs) (ip_id s) ttl tos proto from dest"
  let ?t = "s\<lparr>ip_id := ip_id s + 1, pheap := put q (prepend ?hdr b) (pheap s)\<rparr>"
  have w: "write_ip_hdr q src dest ttl tos proto s = (if hdr_room 20 b then Some (True, ?t) else Some (False, s))"
    using write_ip_hdr_eq [OF b(1,2), of src dest ttl tos proto] sb(2) assms(6) unfolding tl20 by (simp add: Let_def out_header_def)
  show ?thesis
  proof (cases "hdr_room 20 b")
    case False
    then have "\<not> hdr_room 34 b" by (auto simp: hdr_room_def split: option.splits)
    then show ?thesis using False w assms(1) b by (simp add: ip4_output_if_src_def)
  next
    case True
    have room: "hdr_room (length ?hdr) b" "unat (len b) + length ?hdr < 65536" using True sb(2) by simp_all
    note p = prepend_ok [OF b(2) room]
    have sp: "sendable (prepend ?hdr b # map snd xs)" "content (prepend ?hdr b # map snd xs) = ?hdr @ content ?bs"
      "unat (tot_len (prepend ?hdr b)) = 20 + unat (tot_len b)"
      using sendable_prepend [OF sb(1) room(1) b(2)] sb(2) by simp_all
    have rf: "0 < ref (prepend ?hdr b)" using p(5) b(3) by simp
    have tf: "pheap ?t = put q (prepend ?hdr b) (pheap s)" "arp_table ?t = arp_table s" "etharp_cached_entry ?t = etharp_cached_entry s"
      by simp_all
    note g = arp_good_put [OF assms(1,2,4) p(4) rf p(1) tf]
    obtain r t where t: "etharp_output env ni q dest ?t = Some (r, t)" "arp_good P t" "keeps (P - {q}) (pheap ?t) (pheap t)"
      "\<exists>l. sent t = sent ?t @ l" "has_room (prepend ?hdr b) \<longrightarrow> ip_goes_out env ni dest (content (prepend ?hdr b # map snd xs)) ?t t"
      using output_ip_total [OF g(1) assms(2,3) g(2) sp(1)] by blast
    have mtu: "\<not> (mtu (netif_of env ni) \<noteq> 0 \<and> mtu (netif_of env ni) < tot_len (prepend ?hdr b))"
      using assms(5) sp(3) tl by (auto simp: ip_sendable_def word_less_nat_alt)
    have "ip4_output_if_src E env q src (Some dest) ttl tos proto ni s = etharp_output env ni q dest ?t"
      unfolding ip4_output_if_src_def using True b(1,3) mtu w by (auto simp: Let_def)
    moreover have "ip_goes_out env ni dest (?hdr @ content ?bs) s t" if r: "hdr_room 34 b"
    proof -
      have "has_room (prepend ?hdr b)" unfolding has_room_iff using p(7) [of 14] r by simp
      then have "ip_goes_out env ni dest (?hdr @ content ?bs) ?t t" using t(5) sp(2) by simp
      then show ?thesis by (subst ip_goes_out_cong [of s ?t]) simp_all
    qed
    ultimately show ?thesis using t(1,2,4) keeps_trans [OF g(3) t(3)] by auto
  qed
qed

text \<open>A packet that \<^verbatim>\<open>ip4_output\<close> is given goes out on the interface that the routing chose, in a
  frame to the hardware address of the next hop, behind an IP header with the addresses, the protocol,
  the length and the next identification; the receiver's check of the header's checksum succeeds. The
  other packets of the stack are not touched.\<close>

lemma ip4_output_sends:
  assumes "arp_good P s" "q \<in> P" "link_ok env" "packet_at (pheap s) q ((q, b) # xs)" "ip_sendable env ni (b # map snd xs)"
    and "hdr_room 34 b" "ip4_route env dest = Some ni" "n = netif_of env ni"
    and "unicast env ni dest" "next_hop n dest \<noteq> IPADDR_ANY" "resolved (next_hop n dest) mac s"
    and "from = (if ip4_addr_isany src then ip_addr n else the src)"
  shows "\<exists>r t l. ip4_output E env q src dest ttl tos proto s = Some (r, t) \<and> sent t = sent s @ l \<and>
    delivered ni (eth_hdr mac (hwaddr n) (lwip_htons ETHTYPE_IP) @
      out_header (total_len (b # map snd xs)) (ip_id s) ttl tos proto from dest @ content (b # map snd xs)) l \<and>
    inet_chksum od (out_header (total_len (b # map snd xs)) (ip_id s) ttl tos proto from dest) = 0 \<and>
    arp_good P t \<and> keeps (P - {q}) (pheap s) (pheap t)"
proof -
  let ?src = "if ip4_addr_isany src then Some (ip_addr n) else src"
  have fr: "from = (case ?src of None \<Rightarrow> IPADDR_ANY | Some a \<Rightarrow> a)" using assms(12) by (auto simp: ip4_addr_isany_def split: option.splits)
  have b: "pbufs (pheap s) q = Some b" "ref b = 1" using packet_at_Cons [OF assms(4)] assms(5) by (auto simp: ip_sendable_def)
  obtain r t where t: "ip4_output_if_src E env q ?src (Some dest) ttl tos proto ni s = Some (r, t)" "arp_good P t"
    "keeps (P - {q}) (pheap s) (pheap t)" "hdr_room 34 b \<longrightarrow> ip_goes_out env ni dest
       (out_header (total_len (b # map snd xs)) (ip_id s) ttl tos proto from dest @ content (b # map snd xs)) s t"
    using output_if_src_total [OF assms(1-5) fr] by blast
  have "ip4_output E env q src dest ttl tos proto s = Some (r, t)"
    using t(1) b assms(7,8) by (simp add: ip4_output_def ip4_output_if_def split: if_splits)
  then show ?thesis using t(2-4) assms(6,8-11) unfolding ip_goes_out_def by auto
qed

section \<open>Packets of the stack's own\<close>

lemma arp_good_new:
  assumes "arp_good P s" "pbufs (pheap s) a = None" "pnext b = None" "0 < ref b" "head_ok b"
    and "pheap t = put a b (pheap s)" "arp_table t = arp_table s" "etharp_cached_entry t = etharp_cached_entry s"
  shows "a \<notin> P" "arp_good (insert a P) t" "packet_at (pheap t) a [(a, b)]" "keeps P (pheap s) (pheap t)"
proof -
  note g = arp_goodD [OF assms(1)]
  note o = owns_new [OF g(4) assms(2-5)]
  show "a \<notin> P" using o(1) by simp
  show "arp_good (insert a P) t" using g o(1,3) assms(6-8) by (auto simp: arp_good_def arp_inv_def)
  show "packet_at (pheap t) a [(a, b)]" using o(4) assms(6) by simp
  show "keeps P (pheap s) (pheap t)" unfolding assms(6) by (rule keeps_mono [OF o(2)]) blast
qed

lemma arp_good_free:
  assumes "arp_good P s" "p \<in> P"
  shows "\<exists>h. free_pbuf p s = Some (s\<lparr>pheap := h\<rparr>) \<and> arp_good (P - {p}) (s\<lparr>pheap := h\<rparr>) \<and> keeps (P - {p}) (pheap s) h"
proof -
  note g = arp_goodD [OF assms(1)]
  have p: "p \<in> queues (arp_table s) \<union> P" "p \<notin> queues (arp_table s)" using assms(2) g(3) by auto
  obtain h where h: "free_pbuf p s = Some (s\<lparr>pheap := h\<rparr>)" "owns h (queues (arp_table s) \<union> P - {p})"
    "keeps (queues (arp_table s) \<union> P - {p}) (pheap s) h" using free_pbuf_total [OF g(4) p(1)] by blast
  have "queues (arp_table s) \<union> P - {p} = queues (arp_table s) \<union> (P - {p})" using p(2) by blast
  then show ?thesis using g h keeps_mono [OF h(3), of "P - {p}"] by (auto simp: arp_good_def arp_inv_def)
qed

lemma set_view_other [simp]: "p \<noteq> q \<Longrightarrow> peek_at p k n (set_view q b pre xs s) = peek_at p k n s"
  by (simp add: peek_at_def set_view_def)

lemma peek32_eq: "peek_at p k 4 s = Some ds \<Longrightarrow> peek32 p k s = Some (le32_of_bytes (ds ! 0) (ds ! 1) (ds ! 2) (ds ! 3))"
  by (simp add: peek32_def)

definition ram_pbuf :: "nat \<Rightarrow> u16 \<Rightarrow> bytes \<Rightarrow> pbuf" where
  "ram_pbuf off n xs = \<lparr>pnext = None, payload = Some (int off), tot_len = n, len = n, ptype = PBUF_RAM, flags = 0, ref = 1, area = xs\<rparr>"

lemma ram_pbuf_simps [simp]:
  "pnext (ram_pbuf off n xs) = None" "payload (ram_pbuf off n xs) = Some (int off)" "tot_len (ram_pbuf off n xs) = n"
  "len (ram_pbuf off n xs) = n" "ptype (ram_pbuf off n xs) = PBUF_RAM" "ref (ram_pbuf off n xs) = 1" "area (ram_pbuf off n xs) = xs"
  "(ram_pbuf off n xs)\<lparr>area := ys\<rparr> = ram_pbuf off n ys"
  by (simp_all add: ram_pbuf_def)

lemma alloc_ram:
  assumes "SIZEOF_STRUCT_PBUF + layer_offset layer + unat n < 65536"
  shows "pbuf_alloc malloc layer n PBUF_RAM h = (case malloc (ram_size (layer_offset layer) n) of
      None \<Rightarrow> Some (None, h)
    | Some a \<Rightarrow> Some (Some a, put a (ram_pbuf (layer_offset layer) n (map (stale h a) [0..<layer_offset layer + unat n])) h))"
proof -
  have "unat (ram_size (layer_offset layer) n) = SIZEOF_STRUCT_PBUF + layer_offset layer + unat n"
    unfolding ram_size_def using assms by (rule unat_of_nat_u16)
  then show ?thesis by (simp add: pbuf_alloc_def Let_def ram_pbuf_def split: option.splits)
qed

end
