(* ===== verification/Icmp.thy ===== *)
theory Icmp
  imports Ip4
begin

text \<open>
  ICMP (\<^verbatim>\<open>src/server_dir/lwip/src/core/ipv4/icmp.c\<close>): the answer to an echo request and the messages
  about packets that could not be delivered.
\<close>

definition ICMP_ER :: u8 where "ICMP_ER = 0"
definition ICMP_DUR :: u8 where "ICMP_DUR = 3"
definition ICMP_ECHO :: u8 where "ICMP_ECHO = 8"
definition ICMP_TE :: u8 where "ICMP_TE = 11"
definition ICMP_DUR_PROTO :: u8 where "ICMP_DUR_PROTO = 2"
definition ICMP_TE_FRAG :: u8 where "ICMP_TE_FRAG = 1"
definition ICMP_TTL :: u8 where "ICMP_TTL = 255"
definition ICMP_DEST_UNREACH_DATASIZE :: nat where "ICMP_DEST_UNREACH_DATASIZE = 8"
definition SIZEOF_ICMP_ECHO_HDR :: nat where "SIZEOF_ICMP_ECHO_HDR = 8"

section \<open>Responses to packets\<close>

definition icmp_send_response ::
  "'a ip_scheme ip_env \<Rightarrow> link_env \<Rightarrow> nat \<Rightarrow> u8 \<Rightarrow> u8 \<Rightarrow> 'a ip_scheme \<Rightarrow> 'a ip_scheme option" where
  "icmp_send_response E env p type code s = do {
     let n = SIZEOF_ICMP_ECHO_HDR + IP_HLEN + ICMP_DEST_UNREACH_DATASIZE;
     (r, h) \<leftarrow> pbuf_alloc (link_malloc env (pheap s)) PBUF_IP (of_nat n) PBUF_RAM (pheap s);
     let s = s\<lparr>pheap := h\<rparr>;
     (case r of
        None \<Rightarrow> Some s
      | Some q \<Rightarrow> do {
          qb \<leftarrow> pbufs (pheap s) q;
          lwip_assert (n \<le> unat (len qb));
          s \<leftarrow> poke q 0 [type] s;
          s \<leftarrow> poke q 1 [code] s;
          s \<leftarrow> poke q 4 (le16_bytes 0) s;
          s \<leftarrow> poke q 6 (le16_bytes 0) s;
          orig \<leftarrow> peek_at p 0 (IP_HLEN + ICMP_DEST_UNREACH_DATASIZE) s;
          s \<leftarrow> poke q SIZEOF_ICMP_ECHO_HDR orig s;
          iphdr_src \<leftarrow> peek32 p 12 s;
          s \<leftarrow> (case ip4_route env iphdr_src of
              None \<Rightarrow> Some s
            | Some ni \<Rightarrow> do {
                s \<leftarrow> poke q 2 (le16_bytes 0) s;
                ds \<leftarrow> peek_at q 0 (unat (len qb)) s;
                s \<leftarrow> poke q 2 (le16_bytes (inet_chksum (odd_at E q) ds)) s;
                (_, s) \<leftarrow> ip4_output_if E env q None (Some iphdr_src) ICMP_TTL 0 IP_PROTO_ICMP ni s;
                Some s
              });
          free_pbuf q s
        })
   }"

definition icmp_dest_unreach :: "'a ip_scheme ip_env \<Rightarrow> link_env \<Rightarrow> nat \<Rightarrow> u8 \<Rightarrow> 'a ip_scheme \<Rightarrow> 'a ip_scheme option" where
  "icmp_dest_unreach E env p t s = icmp_send_response E env p ICMP_DUR t s"

definition icmp_time_exceeded :: "'a ip_scheme ip_env \<Rightarrow> link_env \<Rightarrow> nat \<Rightarrow> u8 \<Rightarrow> 'a ip_scheme \<Rightarrow> 'a ip_scheme option" where
  "icmp_time_exceeded E env p t s = icmp_send_response E env p ICMP_TE t s"

section \<open>Input\<close>

text \<open>
  A pbuf for the answer with room for the link header: the packet itself if it has the room, or a copy
  of it behind the IP header. \<open>None\<close> as the result stands for the jump to \<^verbatim>\<open>icmperr\<close>, with the packet that
  is to be freed.
\<close>

definition echo_copy ::
  "link_env \<Rightarrow> nat \<Rightarrow> nat \<times> int \<Rightarrow> u16 \<Rightarrow> 'a ip_scheme \<Rightarrow> (nat option \<times> 'a ip_scheme) option" where
  "echo_copy env p iphdr_in hlen s = do {
     b \<leftarrow> pbufs (pheap s) p;
     (r, h) \<leftarrow> pbuf_alloc (link_malloc env (pheap s)) PBUF_LINK (tot_len b + hlen) PBUF_RAM (pheap s);
     let s = s\<lparr>pheap := h\<rparr>;
     (case r of
        None \<Rightarrow> Some (None, s)
      | Some r \<Rightarrow> do {
          rb \<leftarrow> pbufs (pheap s) r;
          if unat (len rb) < unat hlen + SIZEOF_ICMP_ECHO_HDR then do { s \<leftarrow> free_pbuf r s; Some (None, s) }
          else do {
            hdr \<leftarrow> ptr_read iphdr_in 0 (unat hlen) s;
            s \<leftarrow> poke r 0 hdr s;
            (failed, h) \<leftarrow> pbuf_header (Some r) (- int (unat hlen)) (pheap s);
            let s = s\<lparr>pheap := h\<rparr>;
            lwip_assert (failed = 0);
            (err, h) \<leftarrow> pbuf_copy (Some r) (Some p) (pheap s);
            let s = s\<lparr>pheap := h\<rparr>;
            if err \<noteq> ERR_OK then do { s \<leftarrow> free_pbuf r s; Some (None, s) }
            else do { s \<leftarrow> free_pbuf p s; Some (Some r, s) }
          }
        })
   }"

definition echo_room ::
  "link_env \<Rightarrow> nat \<Rightarrow> nat \<times> int \<Rightarrow> u16 \<Rightarrow> 'a ip_scheme \<Rightarrow> (nat option \<times> 'a ip_scheme) option" where
  "echo_room env p iphdr_in hlen s = do {
     let n = int (unat hlen) + int PBUF_LINK_HLEN + int PBUF_LINK_ENCAPSULATION_HLEN;
     (failed, h) \<leftarrow> pbuf_header (Some p) n (pheap s);
     let s = s\<lparr>pheap := h\<rparr>;
     if failed \<noteq> 0 then echo_copy env p iphdr_in hlen s
     else do {
       (failed, h) \<leftarrow> pbuf_header (Some p) (- n) (pheap s);
       lwip_assert (failed = 0);
       Some (Some p, s\<lparr>pheap := h\<rparr>)
     }
   }"

text \<open>The checksum of the ICMP message after its type has changed from echo to echo reply.\<close>

definition echo_chksum :: "u16 \<Rightarrow> u16" where
  "echo_chksum c =
     (if PP_HTONS (0xffff - push_bit 8 (ucast ICMP_ECHO)) < c
      then c + PP_HTONS (push_bit 8 (ucast ICMP_ECHO)) + 1
      else c + PP_HTONS (push_bit 8 (ucast ICMP_ECHO)))"

text \<open>The answer, in the pbuf of the request or its copy.\<close>

definition echo_reply ::
  "'a ip_scheme ip_env \<Rightarrow> link_env \<Rightarrow> nat \<Rightarrow> nat \<Rightarrow> u16 \<Rightarrow> u32 \<Rightarrow> 'a ip_scheme \<Rightarrow> 'a ip_scheme option" where
  "echo_reply E env p inp hlen src s = do {
     (failed, h) \<leftarrow> pbuf_header (Some p) (int (unat hlen)) (pheap s);
     let s = s\<lparr>pheap := h\<rparr>;
     if failed \<noteq> 0 then Some s
     else do {
       let iecho = unat hlen;
       s \<leftarrow> poke p 12 (le32_bytes src) s;
       s \<leftarrow> poke p 16 (le32_bytes (current_iphdr_src s)) s;
       s \<leftarrow> poke p iecho [ICMP_ER] s;
       c \<leftarrow> peek16 p (iecho + 2) s;
       s \<leftarrow> poke p (iecho + 2) (le16_bytes (echo_chksum c)) s;
       s \<leftarrow> poke p 8 [ICMP_TTL] s;
       s \<leftarrow> poke p 10 (le16_bytes 0) s;
       hdr \<leftarrow> peek_at p 0 (unat hlen) s;
       s \<leftarrow> poke p 10 (le16_bytes (inet_chksum (odd_at E p) hdr)) s;
       (_, s) \<leftarrow> ip4_output_if E env p (Some src) None ICMP_TTL 0 IP_PROTO_ICMP inp s;
       Some s
     }
   }"

definition echo_input ::
  "'a ip_scheme ip_env \<Rightarrow> link_env \<Rightarrow> nat \<Rightarrow> nat \<Rightarrow> nat \<times> int \<Rightarrow> u16 \<Rightarrow> 'a ip_scheme \<Rightarrow> 'a ip_scheme option" where
  "echo_input E env p inp iphdr_in hlen s = do {
     let src = current_iphdr_dest s;
     if ip4_addr_ismulticast (current_iphdr_dest s) then free_pbuf p s
     else do {
       cn \<leftarrow> current_netif s;
       if ip4_addr_isbroadcast (current_iphdr_dest s) (netif_of env cn) then free_pbuf p s
       else do {
         b \<leftarrow> pbufs (pheap s) p;
         if unat (tot_len b) < SIZEOF_ICMP_ECHO_HDR then free_pbuf p s
         else do {
           c \<leftarrow> inet_chksum_pbuf (odd_at E) (Some p) (pheap s);
           if c \<noteq> 0 then free_pbuf p s
           else do {
             (r, s) \<leftarrow> echo_room env p iphdr_in hlen s;
             (case r of
                None \<Rightarrow> free_pbuf p s
              | Some q \<Rightarrow> do {
                  s \<leftarrow> echo_reply E env q inp hlen src s;
                  free_pbuf q s
                })
           }
         }
       }
     }
   }"

definition icmp_input :: "'a ip_scheme ip_env \<Rightarrow> link_env \<Rightarrow> nat \<Rightarrow> nat \<Rightarrow> 'a ip_scheme \<Rightarrow> 'a ip_scheme option" where
  "icmp_input E env p inp s = do {
     iphdr_in \<leftarrow> current_ip4_header s;
     vhl \<leftarrow> ptr_read iphdr_in 0 1 s;
     let hlen = ucast (IPH_HL (vhl ! 0)) * 4;
     b \<leftarrow> pbufs (pheap s) p;
     if unat hlen < IP_HLEN then free_pbuf p s
     else if unat (len b) < 4 then free_pbuf p s
     else do {
       type \<leftarrow> peek8 p 0 s;
       code \<leftarrow> peek8 p 1 s;
       if type = ICMP_ECHO then echo_input E env p inp iphdr_in hlen s
       else free_pbuf p s
     }
   }"

text \<open>The ICMP message about the packet that starts with \<open>orig\<close>.\<close>

definition icmp_error_msg :: "u8 \<Rightarrow> u8 \<Rightarrow> bool \<Rightarrow> bytes \<Rightarrow> bytes" where
  "icmp_error_msg type code od orig =
     [type, code] @ le16_bytes (inet_chksum od ([type, code, 0, 0, 0, 0, 0, 0] @ orig)) @ [0, 0, 0, 0] @ orig"

lemma length_icmp_error_msg [simp]: "length (icmp_error_msg type code od orig) = 8 + length orig"
  by (simp add: icmp_error_msg_def)

lemma le16_zero: "le16_bytes 0 = [0, 0]"
  by (simp add: le16_bytes_def)

lemma write_error_msg:
  assumes "length xs = 36" "length orig = 28"
  shows "overwrite (overwrite (overwrite (overwrite (overwrite (overwrite (overwrite xs 0 [type]) 1 [code]) 4 (le16_bytes 0))
      6 (le16_bytes 0)) 8 orig) 2 (le16_bytes 0)) 2 (le16_bytes c) = [type, code] @ le16_bytes c @ [0, 0, 0, 0] @ orig"
  using assms by (simp add: overwrite_def le16_zero)

definition readable :: "nat \<Rightarrow> pbuf \<Rightarrow> bool" where
  "readable n b \<longleftrightarrow> (\<exists>off. payload b = Some off \<and> 0 \<le> off \<and> nat off + n \<le> length (area b))"

definition front :: "nat \<Rightarrow> pbuf \<Rightarrow> bytes" where
  "front n b = take n (drop (nat (the (payload b))) (area b))"

lemma peek_front:
  assumes "pbufs (pheap s) p = Some b" "readable n b" "k + m \<le> n" "0 < m"
  shows "peek_at p k m s = Some (take m (drop k (front n b)))"
proof -
  obtain off where off: "payload b = Some off" "0 \<le> off" "nat off + n \<le> length (area b)" using assms(2) by (auto simp: readable_def)
  let ?pre = "take (nat off) (area b)"
  have "payload b = Some (int (length ?pre))" "area b = ?pre @ drop (nat off) (area b)" "k + m \<le> length (drop (nat off) (area b))"
    using off assms(3) by auto
  from payload_read_area [OF this] have "payload_read b k m = Some (take m (drop k (drop (nat off) (area b))))" using assms(4) by simp
  moreover have "take m (drop k (drop (nat off) (area b))) = take m (drop k (front n b))"
    using assms(3) off(1) by (simp add: front_def drop_take)
  ultimately show ?thesis using assms(1) by (simp add: peek_at_def)
qed

lemma length_front: "readable n b \<Longrightarrow> length (front n b) = n"
  by (auto simp: readable_def front_def)

lemma peek_fits:
  assumes "payload b = Some (int (length pre))" "n \<le> length xs" "0 < n"
  shows "peek_at p 0 n (set_view p b pre xs s) = Some (take n xs)"
  using peek_view [OF assms(1), of 0 n xs p s] assms(2,3) by simp

lemma error_msg_head:
  assumes "length xs = 36" "length orig = 28"
  shows "overwrite (overwrite (overwrite (overwrite (overwrite (overwrite xs 0 [type]) 1 [code]) 4 (le16_bytes 0))
      6 (le16_bytes 0)) 8 orig) 2 (le16_bytes 0) = [type, code, 0, 0, 0, 0, 0, 0] @ orig"
  using assms by (simp add: overwrite_def le16_zero)

lemma overwrite_field:
  assumes "length ds = length ds'" "length pre + length ds \<le> n"
  shows "overwrite (pre @ ds @ post) (length pre) ds' = pre @ ds' @ post"
  using assms by (simp add: overwrite_def)

definition word_at :: "bytes \<Rightarrow> nat \<Rightarrow> u32" where
  "word_at xs k = le32_of_bytes (xs ! k) (xs ! (k + 1)) (xs ! (k + 2)) (xs ! (k + 3))"

lemma peek32_front:
  assumes "pbufs (pheap s) p = Some b" "readable n b" "k + 4 \<le> n"
  shows "peek32 p k s = Some (word_at (front n b) k)"
  using peek_front [OF assms(1,2,3)] length_front [OF assms(2)] assms(3)
  by (simp add: peek32_def word_at_def add.commute)

lemma peek32_other [simp]: "p \<noteq> q \<Longrightarrow> peek32 p k (set_view q b pre xs s) = peek32 p k s"
  by (simp add: peek32_def)

lemma icmp_pbuf_view:
  "payload b = Some (int (length pre)) \<Longrightarrow> s\<lparr>pheap := put q (b\<lparr>area := pre @ xs\<rparr>) (pheap s)\<rparr> = set_view q b pre xs s"
  by (simp add: set_view_def)

lemma send_response_eq:
  assumes "pbufs (pheap s) p = Some b" "readable 28 b" "link_malloc env (pheap s) (ram_size 36 36) = Some q" "pbufs (pheap s) q = None"
    and pre_def: "pre = map (stale (pheap s) q) [0..<36]"
  shows "\<exists>ys. length ys = 36 \<and> icmp_send_response E env p type code s =
    (case ip4_route env (word_at (front 28 b) 12) of
       None \<Rightarrow> free_pbuf q (s\<lparr>pheap := put q (ram_pbuf 36 36 (pre @ ys)) (pheap s)\<rparr>)
     | Some ni \<Rightarrow> do {
         (_, t) \<leftarrow> ip4_output_if E env q None (Some (word_at (front 28 b) 12)) ICMP_TTL 0 IP_PROTO_ICMP ni
           (s\<lparr>pheap := put q (ram_pbuf 36 36 (pre @ icmp_error_msg type code (odd_at E q) (front 28 b))) (pheap s)\<rparr>);
         free_pbuf q t })"
proof -
  let ?nb = "ram_pbuf 36 36 []" and ?orig = "front 28 b"
  let ?sv = "\<lambda>xs. set_view q ?nb pre xs s"
  have pq: "p \<noteq> q" using assms(1,4) by auto
  have ml: "payload ?nb = Some (int (length pre))" by (simp add: pre_def)
  obtain xs where st: "map (stale (pheap s) q) [0..<72] = pre @ xs" "length xs = 36"
  proof
    show "map (stale (pheap s) q) [0..<72] = pre @ drop 36 (map (stale (pheap s) q) [0..<72])"
      using append_take_drop_id [of 36 "map (stale (pheap s) q) [0..<72]"] by (simp only: take_map take_upt pre_def) simp
  qed simp
  have lx: "36 \<le> length xs" "length xs = 36" "length ?orig = 28" using length_front [OF assms(2)] st(2) by simp_all
  have al: "pbuf_alloc (link_malloc env (pheap s)) PBUF_IP (of_nat (SIZEOF_ICMP_ECHO_HDR + IP_HLEN + ICMP_DEST_UNREACH_DATASIZE)) PBUF_RAM (pheap s)
      = Some (Some q, put q (?nb\<lparr>area := pre @ xs\<rparr>) (pheap s))"
    using alloc_ram [of PBUF_IP 36] assms(3) st(1) by (simp add: SIZEOF_ICMP_ECHO_HDR_def IP_HLEN_def ICMP_DEST_UNREACH_DATASIZE_def
        PBUF_LINK_ENCAPSULATION_HLEN_def PBUF_LINK_HLEN_def PBUF_IP_HLEN_def SIZEOF_STRUCT_PBUF_def)
  have rd: "peek_at p 0 28 s = Some ?orig" "peek32 p 12 s = Some (word_at ?orig 12)"
    using peek_front [OF assms(1,2), of 0 28] peek32_front [OF assms(1,2), of 12] lx(3) by simp_all
  let ?y = "overwrite (overwrite (overwrite (overwrite (overwrite xs 0 [type]) 1 [code]) 4 (le16_bytes 0)) 6 (le16_bytes 0)) 8 ?orig"
  note hd = error_msg_head [OF lx(2,3), of type code]
  have sv: "s\<lparr>pheap := put q (?nb\<lparr>area := pre @ xs\<rparr>) (pheap s)\<rparr> = ?sv xs" by (rule icmp_pbuf_view [OF ml])
  note pk = poke_fits [OF ml, of 36] overwrite_fits [of 36]
  have ly: "36 \<le> length ?y" using lx by (simp add: pk(2) del: length_overwrite)
  have ne: "?orig \<noteq> []" using lx(3) by auto
  have tk: "take 36 (overwrite ?y 2 (le16_bytes 0)) = overwrite ?y 2 (le16_bytes 0)" using lx(3) unfolding hd by simp
  have "icmp_send_response E env p type code s =
    (case ip4_route env (word_at ?orig 12) of
       None \<Rightarrow> free_pbuf q (?sv ?y)
     | Some ni \<Rightarrow> do {
         (_, t) \<leftarrow> ip4_output_if E env q None (Some (word_at ?orig 12)) ICMP_TTL 0 IP_PROTO_ICMP ni
           (?sv (overwrite (overwrite ?y 2 (le16_bytes 0)) 2 (le16_bytes (inet_chksum (odd_at E q) (overwrite ?y 2 (le16_bytes 0))))));
         free_pbuf q t })"
    unfolding icmp_send_response_def al sv Let_def Option.bind.bind_lunit prod.case option.case
    using pq lx ne tk
    by (simp add: pk rd split_def peek_fits [OF ml, of 36] SIZEOF_ICMP_ECHO_HDR_def IP_HLEN_def ICMP_DEST_UNREACH_DATASIZE_def
        split: option.split del: length_overwrite)
  also have "overwrite (overwrite ?y 2 (le16_bytes 0)) 2 (le16_bytes (inet_chksum (odd_at E q) (overwrite ?y 2 (le16_bytes 0)))) =
      icmp_error_msg type code (odd_at E q) ?orig"
    unfolding hd using write_error_msg [OF lx(2,3)] by (simp add: icmp_error_msg_def overwrite_def le16_zero)
  finally have "icmp_send_response E env p type code s =
    (case ip4_route env (word_at ?orig 12) of
       None \<Rightarrow> free_pbuf q (?sv ?y)
     | Some ni \<Rightarrow> do {
         (_, t) \<leftarrow> ip4_output_if E env q None (Some (word_at ?orig 12)) ICMP_TTL 0 IP_PROTO_ICMP ni
           (?sv (icmp_error_msg type code (odd_at E q) ?orig));
         free_pbuf q t })" .
  moreover have "length ?y = 36" using lx by simp
  ultimately show ?thesis unfolding set_view_def ram_pbuf_simps by blast
qed

definition link_mtu :: "link_env \<Rightarrow> bool" where
  "link_mtu env \<longleftrightarrow> (\<forall>ni. mtu (netif_of env ni) = 0 \<or> 56 \<le> unat (mtu (netif_of env ni)))"

lemma ram_pbuf_ok:
  assumes "length pre = off" "length ds = unat n" "n \<noteq> 0"
  shows "head_ok (ram_pbuf off n (pre @ ds))" "pdata (ram_pbuf off n (pre @ ds)) = ds" "packet [ram_pbuf off n (pre @ ds)]"
    "no_empty [ram_pbuf off n (pre @ ds)]"
  using assms by (auto simp: head_ok_def pdata_def payload_ok_def)

text \<open>What an ICMP message about the packet \<open>b\<close> is sent for: the bytes on the link, if there is memory
  for it and a way back to the sender.\<close>

definition error_sent :: "'s ip_env \<Rightarrow> link_env \<Rightarrow> u8 \<Rightarrow> u8 \<Rightarrow> bytes \<Rightarrow> 'a ip_scheme \<Rightarrow> 'a ip_scheme \<Rightarrow> bool" where
  "error_sent E env type code orig s t \<longleftrightarrow> (\<forall>q ni. link_malloc env (pheap s) (ram_size 36 36) = Some q \<longrightarrow>
     ip4_route env (word_at orig 12) = Some ni \<longrightarrow>
     ip_goes_out env ni (word_at orig 12)
       (out_header 36 (ip_id s) ICMP_TTL 0 IP_PROTO_ICMP (ip_addr (netif_of env ni)) (word_at orig 12) @
        icmp_error_msg type code (odd_at E q) orig) s t)"

lemma send_response_total:
  assumes "arp_good P s" "p \<in> P" "link_ok env" "link_mtu env" "pbufs (pheap s) p = Some b" "readable 28 b"
  shows "\<exists>t l. icmp_send_response E env p type code s = Some t \<and> arp_good P t \<and> keeps P (pheap s) (pheap t) \<and> sent t = sent s @ l \<and>
    error_sent E env type code (front 28 b) s t"
proof (cases "link_malloc env (pheap s) (ram_size 36 36)")
  case None
  have "pbuf_alloc (link_malloc env (pheap s)) PBUF_IP (of_nat (SIZEOF_ICMP_ECHO_HDR + IP_HLEN + ICMP_DEST_UNREACH_DATASIZE)) PBUF_RAM (pheap s)
      = Some (None, pheap s)"
    using None alloc_ram [of PBUF_IP 36] by (simp add: SIZEOF_ICMP_ECHO_HDR_def IP_HLEN_def ICMP_DEST_UNREACH_DATASIZE_def
        PBUF_LINK_ENCAPSULATION_HLEN_def PBUF_LINK_HLEN_def PBUF_IP_HLEN_def SIZEOF_STRUCT_PBUF_def)
  then show ?thesis using assms(1) None by (simp add: icmp_send_response_def Let_def error_sent_def)
next
  case (Some q)
  have q: "pbufs (pheap s) q = None" by (rule link_okD(3) [OF assms(3) Some])
  let ?pre = "map (stale (pheap s) q) [0..<36]" and ?src = "word_at (front 28 b) 12"
  let ?st = "\<lambda>ds. s\<lparr>pheap := put q (ram_pbuf 36 36 (?pre @ ds)) (pheap s)\<rparr>"
  let ?msg = "icmp_error_msg type code (odd_at E q) (front 28 b)"
  have lm: "length ?msg = 36" using length_front [OF assms(6)] by simp
  obtain ys where ys: "length ys = 36" and eq: "icmp_send_response E env p type code s =
    (case ip4_route env ?src of
       None \<Rightarrow> free_pbuf q (?st ys)
     | Some ni \<Rightarrow> do {
         (_, t) \<leftarrow> ip4_output_if E env q None (Some ?src) ICMP_TTL 0 IP_PROTO_ICMP ni (?st ?msg);
         free_pbuf q t })"
    using send_response_eq [OF assms(5,6) Some q refl, of E type code] by blast
  have ok: "head_ok (ram_pbuf 36 36 (?pre @ ds))" "pdata (ram_pbuf 36 36 (?pre @ ds)) = ds" "packet [ram_pbuf 36 36 (?pre @ ds)]"
    "no_empty [ram_pbuf 36 36 (?pre @ ds)]" if "length ds = 36" for ds
    using that ram_pbuf_ok [of ?pre 36 ds 36] by simp_all
  have new: "q \<notin> P" "arp_good (insert q P) (?st ds)" "packet_at (pheap (?st ds)) q [(q, ram_pbuf 36 36 (?pre @ ds))]"
    "keeps P (pheap s) (pheap (?st ds))" if "length ds = 36" for ds
    using arp_good_new [OF assms(1) q _ _ ok(1) [OF that], of "?st ds"] by simp_all
  have fr: "\<exists>h. free_pbuf q u = Some (u\<lparr>pheap := h\<rparr>) \<and> arp_good P (u\<lparr>pheap := h\<rparr>) \<and> keeps P (pheap u) h"
    if "arp_good (insert q P) u" for u :: "'b ip_scheme"
    using arp_good_free [OF that, of q] new(1) [OF ys] by simp
  show ?thesis
  proof (cases "ip4_route env ?src")
    case None
    then show ?thesis using eq fr [OF new(2) [OF ys]] keeps_trans [OF new(4) [OF ys]] by (auto simp: error_sent_def)
  next
    case (Some ni)
    have sd: "ip_sendable env ni (ram_pbuf 36 36 (?pre @ ?msg) # map snd ([] :: (nat \<times> pbuf) list))"
      using ok(3,4) [OF lm] assms(4) by (auto simp: ip_sendable_def sendable_def link_mtu_def)
    have a: "ip_addr (netif_of env ni) = (case Some (ip_addr (netif_of env ni)) of None \<Rightarrow> IPADDR_ANY | Some a \<Rightarrow> a)" by simp
    obtain r t l where t: "ip4_output_if_src E env q (Some (ip_addr (netif_of env ni))) (Some ?src) ICMP_TTL 0 IP_PROTO_ICMP ni (?st ?msg) = Some (r, t)"
      "arp_good (insert q P) t" "keeps (insert q P - {q}) (pheap (?st ?msg)) (pheap t)" "sent t = sent (?st ?msg) @ l"
      "hdr_room 34 (ram_pbuf 36 36 (?pre @ ?msg)) \<longrightarrow> ip_goes_out env ni ?src
        (out_header (total_len (ram_pbuf 36 36 (?pre @ ?msg) # map snd ([] :: (nat \<times> pbuf) list))) (ip_id (?st ?msg)) ICMP_TTL 0 IP_PROTO_ICMP (ip_addr (netif_of env ni)) ?src @
         content (ram_pbuf 36 36 (?pre @ ?msg) # map snd ([] :: (nat \<times> pbuf) list))) (?st ?msg) t"
      using output_if_src_total [OF new(2) [OF lm] insertI1 assms(3) new(3) [OF lm] sd a, of E ?src ICMP_TTL 0 IP_PROTO_ICMP] by blast
    obtain h where h: "free_pbuf q t = Some (t\<lparr>pheap := h\<rparr>)" "arp_good P (t\<lparr>pheap := h\<rparr>)" "keeps P (pheap t) h" using fr [OF t(2)] by blast
    have kp: "keeps P (pheap s) h"
      using keeps_trans [OF keeps_trans [OF new(4) [OF lm] keeps_mono [OF t(3)]] h(3)] new(1) [OF lm] by simp
    have "ip_goes_out env ni ?src (out_header 36 (ip_id s) ICMP_TTL 0 IP_PROTO_ICMP (ip_addr (netif_of env ni)) ?src @ ?msg) (?st ?msg) t"
      using t(5) ok(2) [OF lm] by (simp add: hdr_room_def)
    then have "error_sent E env type code (front 28 b) s (t\<lparr>pheap := h\<rparr>)"
      using Some \<open>link_malloc env (pheap s) (ram_size 36 36) = Some q\<close> by (auto simp: error_sent_def ip_goes_out_def resolved_def)
    moreover have "icmp_send_response E env p type code s = Some (t\<lparr>pheap := h\<rparr>)"
      using eq Some t(1) h(1) by (simp add: ip4_output_if_def ip4_addr_isany_def)
    ultimately show ?thesis using h(2) kp t(4) by auto
  qed
qed

section \<open>The echo reply\<close>

text \<open>The IP header and the ICMP message of the answer, from those of the request.\<close>

definition echo_hdr :: "bool \<Rightarrow> bytes \<Rightarrow> u32 \<Rightarrow> u32 \<Rightarrow> bytes" where
  "echo_hdr od hdr src dest =
     (let h = (\<lambda>c. take 8 hdr @ [ICMP_TTL] @ take 1 (drop 9 hdr) @ le16_bytes c @ le32_bytes src @ le32_bytes dest @ drop 20 hdr)
      in h (inet_chksum od (h 0)))"

definition echo_msg :: "bytes \<Rightarrow> bytes" where
  "echo_msg m = [ICMP_ER, m ! 1] @ le16_bytes (echo_chksum (le16_of_bytes (m ! 2) (m ! 3))) @ drop 4 m"

lemma length_echo [simp]: "20 \<le> length hdr \<Longrightarrow> length (echo_hdr od hdr src dest) = length hdr"
    "4 \<le> length m \<Longrightarrow> length (echo_msg m) = length m"
  by (simp_all add: echo_hdr_def echo_msg_def Let_def)

lemma chksum_filled:
  assumes "even (length pre)" "length pre + length post \<le> 65533"
  shows "inet_chksum p (pre @ le16_bytes (inet_chksum q (pre @ le16_bytes 0 @ post)) @ post) = 0"
proof -
  let ?c = "inet_chksum q (pre @ le16_bytes 0 @ post)"
  have "word_sum (pre @ le16_bytes w @ post) = word_sum pre + word_sum post + unat w" for w
    using assms(1) by (simp add: word_sum_even word_sum_le16)
  moreover have "unat ?c = 65535 - ones (word_sum (pre @ le16_bytes 0 @ post))" using assms(2) by (intro unat_inet_chksum) simp
  ultimately show ?thesis using assms(2) ones_complement [of ?c "word_sum pre + word_sum post"] by (subst chksum_zero_iff) simp_all
qed

lemma echo_hdr_verifies: "20 \<le> length hdr \<Longrightarrow> length hdr \<le> 60 \<Longrightarrow> inet_chksum p (echo_hdr od hdr src dest) = 0"
  using chksum_filled [of "take 8 hdr @ [ICMP_TTL] @ take 1 (drop 9 hdr)" "le32_bytes src @ le32_bytes dest @ drop 20 hdr" p od]
  by (simp add: echo_hdr_def Let_def)

lemma echo_chksum_nat:
  "unat (echo_chksum c) = (if 65527 < unat c then unat c + 8 - 65535 else unat c + 8)"
proof -
  have p: "PP_HTONS (push_bit 8 (ucast ICMP_ECHO)) = 8" "PP_HTONS (0xffff - push_bit 8 (ucast ICMP_ECHO)) = 0xfff7"
    by (simp_all add: PP_HTONS_def ICMP_ECHO_def)
  show ?thesis
  proof (cases "65527 < unat c")
    case True
    have lt: "unat c - 65527 < 65536" using unat_u16_less [of c] by linarith
    have "unat (c + 9) = (unat c + 9) mod 65536" by (simp add: unat_word_ariths)
    also have "\<dots> = unat c + 9 - 65536" using True mod_less [of "unat c - 65527" 65536] lt by (simp add: le_mod_geq)
    finally show ?thesis using True by (simp add: echo_chksum_def p word_less_nat_alt add.assoc)
  next
    case False
    then have "unat (c + 8) = unat c + 8" using unat_add_u16 [of c 8] by simp
    then show ?thesis using False by (simp add: echo_chksum_def p word_less_nat_alt)
  qed
qed

lemma first_four: "4 \<le> length m \<Longrightarrow> \<exists>a b c d ds. m = a # b # c # d # ds"
  by (cases m; cases "tl m"; cases "tl (tl m)"; cases "tl (tl (tl m))") auto

lemma echo_msg_verifies:
  assumes "inet_chksum p m = 0" "8 \<le> length m" "length m \<le> 65535" "m ! 0 = ICMP_ECHO"
  shows "inet_chksum q (echo_msg m) = 0"
proof -
  obtain a b c d ds where m: "m = a # b # c # d # ds"
    using first_four [of m] assms(2) by auto
  let ?c = "le16_of_bytes c d" and ?W = "256 * unat b + word_sum ds"
  have a: "unat a = 8" using assms(4) m by (simp add: ICMP_ECHO_def)
  have s: "word_sum m = 8 + unat ?c + ?W" using a m by (simp add: le16_of_bytes_nat)
  have e: "word_sum (echo_msg m) = unat (echo_chksum ?c) + ?W"
    using word_sum_even [of "le16_bytes (echo_chksum ?c)" ds] m by (simp add: echo_msg_def ICMP_ER_def word_sum_le16)
  have "unat ?c < 65536" by (rule unat_u16_less)
  then have nz: "unat (echo_chksum ?c) \<noteq> 0" by (simp add: echo_chksum_nat)
  have "8 + unat ?c + ?W = unat (echo_chksum ?c) + ?W \<or> 8 + unat ?c + ?W = unat (echo_chksum ?c) + ?W + 65535"
    unfolding echo_chksum_nat by auto
  then have "(unat (echo_chksum ?c) + ?W) mod 65535 = (8 + unat ?c + ?W) mod 65535" by (auto simp only: mod_add_self2)
  then have "ones (word_sum (echo_msg m)) = ones (word_sum m)" unfolding s e using nz by (intro ones_cong) simp_all
  then show ?thesis using assms(1-3) by (simp add: chksum_zero_iff)
qed

lemma poke_hdr:
  assumes "payload b = Some (int (length pre))" "k + length ds \<le> length hdr" "ds \<noteq> []"
  shows "poke p k ds (set_view p b pre (hdr @ rest) s) = Some (set_view p b pre (overwrite hdr k ds @ rest) s)"
  using poke_view [OF assms(1), of k ds "hdr @ rest" p s] assms(2,3) by (simp add: overwrite_def)

lemma poke_rest:
  assumes "payload b = Some (int (length pre))" "length hdr = n" "k + length ds \<le> length rest" "ds \<noteq> []"
  shows "poke p (n + k) ds (set_view p b pre (hdr @ rest) s) = Some (set_view p b pre (hdr @ overwrite rest k ds) s)"
  using poke_view [OF assms(1), of "n + k" ds "hdr @ rest" p s] assms(2-4) overwrite_append [of hdr rest k ds] by simp

lemma overwrite_echo_hdr:
  assumes "20 \<le> length hdr"
  shows "overwrite (overwrite (overwrite (overwrite hdr 12 (le32_bytes src)) 16 (le32_bytes dest)) 8 [ICMP_TTL]) 10 (le16_bytes c) =
    take 8 hdr @ [ICMP_TTL] @ take 1 (drop 9 hdr) @ le16_bytes c @ le32_bytes src @ le32_bytes dest @ drop 20 hdr"
proof -
  define a where "a = take 8 hdr"
  define m where "m = take 4 (drop 8 hdr)"
  define l where "l = take 8 (drop 12 hdr)"
  have h: "hdr = a @ m @ l @ drop 20 hdr" unfolding a_def m_def l_def
    using append_take_drop_id [of 8 hdr] append_take_drop_id [of 4 "drop 8 hdr"] append_take_drop_id [of 8 "drop 12 hdr"] by (simp add: add.commute)
  have len: "length a = 8" "length m = 4" "length l = 8" using assms by (simp_all add: a_def m_def l_def)
  obtain m0 m1 m2 m3 where m: "m = [m0, m1, m2, m3]" using len(2) by (auto simp: length_Suc_conv numeral_eq_Suc)
  show ?thesis by (subst (1 2 3 4) h) (simp add: overwrite_def len m)
qed

lemma peek16_view:
  assumes "payload b = Some (int (length pre))" "length hdr = n" "k + 2 \<le> length rest"
  shows "peek16 p (n + k) (set_view p b pre (hdr @ rest) s) = Some (le16_of_bytes (rest ! k) (rest ! (k + 1)))"
proof -
  have "peek_at p (n + k) 2 (set_view p b pre (hdr @ rest) s) = Some (take 2 (drop k rest))"
    using peek_view [OF assms(1), of "n + k" 2 "hdr @ rest" p s] assms(2,3) by simp
  then show ?thesis using assms(3) by (simp add: peek16_def)
qed

lemma peek_hdr:
  assumes "payload b = Some (int (length pre))" "length hdr = n" "0 < n"
  shows "peek_at p 0 n (set_view p b pre (hdr @ rest) s) = Some hdr"
  using peek_view [OF assms(1), of 0 n "hdr @ rest" p s] assms(2,3) by simp

lemma echo_reply_eq:
  assumes "pbufs (pheap s) q = Some b" "payload b = Some (int (length pre + length hdr))" "area b = pre @ hdr @ rest"
    and "ptype b \<in> {PBUF_RAM, PBUF_POOL}" "length hdr = unat hlen" "20 \<le> length hdr" "4 \<le> length rest"
    and m_def: "m = b\<lparr>payload := Some (int (length pre)), len := len b + hlen, tot_len := tot_len b + hlen\<rparr>"
  shows "echo_reply E env q inp hlen src s = map_option snd (ip4_output_if E env q (Some src) None ICMP_TTL 0 IP_PROTO_ICMP inp
    (set_view q m pre (echo_hdr (odd_at E q) hdr src (current_iphdr_src s) @ echo_msg rest) s))"
proof -
  let ?d = "current_iphdr_src s"
  have ml: "payload m = Some (int (length pre))" by (simp add: m_def)
  have nz: "uint hlen \<noteq> 0" using assms(5,6) by (auto simp: unsigned_eq_0_iff)
  have ph: "pbuf_header (Some q) (int (unat hlen)) (pheap s) = Some (0, put q m (pheap s))"
    using assms(1,2,4,5) nz by (auto simp: pbuf_header_def pbuf_header_impl_def Let_def m_def)
  have "m\<lparr>area := pre @ hdr @ rest\<rparr> = m" using assms(3) by (simp add: m_def)
  then have st: "s\<lparr>pheap := put q m (pheap s)\<rparr> = set_view q m pre (hdr @ rest) s" by (simp add: set_view_def)
  let ?hb = "overwrite (overwrite hdr 12 (le32_bytes src)) 16 (le32_bytes ?d)" and ?rb = "overwrite rest 0 [ICMP_ER]"
  let ?h = "overwrite ?hb 8 [ICMP_TTL]" and ?c = "echo_chksum (le16_of_bytes (?rb ! 2) (?rb ! 3))"
  let ?r = "overwrite ?rb 2 (le16_bytes ?c)" and ?hz = "overwrite (overwrite ?hb 8 [ICMP_TTL]) 10 (le16_bytes 0)"
  let ?sv = "\<lambda>h r. set_view q m pre (h @ r) s"
  have lh: "length hdr = unat hlen" "length ?hb = unat hlen" "length ?h = unat hlen" "length ?hz = unat hlen" "20 \<le> unat hlen" "4 \<le> length ?rb"
    using assms(5-7) by simp_all
  have p1: "poke q 12 (le32_bytes src) (?sv hdr rest) = Some (?sv (overwrite hdr 12 (le32_bytes src)) rest)"
    "poke q 16 (le32_bytes ?d) (?sv (overwrite hdr 12 (le32_bytes src)) rest) = Some (?sv ?hb rest)"
    using lh(1,5) by (simp_all add: poke_hdr [OF ml])
  have p2: "poke q (unat hlen) [ICMP_ER] (?sv ?hb rest) = Some (?sv ?hb ?rb)"
    using poke_rest [OF ml lh(2), of 0 "[ICMP_ER]" rest] assms(7) by simp
  have p3: "peek16 q (unat hlen + 2) (?sv ?hb ?rb) = Some (le16_of_bytes (?rb ! 2) (?rb ! 3))"
    "poke q (unat hlen + 2) (le16_bytes ?c) (?sv ?hb ?rb) = Some (?sv ?hb ?r)"
    using peek16_view [OF ml lh(2), of 2 ?rb] poke_rest [OF ml lh(2), of 2 "le16_bytes ?c" ?rb] lh(6) by simp_all
  have p4: "poke q 8 [ICMP_TTL] (?sv ?hb ?r) = Some (?sv ?h ?r)" using lh(2,5) by (intro poke_hdr [OF ml]) simp_all
  have p5: "poke q 10 (le16_bytes 0) (?sv ?h ?r) = Some (?sv ?hz ?r)"
    by (rule poke_hdr [OF ml]) (use lh(3,5) in \<open>simp_all del: length_overwrite\<close>)
  have p6: "peek_at q 0 (unat hlen) (?sv ?hz ?r) = Some ?hz" by (rule peek_hdr [OF ml lh(4)]) (use lh(5) in simp)
  have p7: "poke q 10 (le16_bytes c) (?sv ?hz ?r) = Some (?sv (overwrite ?hz 10 (le16_bytes c)) ?r)" for c
    by (rule poke_hdr [OF ml]) (use lh(4,5) in \<open>simp_all del: length_overwrite\<close>)
  have "overwrite ?hz 10 (le16_bytes (inet_chksum (odd_at E q) ?hz)) = echo_hdr (odd_at E q) hdr src ?d"
    unfolding overwrite_echo_hdr [OF assms(6)] echo_hdr_def Let_def using assms(6) by (simp add: overwrite_def)
  moreover have "?r = echo_msg rest" using first_four [OF assms(7)] by (auto simp: overwrite_def echo_msg_def)
  moreover have "echo_reply E env q inp hlen src s = map_option snd (ip4_output_if E env q (Some src) None ICMP_TTL 0 IP_PROTO_ICMP inp
      (?sv (overwrite ?hz 10 (le16_bytes (inet_chksum (odd_at E q) ?hz))) ?r))"
    unfolding echo_reply_def ph Let_def Option.bind.bind_lunit prod.case st
    by (simp only: simp_thms if_False if_True p1 p2 p3 p4 p5 p6 p7 Option.bind.bind_lunit set_view_ip)
      (simp add: split_def map_conv_bind_option comp_def)
  ultimately show ?thesis by simp
qed

lemma echo_msg_split: "4 \<le> n \<Longrightarrow> n \<le> length m \<Longrightarrow> echo_msg (take n m @ ds) = take n (echo_msg m) @ ds"
proof -
  assume n: "4 \<le> n" "n \<le> length m"
  then obtain a b c d es where m: "m = a # b # c # d # es" using first_four [of m] by auto
  have "n = Suc (Suc (Suc (Suc (n - 4))))" using n(1) by simp
  then obtain k where "n = Suc (Suc (Suc (Suc k)))" by blast
  then show ?thesis unfolding m by (simp add: echo_msg_def le16_bytes_def)
qed

lemma echo_hdr_dest: "20 \<le> length hdr \<Longrightarrow> take 4 (drop 16 (echo_hdr od hdr src dest)) = le32_bytes dest"
  by (simp add: echo_hdr_def Let_def)

text \<open>Room for the IP header, which is still in front of the message.\<close>

definition ip_view :: "bytes \<Rightarrow> bytes \<Rightarrow> bytes \<Rightarrow> pbuf \<Rightarrow> bool" where
  "ip_view pre hdr rest b \<longleftrightarrow> payload b = Some (int (length pre + length hdr)) \<and> area b = pre @ hdr @ rest"

lemma echo_pbuf:
  assumes "ip_view pre hdr rest b" "ptype b \<in> {PBUF_RAM, PBUF_POOL}" "head_ok b" "4 \<le> unat (len b)" "20 \<le> length hdr" "length hdr = unat hlen"
    and "sendable (b # bs)" "40 + length hdr + total_len (b # bs) < 65536"
    and c_def: "c = b\<lparr>payload := Some (int (length pre)), len := len b + hlen, tot_len := tot_len b + hlen,
          area := pre @ echo_hdr od hdr src d @ echo_msg rest\<rparr>"
  shows "sendable (c # bs)" "content (c # bs) = echo_hdr od hdr src d @ echo_msg (content (b # bs))"
    "unat (tot_len c) = length hdr + unat (tot_len b)" "head_ok c" "14 \<le> length pre \<Longrightarrow> has_room c"
proof -
  let ?H = "echo_hdr od hdr src d" and ?b = "b\<lparr>area := pre @ hdr @ echo_msg rest\<rparr>"
  have v: "payload b = Some (int (length pre + length hdr))" "area b = pre @ hdr @ rest" using assms(1) by (simp_all add: ip_view_def)
  have len: "unat (len b) \<le> length rest" using assms(3) v by (auto simp: head_ok_def nat_add_distrib)
  have H: "length ?H = length hdr" using assms(5) by simp
  have i: "nat (int (length pre + length hdr)) = length pre + length hdr" by simp
  have c: "c = prepend ?H ?b" using v H assms(6) by (simp add: c_def prepend_def Let_def i del: of_nat_add)
  have hok: "head_ok ?b" using v len assms(4) by (auto simp: head_ok_def nat_add_distrib)
  then have "payload_ok ?b" by (auto simp: head_ok_def payload_ok_def)
  then have sd: "sendable (?b # bs)" using assms(7) by (simp add: sendable_def)
  have room: "hdr_room (length ?H) ?b" using v(1) assms(2) H by (simp add: hdr_room_def)
  have bound: "40 + length ?H + total_len (?b # bs) < 65536" using assms(8) H by simp
  have "pdata ?b = take (unat (len b)) (echo_msg rest)" using v(1) i by (simp add: pdata_def del: of_nat_add)
  moreover have "pdata b = take (unat (len b)) rest" using v i by (simp add: pdata_def del: of_nat_add)
  ultimately have ct: "content (?b # bs) = echo_msg (content (b # bs))" using echo_msg_split [OF assms(4) len] by simp
  note sp = sendable_prepend [OF sd room hok bound]
  show "sendable (c # bs)" "content (c # bs) = ?H @ echo_msg (content (b # bs))" "unat (tot_len c) = length hdr + unat (tot_len b)"
    using sp ct H unfolding c by simp_all
  have l: "unat (len ?b) + length ?H < 65536" using bound by simp
  note po = prepend_ok [OF hok room l]
  show "head_ok c" using po(1) c by simp
  show "has_room c" if "14 \<le> length pre"
    unfolding has_room_iff c using that v(1) assms(2) H by (intro po(7)) (simp add: hdr_room_def)
qed

lemma output_included_total:
  assumes "arp_good P s" "q \<in> P" "link_ok env" "packet_at (pheap s) q ((q, b) # xs)" "sendable (b # map snd xs)" "ref b = 1"
    and "mtu (netif_of env ni) = 0 \<or> unat (tot_len b) \<le> unat (mtu (netif_of env ni))" "peek32 q 16 s = Some d"
  shows "\<exists>r t. ip4_output_if E env q src None ttl tos proto ni s = Some (r, t) \<and> arp_good P t \<and> keeps (P - {q}) (pheap s) (pheap t) \<and>
    (\<exists>l. sent t = sent s @ l) \<and> (has_room b \<longrightarrow> ip_goes_out env ni d (content (b # map snd xs)) s t)"
proof -
  have b: "pbufs (pheap s) q = Some b" using packet_at_Cons [OF assms(4)] by auto
  have "\<not> (mtu (netif_of env ni) \<noteq> 0 \<and> mtu (netif_of env ni) < tot_len b)" using assms(7) by (auto simp: word_less_nat_alt)
  then have "ip4_output_if E env q src None ttl tos proto ni s = etharp_output env ni q d s"
    using b assms(6,8) by (auto simp: ip4_output_if_def ip4_output_if_src_def Let_def)
  then show ?thesis using output_ip_total [OF assms(1-5), of ni d] by simp
qed

text \<open>The pbuf \<open>b\<close> with the message behind the header \<open>hdr\<close> can be turned into the answer in place.\<close>

definition answerable :: "link_env \<Rightarrow> nat \<Rightarrow> bytes \<Rightarrow> bytes \<Rightarrow> bytes \<Rightarrow> pbuf \<Rightarrow> pbuf list \<Rightarrow> bool" where
  "answerable env ni pre hdr rest b bs \<longleftrightarrow> ip_view pre hdr rest b \<and> ptype b \<in> {PBUF_RAM, PBUF_POOL} \<and> ref b = 1 \<and> 4 \<le> unat (len b) \<and>
     20 \<le> length hdr \<and> sendable (b # bs) \<and> 40 + length hdr + total_len (b # bs) < 65536 \<and>
     (mtu (netif_of env ni) = 0 \<or> length hdr + total_len (b # bs) \<le> unat (mtu (netif_of env ni)))"

lemma echo_reply_total:
  assumes "arp_good P s" "q \<in> P" "link_ok env" "packet_at (pheap s) q ((q, b) # xs)"
    and "answerable env inp pre hdr rest b (map snd xs)" "length hdr = unat hlen"
  shows "\<exists>t l. echo_reply E env q inp hlen src s = Some t \<and> arp_good P t \<and> keeps (P - {q}) (pheap s) (pheap t) \<and> sent t = sent s @ l \<and>
    (14 \<le> length pre \<longrightarrow> ip_goes_out env inp (current_iphdr_src s)
       (echo_hdr (odd_at E q) hdr src (current_iphdr_src s) @ echo_msg (content (b # map snd xs))) s t)"
proof -
  let ?d = "current_iphdr_src s"
  let ?m = "b\<lparr>payload := Some (int (length pre)), len := len b + hlen, tot_len := tot_len b + hlen\<rparr>"
  let ?H = "echo_hdr (odd_at E q) hdr src ?d" and ?R = "echo_msg rest"
  let ?c = "b\<lparr>payload := Some (int (length pre)), len := len b + hlen, tot_len := tot_len b + hlen, area := pre @ ?H @ ?R\<rparr>"
  let ?t = "set_view q ?m pre (?H @ ?R) s"
  have b: "pbufs (pheap s) q = Some b" "head_ok b" using packet_at_Cons [OF assms(4)] by auto
  have a: "ip_view pre hdr rest b" "ptype b \<in> {PBUF_RAM, PBUF_POOL}" "ref b = 1" "4 \<le> unat (len b)" "20 \<le> length hdr"
    "sendable (b # map snd xs)" "40 + length hdr + total_len (b # map snd xs) < 65536"
    "mtu (netif_of env inp) = 0 \<or> length hdr + total_len (b # map snd xs) \<le> unat (mtu (netif_of env inp))"
    using assms(5) by (simp_all add: answerable_def)
  have v: "payload b = Some (int (length pre + length hdr))" "area b = pre @ hdr @ rest" using a(1) by (simp_all add: ip_view_def)
  have "unat (len b) \<le> length rest" using b(2) v by (auto simp: head_ok_def nat_add_distrib)
  then have r4: "4 \<le> length rest" using a(4) by simp
  note p = echo_pbuf [OF a(1,2) b(2) a(4,5) assms(6) a(6,7) refl, where od = "odd_at E q" and src = src and d = ?d]
  have tf: "pheap ?t = put q ?c (pheap s)" "arp_table ?t = arp_table s" "etharp_cached_entry ?t = etharp_cached_entry s" by simp_all
  have rf: "0 < ref ?c" using a(3) by simp
  have nx: "pnext ?c = pnext b" by simp
  note g = arp_good_put [OF assms(1,2,4) nx rf p(4) tf]
  have ml: "payload ?m = Some (int (length pre))" by simp
  have "peek_at q 16 4 ?t = Some (le32_bytes ?d)"
    using peek_view [OF ml, of 16 4 "?H @ ?R" q s] echo_hdr_dest [OF a(5)] a(5) by simp
  then have pk: "peek32 q 16 ?t = Some ?d" by (simp add: peek32_def)
  have "total_len (b # map snd xs) = unat (tot_len b)" using a(6) by (simp add: sendable_def)
  then have mt: "mtu (netif_of env inp) = 0 \<or> unat (tot_len ?c) \<le> unat (mtu (netif_of env inp))" using a(8) p(3) by simp
  obtain r t l where t: "ip4_output_if E env q (Some src) None ICMP_TTL 0 IP_PROTO_ICMP inp ?t = Some (r, t)" "arp_good P t"
    "keeps (P - {q}) (pheap ?t) (pheap t)" "sent t = sent ?t @ l" "has_room ?c \<longrightarrow> ip_goes_out env inp ?d (content (?c # map snd xs)) ?t t"
    using output_included_total [OF g(1) assms(2,3) g(2) p(1) _ mt pk, of E "Some src" ICMP_TTL 0 IP_PROTO_ICMP] a(3) by auto
  have "echo_reply E env q inp hlen src s = Some t"
    using echo_reply_eq [OF b(1) v a(2) assms(6) a(5) r4 refl, of E env inp src] t(1) by simp
  moreover have "ip_goes_out env inp ?d (?H @ echo_msg (content (b # map snd xs))) s t" if r: "14 \<le> length pre"
  proof -
    have "ip_goes_out env inp ?d (?H @ echo_msg (content (b # map snd xs))) ?t t" using t(5) p(2) p(5) [OF r] by simp
    then show ?thesis by (subst ip_goes_out_cong [of s ?t]) simp_all
  qed
  ultimately show ?thesis using t(2,4) keeps_trans [OF g(3) t(3)] by auto
qed

lemma ip_view_read:
  assumes "ip_view pre hdr rest b" "hdr \<noteq> []" "pbufs (pheap s) p = Some b"
  shows "ptr_read (p, int (length pre)) 0 (length hdr) s = Some hdr"
  using payload_read_area [of "b\<lparr>payload := Some (int (length pre))\<rparr>" pre "hdr @ rest" 0 "length hdr"] assms
  by (simp add: ptr_read_def ip_view_def)

definition echo_copy_of :: "bytes \<Rightarrow> bytes \<Rightarrow> u16 \<Rightarrow> bytes \<Rightarrow> pbuf" where
  "echo_copy_of pre hdr n ds = ram_pbuf (length pre + length hdr) n (pre @ hdr @ ds)"

lemma echo_copy_eq:
  assumes "packet_at (pheap s) p ((p, b) # xs)" "ip_view pre hdr rest b" "sendable (b # map snd xs)"
    and "40 + length hdr + total_len (b # map snd xs) < 65536" "length hdr = unat hlen" "20 \<le> length hdr" "8 \<le> total_len (b # map snd xs)"
    and "link_malloc env (pheap s) (ram_size 16 (tot_len b + hlen)) = Some r" "pbufs (pheap s) r = None"
    and pr_def: "pr = map (stale (pheap s) r) [0..<16]"
  shows "echo_copy env p (p, int (length pre)) hlen s = do {
    s \<leftarrow> free_pbuf p (s\<lparr>pheap := put r (echo_copy_of pr hdr (tot_len b) (content (b # map snd xs))) (pheap s)\<rparr>);
    Some (Some r, s) }"
proof -
  let ?bs = "b # map snd xs" and ?n = "tot_len b + hlen"
  have b: "pbufs (pheap s) p = Some b" "p \<noteq> r" using packet_at_Cons [OF assms(1)] assms(9) by auto
  have pk: "packet ?bs" "no_empty ?bs" using assms(3) by (simp_all add: sendable_def)
  have tl: "unat (tot_len b) = total_len ?bs" "length (content ?bs) = unat (tot_len b)" using pk(1) length_content [OF pk(1)] by simp_all
  have n: "unat ?n = unat (tot_len b) + length hdr" using assms(4,5) tl(1) unat_add_u16 [of "tot_len b" hlen] by simp
  define m where "m = length hdr + unat (tot_len b)"
  obtain ys where ys: "map (stale (pheap s) r) [0..<16 + unat ?n] = pr @ ys" "length ys = m"
  proof
    show "map (stale (pheap s) r) [0..<16 + unat ?n] = pr @ drop 16 (map (stale (pheap s) r) [0..<16 + unat ?n])"
      using append_take_drop_id [of 16 "map (stale (pheap s) r) [0..<16 + unat ?n]"] by (simp only: take_map take_upt pr_def) simp
  qed (simp add: n m_def)
  have lp: "length pr = 16" by (simp add: pr_def)
  let ?nb = "ram_pbuf 16 ?n []"
  have sz: "SIZEOF_STRUCT_PBUF + layer_offset PBUF_LINK + unat ?n < 65536"
    unfolding link_offset using assms(4) n tl(1) by (simp add: SIZEOF_STRUCT_PBUF_def)
  have al: "pbuf_alloc (link_malloc env (pheap s)) PBUF_LINK ?n PBUF_RAM (pheap s) = Some (Some r, put r (ram_pbuf 16 ?n (pr @ ys)) (pheap s))"
    using alloc_ram [OF sz, of "link_malloc env (pheap s)" "pheap s"] unfolding link_offset assms(8) by (simp only: option.case ys(1))
  have sv: "s\<lparr>pheap := put r (ram_pbuf 16 ?n (pr @ ys)) (pheap s)\<rparr> = set_view r ?nb pr ys s" by (simp add: set_view_def)
  have ml: "payload ?nb = Some (int (length pr))" using lp by simp
  have ne: "hdr \<noteq> []" using assms(6) by auto
  have rd: "ptr_read (p, int (length pre)) 0 (unat hlen) (set_view r ?nb pr ys s) = Some hdr"
    using ip_view_read [OF assms(2) ne, of "set_view r ?nb pr ys s" p] b assms(5) by simp
  have po: "poke r 0 hdr (set_view r ?nb pr ys s) = Some (set_view r ?nb pr (overwrite ys 0 hdr) s)"
    using poke_view [OF ml _ ne, of 0 ys r s] ys(2) m_def by simp
  define zs where "zs = drop (length hdr) ys"
  have ow: "overwrite ys 0 hdr = hdr @ zs" "length zs = unat (tot_len b)" using ys(2) by (simp_all add: overwrite_def zs_def m_def)
  let ?r = "ram_pbuf (16 + unat hlen) (tot_len b)"
  have nz: "uint hlen \<noteq> 0" "unat hlen \<le> unat ?n" using assms(5,6) n by (auto simp: unsigned_eq_0_iff)
  have nb: "nat (16 + uint hlen) = 16 + unat hlen" using nat_int [of "16 + unat hlen"] by simp
  let ?h = "put r (?r (pr @ hdr @ zs)) (pheap s)"
  have sv2: "pheap (set_view r ?nb pr (hdr @ zs) s) = put r (ram_pbuf 16 ?n (pr @ hdr @ zs)) (pheap s)" by simp
  have mv: "(ram_pbuf 16 ?n (pr @ hdr @ zs))\<lparr>payload := Some (16 + uint hlen), len := ?n + word_of_int (- uint hlen),
      tot_len := ?n + word_of_int (- uint hlen)\<rparr> = ?r (pr @ hdr @ zs)"
    by (simp add: ram_pbuf_def)
  have ph: "pbuf_header (Some r) (- int (unat hlen)) (pheap (set_view r ?nb pr (hdr @ zs) s)) = Some (0, ?h)"
  proof -
    have "int (unat hlen) \<le> int (unat ?n)" using nz(2) by (simp only: of_nat_le_iff)
    moreover have "0 \<le> uint hlen" by simp
    ultimately have u: "uint hlen \<le> uint ?n" "\<not> 16 + uint hlen < 0" by (simp, linarith)
    have "pbuf_header (Some r) (- int (unat hlen)) (put r (ram_pbuf 16 ?n (pr @ hdr @ zs)) (pheap s)) =
        Some (0, put r ((ram_pbuf 16 ?n (pr @ hdr @ zs))\<lparr>payload := Some (16 + uint hlen), len := ?n + word_of_int (- uint hlen),
          tot_len := ?n + word_of_int (- uint hlen)\<rparr>) (put r (ram_pbuf 16 ?n (pr @ hdr @ zs)) (pheap s)))"
      using nz(1) u by (simp add: pbuf_header_def pbuf_header_impl_def Let_def)
    then show ?thesis unfolding sv2 mv put_again .
  qed
  have cp: "pbuf_copy (Some r) (Some p) ?h = Some (ERR_OK, put r (?r (pr @ hdr @ content ?bs)) (pheap s))"
  proof -
    have a: "r \<notin> fst ` set ((p, b) # xs)" using chain_lookup assms(1,9) by (force simp: packet_at_def)
    then have ch: "chain (pbufs ?h) (Some p) ((p, b) # xs)" using assms(1) by (simp add: packet_at_def)
    have "pbuf_copy_loop (Some r) (of_nat 0) (Some p) 0 ?h =
        Some (put r ((?r (pr @ hdr @ zs))\<lparr>area := overwrite (area (?r (pr @ hdr @ zs))) (nat (int (16 + unat hlen)) + 0) (content (map snd ((p, b) # xs)))\<rparr>) ?h)"
      using pk a tl lp ow(2) assms(5) nb by (intro pbuf_copy_loop_flat [OF ch]) simp_all
    also have "(?r (pr @ hdr @ zs))\<lparr>area := overwrite (area (?r (pr @ hdr @ zs))) (nat (int (16 + unat hlen)) + 0) (content (map snd ((p, b) # xs)))\<rparr>
        = ?r (pr @ hdr @ content ?bs)"
      using tl(2) lp ow(2) assms(5) nb by (simp add: overwrite_def)
    also note put_again
    finally have lp: "pbuf_copy_loop (Some r) 0 (Some p) 0 ?h = Some (put r (?r (pr @ hdr @ content ?bs)) (pheap s))" by (simp add: fun_upd_def)
    have "deref ?h (Some r) = Some (?r (pr @ hdr @ zs))" "deref ?h (Some p) = Some b" using b by (simp_all add: deref_def)
    then show ?thesis unfolding pbuf_copy_def lp by simp
  qed
  have sv3: "(set_view r ?nb pr (hdr @ zs) s)\<lparr>pheap := h\<rparr> = s\<lparr>pheap := h\<rparr>" for h by (simp add: set_view_def)
  have len: "\<not> unat ?n < unat hlen + SIZEOF_ICMP_ECHO_HDR" using n assms(5,7) tl(1) by (simp add: SIZEOF_ICMP_ECHO_HDR_def)
  have rb: "pbufs (pheap (set_view r ?nb pr ys s)) r = Some (ram_pbuf 16 ?n (pr @ ys))" by simp
  have pb: "pheap (s\<lparr>pheap := h\<rparr>) = h" "(s\<lparr>pheap := h\<rparr>)\<lparr>pheap := h'\<rparr> = s\<lparr>pheap := h'\<rparr>" for h h' by simp_all
  show ?thesis
    unfolding echo_copy_def b(1) Option.bind.bind_lunit al prod.case Let_def sv option.case rb
    by (simp only: ram_pbuf_simps len if_False rd Option.bind.bind_lunit po ow(1) ph prod.case sv3 pb)
      (simp add: cp echo_copy_of_def lp assms(5))
qed

lemma answerableD:
  assumes "answerable env ni pre hdr rest b bs"
  shows "ip_view pre hdr rest b" "ptype b \<in> {PBUF_RAM, PBUF_POOL}" "ref b = 1" "4 \<le> unat (len b)" "20 \<le> length hdr"
    "sendable (b # bs)" "40 + length hdr + total_len (b # bs) < 65536"
    "mtu (netif_of env ni) = 0 \<or> length hdr + total_len (b # bs) \<le> unat (mtu (netif_of env ni))"
  using assms by (simp_all add: answerable_def)

lemma copy_answerable:
  assumes "answerable env ni pre hdr rest b bs" "length pr = 16" "8 \<le> total_len (b # bs)"
    and c_def: "c = echo_copy_of pr hdr (tot_len b) (content (b # bs))"
  shows "answerable env ni pr hdr (content (b # bs)) c []" "content [c] = content (b # bs)" "head_ok c" "pnext c = None" "0 < ref c"
proof -
  note a = answerableD [OF assms(1)]
  have pk: "packet (b # bs)" using a(6) by (simp add: sendable_def)
  then have l: "unat (tot_len b) = total_len (b # bs)" "length (content (b # bs)) = total_len (b # bs)" by (simp, rule length_content)
  then have nz: "tot_len b \<noteq> 0" using assms(3) by auto
  note r = ram_pbuf_ok [of "pr @ hdr" "length pr + length hdr" "content (b # bs)" "tot_len b"]
  have c: "c = ram_pbuf (length pr + length hdr) (tot_len b) ((pr @ hdr) @ content (b # bs))" by (simp add: c_def echo_copy_of_def)
  show "head_ok c" "content [c] = content (b # bs)" using r(1,2) l nz unfolding c by simp_all
  show "pnext c = None" "0 < ref c" by (simp_all add: c)
  have "sendable [c]" using r(3,4) l nz a(7) unfolding c by (simp add: sendable_def)
  then show "answerable env ni pr hdr (content (b # bs)) c []"
    using a(5,7,8) l assms(3) by (simp add: answerable_def ip_view_def c)
qed

lemma echo_room_in_place:
  assumes "pbufs (pheap s) p = Some b" "answerable env ni pre hdr rest b bs" "length hdr = unat hlen"
  shows "echo_room env p (p, int (length pre)) hlen s =
    (if 16 \<le> length pre then Some (Some p, s) else echo_copy env p (p, int (length pre)) hlen s)"
proof -
  note a = answerableD [OF assms(2)]
  let ?n = "uint hlen + 16"
  have n: "int (unat hlen) + int PBUF_LINK_HLEN + int PBUF_LINK_ENCAPSULATION_HLEN = ?n"
    by (simp add: PBUF_LINK_HLEN_def PBUF_LINK_ENCAPSULATION_HLEN_def)
  have pay: "payload b = Some (int (length pre) + uint hlen)" using a(1) assms(3) by (simp add: ip_view_def)
  let ?m = "b\<lparr>payload := Some (int (length pre) - 16), len := len b + word_of_int ?n, tot_len := tot_len b + word_of_int ?n\<rparr>"
  have "0 \<le> uint hlen" by simp
  then have nn: "?n \<noteq> 0" "- ?n \<noteq> 0" "\<not> 0 \<le> - ?n" by linarith+
  have up: "pbuf_header (Some p) ?n (pheap s) = (if 16 \<le> length pre then Some (0, put p ?m (pheap s)) else Some (1, pheap s))"
    using assms(1) pay a(2) nn by (auto simp: pbuf_header_def pbuf_header_impl_def Let_def)
  have bk: "?m\<lparr>payload := Some (int (length pre) + uint hlen), len := len ?m + word_of_int (- ?n), tot_len := tot_len ?m + word_of_int (- ?n)\<rparr> = b"
    using pay by (simp add: algebra_simps)
  have same: "put p b (put p ?m (pheap s)) = pheap s" unfolding put_again using assms(1) by (simp add: fun_upd_idem)
  have "unat (len b) + (unat hlen + 16) < 65536" using a(7) assms(3) by simp
  then have "unat (len b + (hlen + 16)) = unat (len b) + (unat hlen + 16)"
    using unat_add_u16 [of hlen 16] unat_add_u16 [of "len b" "hlen + 16"] by simp
  then have "int (unat hlen + 16) \<le> int (unat (len b + (hlen + 16)))" by (simp only: of_nat_le_iff)
  then have le: "?n \<le> uint (len ?m)" by (simp add: algebra_simps)
  have dn: "pbuf_header (Some p) (- ?n) (put p ?m (pheap s)) = Some (0, pheap s)" if "16 \<le> length pre"
  proof -
    have "pbuf_header (Some p) (- ?n) (put p ?m (pheap s)) = Some (0, put p (?m\<lparr>payload := Some (int (length pre) + uint hlen),
        len := len ?m + word_of_int (- ?n), tot_len := tot_len ?m + word_of_int (- ?n)\<rparr>) (put p ?m (pheap s)))"
      using that a(2) nn le by (auto simp: pbuf_header_def pbuf_header_impl_def Let_def)
    then show ?thesis unfolding bk same .
  qed
  show ?thesis
    unfolding echo_room_def Let_def n up using dn by simp
qed

text \<open>There is memory for the copy of the request, if one is needed.\<close>

definition echo_memory :: "link_env \<Rightarrow> bytes \<Rightarrow> u16 \<Rightarrow> pbuf \<Rightarrow> pbuf_heap \<Rightarrow> bool" where
  "echo_memory env pre hlen b h \<longleftrightarrow> 16 \<le> length pre \<or> link_malloc env h (ram_size 16 (tot_len b + hlen)) \<noteq> None"

lemma echo_room_total:
  assumes "arp_good P s" "p \<in> P" "link_ok env" "packet_at (pheap s) p ((p, b) # xs)"
    and "answerable env ni pre hdr rest b (map snd xs)" "length hdr = unat hlen" "8 \<le> total_len (b # map snd xs)"
  obtains (none) "echo_room env p (p, int (length pre)) hlen s = Some (None, s)" "\<not> echo_memory env pre hlen b (pheap s)"
  | (some) q h c ys pre' rest' where "echo_room env p (p, int (length pre)) hlen s = Some (Some q, s\<lparr>pheap := h\<rparr>)"
    "arp_good (insert q (P - {p})) (s\<lparr>pheap := h\<rparr>)" "q \<notin> P - {p}" "keeps (P - {p}) (pheap s) h" "packet_at h q ((q, c) # ys)"
    "answerable env ni pre' hdr rest' c (map snd ys)" "content (c # map snd ys) = content (b # map snd xs)" "14 \<le> length pre'"
proof -
  let ?bs = "b # map snd xs"
  note a = answerableD [OF assms(5)]
  have b: "pbufs (pheap s) p = Some b" using packet_at_Cons [OF assms(4)] by auto
  note eq = echo_room_in_place [OF b assms(5,6)]
  show thesis
  proof (cases "16 \<le> length pre")
    case True
    have "insert p (P - {p}) = P" using assms(2) by blast
    then show thesis using True eq assms(1,4,5) by (intro some [of p "pheap s" b xs pre rest]) simp_all
  next
    case False
    show thesis
    proof (cases "link_malloc env (pheap s) (ram_size 16 (tot_len b + hlen))")
      case None
      have sz: "SIZEOF_STRUCT_PBUF + layer_offset PBUF_LINK + unat (tot_len b + hlen) < 65536"
        unfolding link_offset using a(6,7) assms(6) unat_add_le [of "tot_len b" hlen] by (simp add: SIZEOF_STRUCT_PBUF_def sendable_def)
      have "pbuf_alloc (link_malloc env (pheap s)) PBUF_LINK (tot_len b + hlen) PBUF_RAM (pheap s) = Some (None, pheap s)"
        using alloc_ram [OF sz, of "link_malloc env (pheap s)" "pheap s"] None unfolding link_offset by simp
      then have "echo_copy env p (p, int (length pre)) hlen s = Some (None, s)" using b by (simp add: echo_copy_def Let_def)
      then show thesis using none False None eq by (simp add: echo_memory_def)
    next
      case (Some r)
      have r: "pbufs (pheap s) r = None" by (rule link_okD(3) [OF assms(3) Some])
      let ?pr = "map (stale (pheap s) r) [0..<16]" let ?c = "echo_copy_of ?pr hdr (tot_len b) (content ?bs)"
      let ?t = "s\<lparr>pheap := put r ?c (pheap s)\<rparr>"
      have l16: "length ?pr = 16" by simp
      note c = copy_answerable [OF assms(5) l16 assms(7) refl]
      have tf: "pheap ?t = put r ?c (pheap s)" "arp_table ?t = arp_table s" "etharp_cached_entry ?t = etharp_cached_entry s" by simp_all
      note n = arp_good_new [OF assms(1) r c(4,5,3) tf]
      obtain h where h: "free_pbuf p ?t = Some (?t\<lparr>pheap := h\<rparr>)" "arp_good (insert r P - {p}) (?t\<lparr>pheap := h\<rparr>)" "keeps (insert r P - {p}) (pheap ?t) h"
        using arp_good_free [OF n(2) insertI2 [OF assms(2)]] by blast
      have rp: "r \<noteq> p" "insert r P - {p} = insert r (P - {p})" using n(1) assms(2) by auto
      have "echo_room env p (p, int (length pre)) hlen s = Some (Some r, s\<lparr>pheap := h\<rparr>)"
        using echo_copy_eq [OF assms(4) a(1,6,7) assms(6) a(5) assms(7) Some r refl] h(1) eq False by simp
      moreover have "keeps (P - {p}) (pheap s) h" by (rule keeps_trans [OF keeps_mono [OF n(4)] keeps_mono [OF h(3)]]) blast+
      moreover have "packet_at h r [(r, ?c)]" using keeps_packet [OF h(3) _ n(3)] rp by simp
      ultimately show thesis using h(2) rp n(1) c(1,2) by (intro some [of r h ?c "[]" ?pr "content ?bs"]) simp_all
    qed
  qed
qed

text \<open>A request to us whose checksum is right is answered, if there is memory.\<close>

definition echo_answered ::
  "link_env \<Rightarrow> nat \<Rightarrow> nat \<Rightarrow> bytes \<Rightarrow> bytes \<Rightarrow> bytes \<Rightarrow> pbuf \<Rightarrow> 'a ip_scheme \<Rightarrow> 'a ip_scheme \<Rightarrow> bool" where
  "echo_answered env cn inp pre hdr m b s t \<longleftrightarrow>
     (let dest = current_iphdr_dest s; src = current_iphdr_src s
      in \<not> ip4_addr_ismulticast dest \<and> \<not> ip4_addr_isbroadcast dest (netif_of env cn) \<and> 8 \<le> length m \<and> inet_chksum False m = 0 \<and>
         echo_memory env pre (of_nat (length hdr)) b (pheap s) \<longrightarrow>
         (\<exists>od. ip_goes_out env inp src (echo_hdr od hdr dest src @ echo_msg m) s t))"

lemma echo_input_total:
  assumes "arp_good P s" "p \<in> P" "link_ok env" "packet_at (pheap s) p ((p, b) # xs)"
    and "answerable env inp pre hdr rest b (map snd xs)" "length hdr = unat hlen" "current_netif s = Some cn"
  shows "\<exists>t l. echo_input E env p inp (p, int (length pre)) hlen s = Some t \<and> arp_good (P - {p}) t \<and> keeps (P - {p}) (pheap s) (pheap t) \<and>
    sent t = sent s @ l \<and> echo_answered env cn inp pre hdr (content (b # map snd xs)) b s t"
proof -
  let ?m = "content (b # map snd xs)" and ?d = "current_iphdr_dest s"
  note a = answerableD [OF assms(5)]
  have pk: "packet (b # map snd xs)" using a(6) by (simp add: sendable_def)
  have len: "length ?m = unat (tot_len b)" "total_len (b # map snd xs) = unat (tot_len b)" using length_content [OF pk] pk by simp_all
  have b: "pbufs (pheap s) p = Some b" using packet_at_Cons [OF assms(4)] by auto
  have hl: "of_nat (length hdr) = hlen" using assms(6) by simp
  have ch: "inet_chksum_pbuf (odd_at E) (Some p) (pheap s) = Some (inet_chksum False ?m)"
    using chksum_flat [of "pheap s" p "(p, b) # xs"] assms(4) pk by (simp add: packet_at_def)
  obtain h where h: "free_pbuf p s = Some (s\<lparr>pheap := h\<rparr>)" "arp_good (P - {p}) (s\<lparr>pheap := h\<rparr>)" "keeps (P - {p}) (pheap s) h"
    using arp_good_free [OF assms(1,2)] by blast
  let ?stop = "ip4_addr_ismulticast ?d \<or> ip4_addr_isbroadcast ?d (netif_of env cn) \<or> unat (tot_len b) < 8 \<or> inet_chksum False ?m \<noteq> 0"
  have eq: "echo_input E env p inp (p, int (length pre)) hlen s = (if ?stop then free_pbuf p s else do {
      (r, s) \<leftarrow> echo_room env p (p, int (length pre)) hlen s;
      (case r of None \<Rightarrow> free_pbuf p s | Some q \<Rightarrow> do { s \<leftarrow> echo_reply E env q inp hlen ?d s; free_pbuf q s }) })"
    by (simp add: echo_input_def Let_def assms(7) b ch SIZEOF_ICMP_ECHO_HDR_def)
  show ?thesis
  proof (cases ?stop)
    case True
    then show ?thesis using eq h len by (auto simp: echo_answered_def Let_def)
  next
    case False
    then have l8: "8 \<le> total_len (b # map snd xs)" using len(2) by simp
    show ?thesis
    proof (rule echo_room_total [OF assms(1-6) l8])
      assume "echo_room env p (p, int (length pre)) hlen s = Some (None, s)" "\<not> echo_memory env pre hlen b (pheap s)"
      then show ?thesis using eq False h hl by (auto simp: echo_answered_def Let_def)
    next
      fix q h c ys pre' rest'
      let ?u = "s\<lparr>pheap := h\<rparr>"
      assume r: "echo_room env p (p, int (length pre)) hlen s = Some (Some q, ?u)"
        "arp_good (insert q (P - {p})) ?u" "q \<notin> P - {p}" "keeps (P - {p}) (pheap s) h" "packet_at h q ((q, c) # ys)"
        "answerable env inp pre' hdr rest' c (map snd ys)" "content (c # map snd ys) = ?m" "14 \<le> length pre'"
      have pu: "packet_at (pheap ?u) q ((q, c) # ys)" using r(5) by simp
      obtain t l where t: "echo_reply E env q inp hlen ?d ?u = Some t" "arp_good (insert q (P - {p})) t"
        "keeps (insert q (P - {p}) - {q}) (pheap ?u) (pheap t)" "sent t = sent ?u @ l"
        "ip_goes_out env inp (current_iphdr_src ?u) (echo_hdr (odd_at E q) hdr ?d (current_iphdr_src ?u) @ echo_msg (content (c # map snd ys))) ?u t"
        using echo_reply_total [OF r(2) insertI1 assms(3) pu r(6) assms(6), of E ?d] r(8) by blast
      have Q: "insert q (P - {p}) - {q} = P - {p}" using r(3) by blast
      obtain h' where h': "free_pbuf q t = Some (t\<lparr>pheap := h'\<rparr>)" "arp_good (P - {p}) (t\<lparr>pheap := h'\<rparr>)" "keeps (P - {p}) (pheap t) h'"
        using arp_good_free [OF t(2) insertI1] unfolding Q by blast
      have "keeps (P - {p}) (pheap s) h'" using keeps_trans [OF keeps_trans [OF r(4)] h'(3)] t(3) unfolding Q by simp
      moreover have "ip_goes_out env inp (current_iphdr_src s) (echo_hdr (odd_at E q) hdr ?d (current_iphdr_src s) @ echo_msg ?m) s (t\<lparr>pheap := h'\<rparr>)"
        using t(5) r(7) by (simp add: ip_goes_out_def resolved_def)
      moreover have "echo_input E env p inp (p, int (length pre)) hlen s = Some (t\<lparr>pheap := h'\<rparr>)"
        using eq False r(1) t(1) h'(1) by simp
      ultimately show ?thesis using h'(2) t(4) by (auto simp: echo_answered_def Let_def)
    qed
  qed
qed

end
