(* ===== verification/Ip4Input.thy ===== *)
theory Ip4Input
  imports Icmp
begin

text \<open>
  The receiving side of IPv4 (\<^verbatim>\<open>ip4_input\<close> of \<^verbatim>\<open>src/server_dir/lwip/src/core/ipv4/ip4.c\<close>): the checks
  on the header, the choice of the interface that takes the packet, and the call of the protocol above.
  \<^verbatim>\<open>ip4_input_total\<close> shows that the call ends for every packet that is not a fragment and not TCP, and
  what it answers; the lemmas before it follow the packet through the functions.
\<close>

text \<open>The interface that takes the packet: the one it came in on, else the first other one of the list;
  a packet to a loopback address is taken only by the interface that has the address.\<close>

definition accepts :: "netif \<Rightarrow> u32 \<Rightarrow> bool" where
  "accepts n dest \<longleftrightarrow> netif_is_up n \<and> ip_addr n \<noteq> IPADDR_ANY \<and> (dest = ip_addr n \<or> ip4_addr_isbroadcast dest n)"

fun accept_loop :: "link_env \<Rightarrow> nat \<Rightarrow> u32 \<Rightarrow> nat list \<Rightarrow> nat option" where
  "accept_loop env inp dest [] = None"
| "accept_loop env inp dest (ni # nis) =
     (if ni = inp then accept_loop env inp dest nis
      else if accepts (netif_of env ni) dest then Some ni
      else accept_loop env inp dest nis)"

definition ip4_accept :: "link_env \<Rightarrow> nat \<Rightarrow> u32 \<Rightarrow> nat option" where
  "ip4_accept env inp dest =
     (if ip4_addr_ismulticast dest then
        if netif_is_up (netif_of env inp) \<and> ip_addr (netif_of env inp) \<noteq> IPADDR_ANY then Some inp else None
      else if accepts (netif_of env inp) dest then Some inp
      else if ip4_addr_isloopback dest then None
      else accept_loop env inp dest (netif_list env))"

text \<open>The packet goes to the protocol above; \<open>iphdr_hlen\<close> is the length of the header that came in.\<close>

definition ip4_deliver ::
  "'a ip_scheme ip_env \<Rightarrow> link_env \<Rightarrow> nat \<Rightarrow> nat \<Rightarrow> nat \<Rightarrow> u16 \<Rightarrow> 'a ip_scheme \<Rightarrow> 'a ip_scheme option" where
  "ip4_deliver E env p ni inp iphdr_hlen s = do {
     b \<leftarrow> pbufs (pheap s) p;
     off \<leftarrow> payload b;
     let iphdr = (p, off);
     v_hl \<leftarrow> peek8 p 0 s;
     let s = s\<lparr>current_netif := Some ni, current_input_netif := Some inp, current_ip4_header := Some iphdr,
       current_ip_header_tot_len := ucast (IPH_HL v_hl) * 4\<rparr>;
     (_, h) \<leftarrow> pbuf_header (Some p) (- int (unat iphdr_hlen)) (pheap s);
     let s = s\<lparr>pheap := h\<rparr>;
     pr \<leftarrow> ptr_read iphdr 9 1 s;
     s \<leftarrow> (if pr ! 0 = IP_PROTO_TCP then tcp_input E p inp s
       else if pr ! 0 = IP_PROTO_ICMP then icmp_input E env p inp s
       else do {
         s \<leftarrow> (if \<not> ip4_addr_isbroadcast (current_iphdr_dest s) (netif_of env ni) \<and> \<not> ip4_addr_ismulticast (current_iphdr_dest s)
           then do {
             (_, h) \<leftarrow> pbuf_header_force (Some p) (int (unat iphdr_hlen)) (pheap s);
             b \<leftarrow> pbufs h p;
             icmp_dest_unreach E env p ICMP_DUR_PROTO (s\<lparr>pheap := put p (b\<lparr>payload := Some off\<rparr>) h\<rparr>)
           }
           else Some s);
         free_pbuf p s
       });
     Some (s\<lparr>current_netif := None, current_input_netif := None, current_ip4_header := None,
       current_ip_header_tot_len := 0, current_iphdr_src := IPADDR_ANY, current_iphdr_dest := IPADDR_ANY\<rparr>)
   }"

text \<open>The checks on the addresses and the reassembly, with a header that is in order.\<close>

definition ip4_route_in ::
  "'a ip_scheme ip_env \<Rightarrow> link_env \<Rightarrow> nat \<Rightarrow> nat \<Rightarrow> u16 \<Rightarrow> 'a ip_scheme \<Rightarrow> 'a ip_scheme option" where
  "ip4_route_in E env p inp iphdr_hlen s = do {
     dest \<leftarrow> peek32 p 16 s;
     src \<leftarrow> peek32 p 12 s;
     let s = s\<lparr>current_iphdr_dest := dest, current_iphdr_src := src\<rparr>;
     if ip4_addr_isbroadcast src (netif_of env inp) \<or> ip4_addr_ismulticast src then free_pbuf p s
     else (case ip4_accept env inp dest of
         None \<Rightarrow> free_pbuf p s
       | Some ni \<Rightarrow> do {
           off \<leftarrow> peek16 p 6 s;
           (r, s) \<leftarrow> (if off AND PP_HTONS (IP_OFFMASK OR IP_MF) \<noteq> 0 then ip4_reass E p s else Some (Some p, s));
           (case r of
              None \<Rightarrow> Some s
            | Some p \<Rightarrow> ip4_deliver E env p ni inp iphdr_hlen s)
         })
   }"

definition ip4_input :: "'a ip_scheme ip_env \<Rightarrow> link_env \<Rightarrow> nat \<Rightarrow> nat \<Rightarrow> 'a ip_scheme \<Rightarrow> 'a ip_scheme option" where
  "ip4_input E env p inp s = do {
     v_hl \<leftarrow> peek8 p 0 s;
     if IPH_V v_hl \<noteq> 4 then free_pbuf p s
     else do {
       let iphdr_hlen = ucast (IPH_HL v_hl) * 4;
       l \<leftarrow> peek16 p 2 s;
       let iphdr_len = lwip_htons l;
       b \<leftarrow> pbufs (pheap s) p;
       h \<leftarrow> (if iphdr_len < tot_len b then pbuf_realloc (Some p) iphdr_len (pheap s) else Some (pheap s));
       let s = s\<lparr>pheap := h\<rparr>;
       b \<leftarrow> pbufs (pheap s) p;
       if len b < iphdr_hlen \<or> tot_len b < iphdr_len \<or> unat iphdr_hlen < IP_HLEN then free_pbuf p s
       else do {
         hdr \<leftarrow> peek_at p 0 (unat iphdr_hlen) s;
         if inet_chksum (odd_at E p) hdr \<noteq> 0 then free_pbuf p s
         else ip4_route_in E env p inp iphdr_hlen s
       }
     }
   }"

section \<open>A packet that is cut\<close>

lemma owns_replace:
  assumes "owns h P" "p \<in> P" "chain (pbufs h) (Some p) xs" "packet_at h' p ys" "fst ` set ys \<subseteq> fst ` set xs"
    and other: "\<And>c. c \<notin> fst ` set xs \<Longrightarrow> pbufs h' c = pbufs h c"
  shows "owns h' P" "keeps (P - {p}) h h'"
proof -
  show k: "keeps (P - {p}) h h'" using assms(1-3) other by (rule keeps_others)
  have old: "packet_at h q zs \<and> packet_at h' q zs" if q: "q \<in> P - {p}" "chain (pbufs h') (Some q) zs" for q zs
  proof -
    obtain ws where ws: "packet_at h q ws" using ownsD [OF assms(1)] q(1) by blast
    then have "packet_at h' q ws" using keeps_packet [OF k q(1)] by blast
    then show ?thesis using ws q(2) chain_unique by (metis packet_at_def)
  qed
  show "owns h' P"
  proof (rule ownsI)
    fix q assume "q \<in> P"
    then show "\<exists>zs. packet_at h' q zs"
      using assms(4) ownsD [OF assms(1), of q] keeps_packet [OF k, of q] by (cases "q = p") blast+
  next
    fix q r zs ws
    assume a: "q \<in> P" "r \<in> P" "q \<noteq> r" "chain (pbufs h') (Some q) zs" "chain (pbufs h') (Some r) ws"
    have sub: "\<exists>us. chain (pbufs h) (Some v) us \<and> fst ` set vs \<subseteq> fst ` set us" if v: "v \<in> P" "chain (pbufs h') (Some v) vs" for v vs
    proof (cases "v = p")
      case True
      then have "vs = ys" using v(2) assms(4) chain_unique by (metis packet_at_def)
      then show ?thesis using True assms(3,5) by blast
    next
      case False
      then show ?thesis using old [of v vs] v by (auto simp: packet_at_def)
    qed
    show "fst ` set zs \<inter> fst ` set ws = {}"
      using sub [OF a(1,4)] sub [OF a(2,5)] owns_disjoint [OF assms(1) a(1-3)] by blast
  qed
qed

lemma live_refs_bump [simp]: "live_refs (bump g xs) = live_refs xs"
  by (induction xs) auto

lemma realloc_packet:
  assumes "packet_at h p ((p, b) # xs)" "packet (b # map snd xs)" "no_empty (map snd xs)" "ptype b = PBUF_POOL" "n < tot_len b"
  obtains h' c ys where "pbuf_realloc (Some p) n h = Some h'" "packet_at h' p ((p, c) # ys)" "packet (c # map snd ys)" "n \<noteq> 0 \<longrightarrow> no_empty (map snd ys)"
    "content (c # map snd ys) = take (unat n) (content (b # map snd xs))" "ptype c = PBUF_POOL" "ref c = ref b" "payload c = payload b"
    "area c = area b" "unat (len c) = min (unat (len b)) (unat n)" "fst ` set ((p, c) # ys) \<subseteq> fst ` set ((p, b) # xs)" "\<And>a. a \<notin> fst ` set ((p, b) # xs) \<Longrightarrow> pbufs h' a = pbufs h a"
proof -
  let ?xs = "(p, b) # xs"
  have ch: "chain (pbufs h) (Some p) ?xs" "live_refs ?xs" "head_ok b" using assms(1) by (simp_all add: packet_at_def)
  have pk: "packet (map snd ?xs)" using assms(2) by simp
  have n: "unat n \<le> total_len (map snd ?xs)" "\<not> tot_len b \<le> n" using assms(2,5) by (simp_all add: word_less_nat_alt word_le_nat_alt)
  have pb: "pbufs h p = Some b" using ch(1) by simp
  obtain h' ys q qb zs rem' qb' xs' where r: "pbuf_realloc (Some p) n h = Some h'" "?xs = ys @ (q, qb) # zs" "trim_ram qb rem' = Some qb'"
    "ref qb' = ref qb" "xs' = bump (n - tot_len b) ys @ [(q, qb'\<lparr>len := rem', tot_len := rem', pnext := None\<rparr>)]"
    "chain (pbufs h') (Some p) xs'" "packet (map snd xs')" "content (map snd xs') = take (unat n) (content (map snd ?xs))"
    "n \<noteq> 0 \<longrightarrow> rem' \<noteq> 0" "unat n = total_len (map snd ys) + unat rem'" "unat rem' \<le> unat (len qb)" "\<And>c. c \<notin> fst ` set ?xs \<Longrightarrow> pbufs h' c = pbufs h c"
    by (rule realloc_cut [OF ch(1) pk ch(2) n(1) pb n(2)]) blast
  have refs: "live_refs xs'" using ch(2) r(4) unfolding r(2,5) by simp
  have sub: "fst ` set xs' \<subseteq> fst ` set ?xs" unfolding r(2,5) by (auto simp: image_Un)
  obtain c us where c: "xs' = (p, c) # us" "ptype c = PBUF_POOL" "ref c = ref b" "payload c = payload b" "area c = area b" "n \<noteq> 0 \<longrightarrow> no_empty (map snd us)"
    "unat (len c) = min (unat (len b)) (unat n)"
  proof (cases ys)
    case Nil
    then have "q = p" "qb = b" "qb' = b" using r(2,3) assms(4) by (auto simp: trim_ram_def)
    then show ?thesis using Nil r(5,10,11) assms(4) by (intro that [of "b\<lparr>len := rem', tot_len := rem', pnext := None\<rparr>" "[]"]) simp_all
  next
    case (Cons y ys')
    then have y: "y = (p, b)" "xs = ys' @ (q, qb) # zs" using r(2) by auto
    have "no_empty (map snd (bump g ys'))" for g using assms(3) y(2) by (force simp: no_empty_def bump_def)
    then show ?thesis using Cons y r(5,9,10) assms(4)
      by (intro that [of "b\<lparr>tot_len := tot_len b + (n - tot_len b)\<rparr>" "bump (n - tot_len b) ys' @ [(q, qb'\<lparr>len := rem', tot_len := rem', pnext := None\<rparr>)]"])
        (auto simp: no_empty_def)
  qed
  have "head_ok c"
  proof -
    obtain off where off: "payload b = Some off" "0 \<le> off" using ch(3) by (auto simp: head_ok_def)
    have "payload_ok c" using r(7) c(1) by simp
    moreover have "nat off \<le> length (area b)" using ch(3) off(1) by (auto simp: head_ok_def)
    ultimately show ?thesis using off c(4,5) by (auto simp: head_ok_def payload_ok_def)
  qed
  then have "packet_at h' p ((p, c) # us)" using r(6) refs c(1) by (simp add: packet_at_def)
  then show thesis using that [of h' c us] r(1,7,8,12) c sub by simp
qed

text \<open>The packet behind its IP header \<open>hdr\<close>.\<close>

definition stripped :: "link_env \<Rightarrow> nat \<Rightarrow> bytes \<Rightarrow> bytes \<Rightarrow> bytes \<Rightarrow> pbuf \<Rightarrow> pbuf list \<Rightarrow> bool" where
  "stripped env ni pre hdr rest b bs \<longleftrightarrow> ip_view pre hdr rest b \<and> ptype b = PBUF_POOL \<and> ref b = 1 \<and> 20 \<le> length hdr \<and>
     packet (b # bs) \<and> no_empty bs \<and> 40 + length hdr + total_len (b # bs) < 65536 \<and>
     (mtu (netif_of env ni) = 0 \<or> length hdr + total_len (b # bs) \<le> unat (mtu (netif_of env ni)))"

lemma stripped_answerable: "stripped env ni pre hdr rest b bs \<Longrightarrow> 4 \<le> unat (len b) \<Longrightarrow> answerable env ni pre hdr rest b bs"
  by (auto simp: stripped_def answerable_def sendable_def)

lemma content_first: "payload_ok b \<Longrightarrow> k < unat (len b) \<Longrightarrow> payload b = Some (int off) \<Longrightarrow> content (b # bs) ! k = area b ! (off + k)"
  by (auto simp: pdata_def nth_append payload_ok_def)

lemma peek8_eq:
  assumes "pbufs (pheap s) p = Some b" "payload b = Some (int off)" "off + k < length (area b)"
  shows "peek8 p k s = Some (area b ! (off + k))"
proof -
  have "payload_read b k 1 = Some (take 1 (drop k (drop off (area b))))"
    using payload_read_area [of b "take off (area b)" "drop off (area b)" k 1] assms(2,3) by simp
  then show ?thesis using assms(1,3) by (simp add: peek8_def peek_at_def hd_drop_conv_nth add.commute flip: hd_conv_nth)
qed

lemma icmp_input_total:
  fixes hlen :: u16
  assumes "arp_good P s" "p \<in> P" "link_ok env" "packet_at (pheap s) p ((p, b) # xs)" "stripped env inp pre hdr rest b (map snd xs)"
    and "current_ip4_header s = Some (p, int (length pre))" "current_netif s = Some ni"
    and "ucast (IPH_HL (hdr ! 0)) * 4 = hlen" "length hdr = unat hlen"
  shows "\<exists>t l. icmp_input E env p inp s = Some t \<and> arp_good (P - {p}) t \<and> keeps (P - {p}) (pheap s) (pheap t) \<and> sent t = sent s @ l \<and>
    (4 \<le> unat (len b) \<and> content (b # map snd xs) ! 0 = ICMP_ECHO \<longrightarrow>
      echo_answered env ni inp pre hdr (content (b # map snd xs)) b s t)"
proof -
  let ?m = "content (b # map snd xs)"
  have v: "payload b = Some (int (length pre + length hdr))" "area b = pre @ hdr @ rest" "20 \<le> length hdr" "packet (b # map snd xs)"
    using assms(5) by (simp_all add: stripped_def ip_view_def)
  have b: "pbufs (pheap s) p = Some b" using packet_at_Cons [OF assms(4)] by auto
  have hd: "ptr_read (p, int (length pre)) 0 1 s = Some [hdr ! 0]"
    using payload_read_area [of "b\<lparr>payload := Some (int (length pre))\<rparr>" pre "hdr @ rest" 0 1] v(2,3) b
    by (cases hdr) (simp_all add: ptr_read_def)
  obtain h where h: "free_pbuf p s = Some (s\<lparr>pheap := h\<rparr>)" "arp_good (P - {p}) (s\<lparr>pheap := h\<rparr>)" "keeps (P - {p}) (pheap s) h"
    using arp_good_free [OF assms(1,2)] by blast
  have hl: "\<not> unat hlen < IP_HLEN" using v(3) assms(9) by (simp add: IP_HLEN_def)
  show ?thesis
  proof (cases "4 \<le> unat (len b)")
    case False
    then have "icmp_input E env p inp s = free_pbuf p s"
      using assms(6,8) hd b hl by (simp add: icmp_input_def Let_def)
    then show ?thesis using h False by auto
  next
    case True
    have pok: "payload_ok b" using v(4) by simp
    then have lr: "unat (len b) \<le> length rest" using v(1,2) True by (auto simp: payload_ok_def nat_add_distrib)
    then have ne: "rest \<noteq> []" using True by auto
    have tc: "peek8 p 0 s = Some (?m ! 0)" "\<exists>c. peek8 p 1 s = Some c"
      using peek8_eq [OF b v(1), of 0] peek8_eq [OF b v(1), of 1] content_first [OF pok _ v(1), of 0 "map snd xs"] True lr ne v(2) by auto
    have eq: "icmp_input E env p inp s = (if ?m ! 0 = ICMP_ECHO then echo_input E env p inp (p, int (length pre)) hlen s else free_pbuf p s)"
      using assms(6,8) hd b hl True tc by (auto simp: icmp_input_def Let_def)
    show ?thesis
    proof (cases "?m ! 0 = ICMP_ECHO")
      case False
      then show ?thesis using eq h by auto
    next
      case e: True
      then show ?thesis
        using eq echo_input_total [OF assms(1-4) stripped_answerable [OF assms(5) True] assms(9,7), of E] by auto
    qed
  qed
qed

text \<open>
  A packet as the driver hands it over, behind the Ethernet header: in pool pbufs, whose memory is
  larger than any header, and not longer than what the link carries.
\<close>

definition ip_received :: "link_env \<Rightarrow> nat \<Rightarrow> pbuf \<Rightarrow> pbuf list \<Rightarrow> bool" where
  "ip_received env ni b bs \<longleftrightarrow> packet (b # bs) \<and> no_empty bs \<and> ptype b = PBUF_POOL \<and> ref b = 1 \<and> readable 28 b \<and>
     40 + total_len (b # bs) < 65536 \<and> (mtu (netif_of env ni) = 0 \<or> total_len (b # bs) \<le> unat (mtu (netif_of env ni)))"

lemma strip_header:
  fixes hlen :: u16
  assumes "pbufs h p = Some b" "head_ok b" "ip_received env ni b bs" "20 \<le> unat hlen" "unat hlen \<le> unat (len b)"
  obtains pre rest c where "pbuf_header (Some p) (- int (unat hlen)) h = Some (0, put p c h)" "stripped env ni pre (front (unat hlen) b) rest c bs"
    "payload b = Some (int (length pre))" "content (c # bs) = drop (unat hlen) (content (b # bs))" "head_ok c" "pnext c = pnext b"
    "unat (len c) = unat (len b) - unat hlen" "tot_len c + hlen = tot_len b"
    "c = b\<lparr>payload := Some (int (length pre) + uint hlen), len := len b - hlen, tot_len := tot_len b - hlen\<rparr>"
proof -
  let ?k = "unat hlen"
  obtain off where off: "payload b = Some off" "0 \<le> off" "nat off + unat (len b) \<le> length (area b)" using assms(2) by (auto simp: head_ok_def)
  have r: "packet (b # bs)" "no_empty bs" "ptype b = PBUF_POOL" "ref b = 1" "40 + total_len (b # bs) < 65536"
    "mtu (netif_of env ni) = 0 \<or> total_len (b # bs) \<le> unat (mtu (netif_of env ni))" using assms(3) by (simp_all add: ip_received_def)
  let ?o = "nat off" let ?pre = "take ?o (area b)" and ?rest = "drop (?o + ?k) (area b)" and ?hdr = "front ?k b"
  let ?c = "b\<lparr>payload := Some (int (length ?pre) + uint hlen), len := len b - hlen, tot_len := tot_len b - hlen\<rparr>"
  have lp: "length ?pre = ?o" "length ?hdr = ?k" "int ?o = off" using off assms(5) by (simp_all add: front_def)
  have ar: "area b = ?pre @ ?hdr @ ?rest" using off(1) append_take_drop_id [of ?k "drop ?o (area b)"] by (simp add: front_def add.commute)
  have le: "hlen \<le> len b" "hlen \<le> tot_len b" "unat (tot_len b) = unat (len b) + total_len bs" using assms(5) r(1) by (simp_all add: word_le_nat_alt)
  have u: "unat (len b - hlen) = unat (len b) - ?k" "unat (tot_len b - hlen) = unat (tot_len b) - ?k"
    using le(1,2) by (simp_all add: unat_minus word_le_nat_alt)
  have nz: "uint hlen \<noteq> 0" using assms(4) by (auto simp: unsigned_eq_0_iff)
  have "int ?k \<le> int (unat (len b))" using assms(5) by (simp only: of_nat_le_iff)
  then have ui: "uint hlen \<le> uint (len b)" by simp
  have nn: "\<not> int ?o + uint hlen < 0" using unsigned_greater_eq [of hlen, where ?'a = int] by linarith
  have ph: "pbuf_header (Some p) (- int ?k) h = Some (0, put p ?c h)"
    using assms(1) off(1) r(3) nz ui nn lp(1,3) by (simp add: pbuf_header_def pbuf_header_impl_def Let_def)
  have pay: "payload ?c = Some (int (?o + ?k))" using lp(1) by simp
  have view: "ip_view ?pre ?hdr ?rest ?c" using ar lp pay by (simp add: ip_view_def)
  have hok: "head_ok ?c" using off assms(5) u(1) pay by (auto simp: head_ok_def simp del: of_nat_add)
  then have pok: "payload_ok ?c" by (auto simp: head_ok_def payload_ok_def)
  have "length ?hdr + total_len (?c # bs) = total_len (b # bs)" using u(1) assms(5) lp(2) by simp
  then have tl: "40 + length ?hdr + total_len (?c # bs) < 65536"
      "mtu (netif_of env ni) = 0 \<or> length ?hdr + total_len (?c # bs) \<le> unat (mtu (netif_of env ni))" using r(5,6) by linarith+
  have pk: "packet (?c # bs)" using r(1) pok u le(3) assms(5) by simp
  have st: "stripped env ni ?pre ?hdr ?rest ?c bs"
    using view r pk tl lp(2) assms(4) by (simp add: stripped_def del: total_len_simps)
  have ct: "content (?c # bs) = drop ?k (content (b # bs))"
    using off(1) pay u(1) off(3) assms(5) by (simp add: pdata_def drop_take add.commute del: of_nat_add)
  have payb: "payload b = Some (int (length ?pre))" using off(1) lp(1,3) by simp
  show thesis by (rule that [OF ph st payb ct hok]) (simp_all add: u)
qed

lemma put_back: "pbufs h p = Some b \<Longrightarrow> put p b (put p c h) = h"
  unfolding put_again by (simp add: fun_upd_idem)

lemma unstrip_header:
  fixes hlen :: u16
  assumes "pbufs h p = Some b" "ptype b = PBUF_POOL" "payload b = Some (int n)" "uint hlen \<noteq> 0"
    and c_def: "c = b\<lparr>payload := Some (int n + uint hlen), len := len b - hlen, tot_len := tot_len b - hlen\<rparr>"
  shows "pbuf_header_force (Some p) (int (unat hlen)) (put p c h) = Some (0, h)"
proof -
  have bk: "c\<lparr>payload := Some (int n), len := len c + hlen, tot_len := tot_len c + hlen\<rparr> = b" using assms(3) by (simp add: c_def)
  have "pbuf_header_force (Some p) (int (unat hlen)) (put p c h) =
      Some (0, put p (c\<lparr>payload := Some (int n), len := len c + hlen, tot_len := tot_len c + hlen\<rparr>) (put p c h))"
    using assms(2,4) by (simp add: pbuf_header_force_def pbuf_header_impl_def Let_def c_def)
  then show ?thesis unfolding bk put_back [OF assms(1)] .
qed

definition can_alloc :: "link_env \<Rightarrow> nat set \<Rightarrow> u16 \<Rightarrow> bool" where
  "can_alloc env D n \<longleftrightarrow> (\<forall>h. dom (pbufs h) \<subseteq> D \<longrightarrow> link_malloc env h n \<noteq> None)"

text \<open>
  What a packet from \<open>src\<close> to the address \<open>dest\<close> of the interface \<open>ni\<close>, with the header \<open>hdr\<close> and the
  payload \<open>m\<close>, is answered with: an echo request with an echo reply, a packet of an unknown protocol with
  an ICMP message that quotes its first bytes \<open>orig\<close>. \<open>l\<close> is the length of its first pbuf and \<open>n\<close> the
  length of the packet.
\<close>

definition ip_answered ::
  "link_env \<Rightarrow> nat \<Rightarrow> nat \<Rightarrow> u32 \<Rightarrow> u32 \<Rightarrow> bytes \<Rightarrow> bytes \<Rightarrow> nat \<Rightarrow> u16 \<Rightarrow> bytes \<Rightarrow> 'a ip_scheme \<Rightarrow> 'a ip_scheme \<Rightarrow> bool" where
  "ip_answered env ni inp src dest hdr m l n orig s t \<longleftrightarrow>
     (\<not> ip4_addr_ismulticast dest \<and> \<not> ip4_addr_isbroadcast dest (netif_of env ni) \<longrightarrow>
      (hdr ! 9 = IP_PROTO_ICMP \<and> length hdr + 4 \<le> l \<and> m ! 0 = ICMP_ECHO \<and> 8 \<le> length m \<and> inet_chksum False m = 0 \<and>
         can_alloc env (dom (pbufs (pheap s))) (ram_size 16 n) \<longrightarrow>
         (\<exists>od. ip_goes_out env inp src (echo_hdr od hdr dest src @ echo_msg m) s t)) \<and>
      (hdr ! 9 \<noteq> IP_PROTO_ICMP \<and> can_alloc env (dom (pbufs (pheap s))) (ram_size 36 36) \<longrightarrow>
         (\<forall>rt. ip4_route env (word_at orig 12) = Some rt \<longrightarrow>
           (\<exists>od. ip_goes_out env rt (word_at orig 12) (out_header 36 (ip_id s) ICMP_TTL 0 IP_PROTO_ICMP (ip_addr (netif_of env rt)) (word_at orig 12) @
              icmp_error_msg ICMP_DUR ICMP_DUR_PROTO od orig) s t))))"

lemma arp_good_same:
  "arp_good P s \<Longrightarrow> arp_table t = arp_table s \<Longrightarrow> etharp_cached_entry t = etharp_cached_entry s \<Longrightarrow> pheap t = pheap s \<Longrightarrow> arp_good P t"
  by (simp add: arp_good_def arp_inv_def)

definition ip_data_set :: "nat \<Rightarrow> nat \<Rightarrow> nat \<times> int \<Rightarrow> u16 \<Rightarrow> 'a ip_scheme \<Rightarrow> 'a ip_scheme" where
  "ip_data_set ni inp hdr hlen s = s\<lparr>current_netif := Some ni, current_input_netif := Some inp, current_ip4_header := Some hdr,
     current_ip_header_tot_len := hlen\<rparr>"

definition ip_data_clear :: "'a ip_scheme \<Rightarrow> 'a ip_scheme" where
  "ip_data_clear s = s\<lparr>current_netif := None, current_input_netif := None, current_ip4_header := None,
     current_ip_header_tot_len := 0, current_iphdr_src := IPADDR_ANY, current_iphdr_dest := IPADDR_ANY\<rparr>"

lemma ip_data_simps [simp]:
  "arp_table (ip_data_set ni inp ptr hlen s) = arp_table s" "etharp_cached_entry (ip_data_set ni inp ptr hlen s) = etharp_cached_entry s"
  "pheap (ip_data_set ni inp ptr hlen s) = pheap s" "sent (ip_data_set ni inp ptr hlen s) = sent s" "ip_id (ip_data_set ni inp ptr hlen s) = ip_id s"
  "current_iphdr_src (ip_data_set ni inp ptr hlen s) = current_iphdr_src s" "current_iphdr_dest (ip_data_set ni inp ptr hlen s) = current_iphdr_dest s"
  "current_netif (ip_data_set ni inp ptr hlen s) = Some ni" "current_ip4_header (ip_data_set ni inp ptr hlen s) = Some ptr"
  "arp_table (ip_data_clear s) = arp_table s" "etharp_cached_entry (ip_data_clear s) = etharp_cached_entry s"
  "pheap (ip_data_clear s) = pheap s" "sent (ip_data_clear s) = sent s"
  by (simp_all add: ip_data_set_def ip_data_clear_def)

lemma ip4_deliver_eq:
  fixes hlen :: u16
  assumes "packet_at (pheap s) p ((p, b) # xs)" "ip_received env inp b (map snd xs)"
    and "20 \<le> unat hlen" "unat hlen \<le> unat (len b)" "hdr = front (unat hlen) b" "ucast (IPH_HL (hdr ! 0)) * 4 = hlen" "hdr ! 9 \<noteq> IP_PROTO_TCP"
  obtains pre rest c u where "stripped env inp pre hdr rest c (map snd xs)" "length hdr = unat hlen"
    "content (c # map snd xs) = drop (unat hlen) (content (b # map snd xs))" "head_ok c" "pnext c = pnext b" "ref c = ref b"
    "unat (len c) = unat (len b) - unat hlen" "tot_len c + hlen = tot_len b" "u = ip_data_set ni inp (p, int (length pre)) hlen s"
    "ip4_deliver E env p ni inp hlen s = map_option ip_data_clear
      (if hdr ! 9 = IP_PROTO_ICMP then icmp_input E env p inp (u\<lparr>pheap := put p c (pheap s)\<rparr>)
       else if \<not> ip4_addr_isbroadcast (current_iphdr_dest s) (netif_of env ni) \<and> \<not> ip4_addr_ismulticast (current_iphdr_dest s)
         then do { t \<leftarrow> icmp_dest_unreach E env p ICMP_DUR_PROTO u; free_pbuf p t }
         else free_pbuf p (u\<lparr>pheap := put p c (pheap s)\<rparr>))"
proof -
  have b: "pbufs (pheap s) p = Some b" "head_ok b" using packet_at_Cons [OF assms(1)] by auto
  have r: "ptype b = PBUF_POOL" "ref b = 1" "readable 28 b" using assms(2) by (simp_all add: ip_received_def)
  obtain pre rest c where c: "pbuf_header (Some p) (- int (unat hlen)) (pheap s) = Some (0, put p c (pheap s))"
    "stripped env inp pre hdr rest c (map snd xs)" "payload b = Some (int (length pre))"
    "content (c # map snd xs) = drop (unat hlen) (content (b # map snd xs))" "head_ok c" "pnext c = pnext b"
    "unat (len c) = unat (len b) - unat hlen" "tot_len c + hlen = tot_len b"
    "c = b\<lparr>payload := Some (int (length pre) + uint hlen), len := len b - hlen, tot_len := tot_len b - hlen\<rparr>"
    using strip_header [OF b assms(2-4)] assms(5) by metis
  have hl: "length hdr = unat hlen" "readable (unat hlen) b" using b(2) assms(4,5) length_front [of "unat hlen" b]
    by (auto simp: head_ok_def readable_def)
  let ?u = "ip_data_set ni inp (p, int (length pre)) hlen s"
  have ar: "area b = pre @ hdr @ rest" using c(2,9) by (simp add: stripped_def ip_view_def)
  have pk: "peek8 p 0 s = Some (hdr ! 0)" "ptr_read (p, int (length pre)) 9 1 (?u\<lparr>pheap := put p c (pheap s)\<rparr>) = Some [hdr ! 9]"
  proof -
    show "peek8 p 0 s = Some (hdr ! 0)" using peek8_eq [OF b(1) c(3), of 0] ar hl(1) assms(3) by (simp add: nth_append)
    have "payload_read (c\<lparr>payload := Some (int (length pre))\<rparr>) 9 1 = Some (take 1 (drop 9 (hdr @ rest)))"
      using c(9) ar hl(1) assms(3) by (intro payload_read_area [of _ pre]) simp_all
    moreover have "take 1 (drop 9 (hdr @ rest)) = [hdr ! 9]"
      using hl(1) assms(3) Cons_nth_drop_Suc [of 9 "hdr @ rest", symmetric] by (simp add: nth_append)
    ultimately show "ptr_read (p, int (length pre)) 9 1 (?u\<lparr>pheap := put p c (pheap s)\<rparr>) = Some [hdr ! 9]" by (simp add: ptr_read_def)
  qed
  have nz: "uint hlen \<noteq> 0" using assms(3) by (auto simp: unsigned_eq_0_iff)
  have same: "put p (b\<lparr>payload := Some (int (length pre))\<rparr>) (pheap s) = pheap s" using b(1) c(3) by (simp add: fun_upd_idem)
  have us: "s\<lparr>current_netif := Some ni, current_input_netif := Some inp, current_ip4_header := Some (p, int (length pre)),
      current_ip_header_tot_len := hlen\<rparr> = ?u" by (simp add: ip_data_set_def)
  have uu: "?u\<lparr>pheap := pheap s\<rparr> = ?u" by (simp add: ip_data_set_def)
  have eq: "ip4_deliver E env p ni inp hlen s = map_option ip_data_clear
      (if hdr ! 9 = IP_PROTO_ICMP then icmp_input E env p inp (?u\<lparr>pheap := put p c (pheap s)\<rparr>)
       else if \<not> ip4_addr_isbroadcast (current_iphdr_dest s) (netif_of env ni) \<and> \<not> ip4_addr_ismulticast (current_iphdr_dest s)
         then do { t \<leftarrow> icmp_dest_unreach E env p ICMP_DUR_PROTO ?u; free_pbuf p t }
         else free_pbuf p (?u\<lparr>pheap := put p c (pheap s)\<rparr>))"
    unfolding ip4_deliver_def b(1) c(3) pk(1) Option.bind.bind_lunit Let_def assms(6) us
    using c(1) pk(2) assms(7) b(1) unstrip_header [OF b(1) r(1) c(3) nz c(9)] same
    by (simp add: uu map_conv_bind_option comp_def ip_data_clear_def)
  have "ref c = ref b" by (simp add: c(9))
  then show thesis using that [OF c(2) hl(1) c(4-6) _ c(7,8) refl eq] by blast
qed

lemma ip4_deliver_total:
  fixes hlen :: u16
  assumes "arp_good P s" "p \<in> P" "link_ok env" "link_mtu env" "packet_at (pheap s) p ((p, b) # xs)" "ip_received env inp b (map snd xs)"
    and "20 \<le> unat hlen" "unat hlen \<le> unat (len b)" "hdr = front (unat hlen) b" "ucast (IPH_HL (hdr ! 0)) * 4 = hlen" "hdr ! 9 \<noteq> IP_PROTO_TCP"
  shows "\<exists>t l. ip4_deliver E env p ni inp hlen s = Some t \<and> arp_good (P - {p}) t \<and> keeps (P - {p}) (pheap s) (pheap t) \<and> sent t = sent s @ l \<and>
    ip_answered env ni inp (current_iphdr_src s) (current_iphdr_dest s) hdr (drop (unat hlen) (content (b # map snd xs))) (unat (len b)) (tot_len b)
      (front 28 b) s t"
proof -
  have b: "pbufs (pheap s) p = Some b" "readable 28 b" "ref b = 1"
    using packet_at_Cons [OF assms(5)] assms(6) by (auto simp: ip_received_def)
  obtain pre rest c u where c: "stripped env inp pre hdr rest c (map snd xs)" "length hdr = unat hlen"
    "content (c # map snd xs) = drop (unat hlen) (content (b # map snd xs))" "head_ok c" "pnext c = pnext b" "ref c = ref b"
    "unat (len c) = unat (len b) - unat hlen" "tot_len c + hlen = tot_len b" "u = ip_data_set ni inp (p, int (length pre)) hlen s"
    and eq: "ip4_deliver E env p ni inp hlen s = map_option ip_data_clear
      (if hdr ! 9 = IP_PROTO_ICMP then icmp_input E env p inp (u\<lparr>pheap := put p c (pheap s)\<rparr>)
       else if \<not> ip4_addr_isbroadcast (current_iphdr_dest s) (netif_of env ni) \<and> \<not> ip4_addr_ismulticast (current_iphdr_dest s)
         then do { t \<leftarrow> icmp_dest_unreach E env p ICMP_DUR_PROTO u; free_pbuf p t }
         else free_pbuf p (u\<lparr>pheap := put p c (pheap s)\<rparr>))"
    using ip4_deliver_eq [OF assms(5-11), of ni E] by metis
  let ?v = "u\<lparr>pheap := put p c (pheap s)\<rparr>"
  have vf: "pheap ?v = put p c (pheap s)" "arp_table ?v = arp_table s" "etharp_cached_entry ?v = etharp_cached_entry s" by (simp_all add: c(9))
  have rf: "0 < ref c" using c(6) b(3) by simp
  note g = arp_good_put [OF assms(1,2,5) c(5) rf c(4) vf]
  have gu: "arp_good P u" using assms(1) by (rule arp_good_same) (simp_all add: c(9))
  show ?thesis
  proof (cases "hdr ! 9 = IP_PROTO_ICMP")
    case True
    have cur: "current_ip4_header ?v = Some (p, int (length pre))" "current_netif ?v = Some ni" by (simp_all add: c(9))
    obtain t l where t: "icmp_input E env p inp ?v = Some t" "arp_good (P - {p}) t" "keeps (P - {p}) (pheap ?v) (pheap t)" "sent t = sent ?v @ l"
      "4 \<le> unat (len c) \<and> content (c # map snd xs) ! 0 = ICMP_ECHO \<longrightarrow> echo_answered env ni inp pre hdr (content (c # map snd xs)) c ?v t"
      using icmp_input_total [OF g(1) assms(2,3) g(2) c(1) cur assms(10) c(2), of E] by blast
    have mem: "echo_memory env pre (of_nat (length hdr)) c (pheap ?v)" if "can_alloc env (dom (pbufs (pheap s))) (ram_size 16 (tot_len b))"
    proof -
      have "dom (pbufs (put p c (pheap s))) \<subseteq> dom (pbufs (pheap s))" using b(1) by auto
      then have "link_malloc env (put p c (pheap s)) (ram_size 16 (tot_len b)) \<noteq> None" using that unfolding can_alloc_def by blast
      then show ?thesis using c(2,8) by (simp add: echo_memory_def)
    qed
    have "ip_answered env ni inp (current_iphdr_src s) (current_iphdr_dest s) hdr (content (c # map snd xs)) (unat (len b)) (tot_len b)
        (front 28 b) s (ip_data_clear t)"
      using t(5) mem c(2,7) assms(8) True
      by (auto simp: ip_answered_def echo_answered_def Let_def c(9) ip_goes_out_def resolved_def)
    moreover have "arp_good (P - {p}) (ip_data_clear t)" using t(2) by (rule arp_good_same) simp_all
    ultimately show ?thesis using eq t(1,4) keeps_trans [OF g(3) t(3)] c(3) True by (auto simp: c(9))
  next
    case False
    show ?thesis
    proof (cases "ip4_addr_isbroadcast (current_iphdr_dest s) (netif_of env ni) \<or> ip4_addr_ismulticast (current_iphdr_dest s)")
      case True
      obtain h where h: "free_pbuf p ?v = Some (?v\<lparr>pheap := h\<rparr>)" "arp_good (P - {p}) (?v\<lparr>pheap := h\<rparr>)" "keeps (P - {p}) (pheap ?v) h"
        using arp_good_free [OF g(1) assms(2)] by blast
      have "arp_good (P - {p}) (ip_data_clear (?v\<lparr>pheap := h\<rparr>))" using h(2) by (rule arp_good_same) simp_all
      then show ?thesis using eq False True h(1) keeps_trans [OF g(3) h(3)] by (auto simp: ip_answered_def Let_def c(9))
    next
      case uni: False
      obtain t l where t: "icmp_send_response E env p ICMP_DUR ICMP_DUR_PROTO u = Some t" "arp_good P t" "keeps P (pheap u) (pheap t)"
        "sent t = sent u @ l" "error_sent E env ICMP_DUR ICMP_DUR_PROTO (front 28 b) u t"
        using send_response_total [OF gu assms(2-4) _ b(2), of E ICMP_DUR ICMP_DUR_PROTO] b(1) by (auto simp: c(9))
      obtain h where h: "free_pbuf p t = Some (t\<lparr>pheap := h\<rparr>)" "arp_good (P - {p}) (t\<lparr>pheap := h\<rparr>)" "keeps (P - {p}) (pheap t) h"
        using arp_good_free [OF t(2) assms(2)] by blast
      have "arp_good (P - {p}) (ip_data_clear (t\<lparr>pheap := h\<rparr>))" using h(2) by (rule arp_good_same) simp_all
      moreover have "keeps (P - {p}) (pheap s) h" using keeps_trans [OF keeps_mono [OF t(3)] h(3)] by (simp add: c(9))
      moreover have "\<exists>q. link_malloc env (pheap u) (ram_size 36 36) = Some q" if "can_alloc env (dom (pbufs (pheap s))) (ram_size 36 36)"
        using that unfolding can_alloc_def by (auto simp: c(9))
      then have "ip_answered env ni inp (current_iphdr_src s) (current_iphdr_dest s) hdr m (unat (len b)) (tot_len b) (front 28 b) s
          (ip_data_clear (t\<lparr>pheap := h\<rparr>))" for m
        using t(5) False by (fastforce simp: ip_answered_def error_sent_def ip_goes_out_def resolved_def c(9))
      moreover have "ip4_deliver E env p ni inp hlen s = Some (ip_data_clear (t\<lparr>pheap := h\<rparr>))"
        using eq False uni t(1) h(1) by (simp add: icmp_dest_unreach_def)
      ultimately show ?thesis using t(4) by (auto simp: c(9))
    qed
  qed
qed

lemma peek16_front:
  assumes "pbufs (pheap s) p = Some b" "readable n b" "k + 2 \<le> n"
  shows "peek16 p k s = Some (le16_of_bytes (front n b ! k) (front n b ! (k + 1)))"
  using peek_front [OF assms(1,2,3)] length_front [OF assms(2)] assms(3) by (simp add: peek16_def add.commute)

lemma peek8_front:
  assumes "pbufs (pheap s) p = Some b" "readable n b" "k < n"
  shows "peek8 p k s = Some (front n b ! k)"
  using peek_front [OF assms(1,2), of k 1] length_front [OF assms(2)] assms(3) by (simp add: peek8_def)

lemma front_take: "m \<le> n \<Longrightarrow> front m b = take m (front n b)"
  by (simp add: front_def min_def)

lemma front_same: "payload c = payload b \<Longrightarrow> area c = area b \<Longrightarrow> front n c = front n b"
  by (simp add: front_def)

lemma can_alloc_mono: "can_alloc env D n \<Longrightarrow> D' \<subseteq> D \<Longrightarrow> can_alloc env D' n"
  unfolding can_alloc_def by blast

text \<open>The fields of the header that starts with \<open>f\<close>.\<close>

definition hdr_len :: "bytes \<Rightarrow> u16" where "hdr_len f = ucast (IPH_HL (f ! 0)) * 4"
definition pkt_len :: "bytes \<Rightarrow> u16" where "pkt_len f = lwip_htons (le16_of_bytes (f ! 2) (f ! 3))"
definition is_fragment :: "bytes \<Rightarrow> bool" where
  "is_fragment f \<longleftrightarrow> le16_of_bytes (f ! 6) (f ! 7) AND PP_HTONS (IP_OFFMASK OR IP_MF) \<noteq> 0"

lemma ip4_route_in_total:
  assumes "arp_good P s" "p \<in> P" "link_ok env" "link_mtu env" "packet_at (pheap s) p ((p, b) # xs)" "ip_received env inp b (map snd xs)"
    and "20 \<le> unat hlen" "unat hlen \<le> unat (len b)" "f = front 28 b" "hdr_len f = hlen" "\<not> is_fragment f" "f ! 9 \<noteq> IP_PROTO_TCP"
    and "src = word_at f 12" "dest = word_at f 16"
  shows "\<exists>t l. ip4_route_in E env p inp hlen s = Some t \<and> arp_good (P - {p}) t \<and> keeps (P - {p}) (pheap s) (pheap t) \<and> sent t = sent s @ l \<and>
    (\<forall>ni. \<not> ip4_addr_isbroadcast src (netif_of env inp) \<and> \<not> ip4_addr_ismulticast src \<and> ip4_accept env inp dest = Some ni \<longrightarrow>
      ip_answered env ni inp src dest (front (unat hlen) b) (drop (unat hlen) (content (b # map snd xs))) (unat (len b)) (tot_len b) f s t)"
proof -
  have b: "pbufs (pheap s) p = Some b" using packet_at_Cons [OF assms(5)] by auto
  have r: "readable 28 b" using assms(6) by (simp add: ip_received_def)
  let ?u = "s\<lparr>current_iphdr_dest := dest, current_iphdr_src := src\<rparr>"
  have pk: "peek32 p 16 s = Some dest" "peek32 p 12 s = Some src" "peek16 p 6 ?u = Some (le16_of_bytes (f ! 6) (f ! 7))"
    using peek32_front [OF b r, of 16] peek32_front [OF b r, of 12] peek16_front [OF _ r, of ?u p 6] b assms(9,13,14) by simp_all
  have gu: "arp_good P ?u" using assms(1) by (rule arp_good_same) simp_all
  obtain h where h: "free_pbuf p ?u = Some (?u\<lparr>pheap := h\<rparr>)" "arp_good (P - {p}) (?u\<lparr>pheap := h\<rparr>)" "keeps (P - {p}) (pheap s) h"
    using arp_good_free [OF gu assms(2)] by auto
  have hd: "front (unat hlen) b ! k = f ! k" if "k < 20" for k
    using assms(7) that r assms(9) by (cases "unat hlen \<le> 28") (auto simp: front_def readable_def)
  let ?drop = "ip4_addr_isbroadcast src (netif_of env inp) \<or> ip4_addr_ismulticast src"
  have eq: "ip4_route_in E env p inp hlen s = (if ?drop then free_pbuf p ?u else case ip4_accept env inp dest of None \<Rightarrow> free_pbuf p ?u
      | Some ni \<Rightarrow> ip4_deliver E env p ni inp hlen ?u)"
    using pk assms(11) by (simp add: ip4_route_in_def is_fragment_def split: option.split)
  show ?thesis
  proof (cases "?drop \<or> ip4_accept env inp dest = None")
    case True
    then show ?thesis using eq h by auto
  next
    case False
    then obtain ni where ni: "ip4_accept env inp dest = Some ni" by auto
    have pu: "packet_at (pheap ?u) p ((p, b) # xs)" using assms(5) by simp
    have hl: "ucast (IPH_HL (front (unat hlen) b ! 0)) * 4 = hlen" "front (unat hlen) b ! 9 \<noteq> IP_PROTO_TCP"
      using hd assms(10,12) by (simp_all add: hdr_len_def)
    obtain t l where t: "ip4_deliver E env p ni inp hlen ?u = Some t" "arp_good (P - {p}) t" "keeps (P - {p}) (pheap ?u) (pheap t)" "sent t = sent ?u @ l"
      "ip_answered env ni inp (current_iphdr_src ?u) (current_iphdr_dest ?u) (front (unat hlen) b) (drop (unat hlen) (content (b # map snd xs)))
        (unat (len b)) (tot_len b) (front 28 b) ?u t"
      using ip4_deliver_total [OF gu assms(2-4) pu assms(6-8) refl hl, of E ni] by blast
    have "ip_answered env ni inp src dest (front (unat hlen) b) (drop (unat hlen) (content (b # map snd xs))) (unat (len b)) (tot_len b) f s t"
      using t(5) assms(9) by (simp add: ip_answered_def ip_goes_out_def resolved_def)
    then show ?thesis using eq False ni t(1-4) by auto
  qed
qed

lemma cut_packet:
  assumes "arp_good P s" "p \<in> P" "packet_at (pheap s) p ((p, b) # xs)" "ip_received env ni b (map snd xs)"
  obtains h c ys where "(if n < tot_len b then pbuf_realloc (Some p) n (pheap s) else Some (pheap s)) = Some h"
    "arp_good P (s\<lparr>pheap := h\<rparr>)" "keeps (P - {p}) (pheap s) h" "packet_at h p ((p, c) # ys)" "n \<noteq> 0 \<longrightarrow> ip_received env ni c (map snd ys)"
    "content (c # map snd ys) = take (unat n) (content (b # map snd xs))" "payload c = payload b" "area c = area b"
    "unat (len c) = min (unat (len b)) (unat n)" "unat (tot_len c) = min (unat (tot_len b)) (unat n)" "dom (pbufs h) \<subseteq> dom (pbufs (pheap s))"
proof (cases "n < tot_len b")
  case False
  have pk: "packet (b # map snd xs)" using assms(4) by (simp add: ip_received_def)
  then have le: "unat (len b) \<le> unat n" "unat (tot_len b) \<le> unat n" "length (content (b # map snd xs)) \<le> unat n"
    using False length_content [OF pk] by (simp_all add: word_less_nat_alt)
  show thesis by (rule that [of "pheap s" b xs]) (use False assms le in simp_all)
next
  case True
  have r: "packet (b # map snd xs)" "no_empty (map snd xs)" "ptype b = PBUF_POOL" "ref b = 1" "readable 28 b" using assms(4) by (simp_all add: ip_received_def)
  obtain h c ys where c: "pbuf_realloc (Some p) n (pheap s) = Some h" "packet_at h p ((p, c) # ys)" "packet (c # map snd ys)"
    "n \<noteq> 0 \<longrightarrow> no_empty (map snd ys)"
    "content (c # map snd ys) = take (unat n) (content (b # map snd xs))" "ptype c = PBUF_POOL" "ref c = ref b" "payload c = payload b"
    "area c = area b" "unat (len c) = min (unat (len b)) (unat n)" "fst ` set ((p, c) # ys) \<subseteq> fst ` set ((p, b) # xs)"
    "\<And>a. a \<notin> fst ` set ((p, b) # xs) \<Longrightarrow> pbufs h a = pbufs (pheap s) a"
    by (rule realloc_packet [OF assms(3) r(1-3) True]) blast
  note g = arp_goodD [OF assms(1)]
  have ch: "chain (pbufs (pheap s)) (Some p) ((p, b) # xs)" using assms(3) by (simp add: packet_at_def)
  have p: "p \<in> queues (arp_table s) \<union> P" using assms(2) by simp
  note o = owns_replace [OF g(4) p ch c(2,11,12)]
  have good: "arp_good P (s\<lparr>pheap := h\<rparr>)" using g o(1) by (simp add: arp_good_def arp_inv_def)
  have kp: "keeps (P - {p}) (pheap s) h" by (rule keeps_mono [OF o(2)]) auto
  have lt: "unat n < unat (tot_len b)" using True by (simp add: word_less_nat_alt)
  have "length (content (c # map snd ys)) = unat n" unfolding c(5) using length_content [OF r(1)] r(1) lt by simp
  then have len: "total_len (c # map snd ys) = unat n" using length_content [OF c(3)] by simp
  then have tl: "unat (tot_len c) = unat n" using c(3) by simp
  have rec: "ip_received env ni c (map snd ys)" if "n \<noteq> 0"
  proof -
    have "total_len (c # map snd ys) \<le> total_len (b # map snd xs)" using len lt r(1) by simp
    then show ?thesis using that assms(4) c(3,4,6,7,8,9) by (simp add: ip_received_def readable_def del: total_len_simps) linarith
  qed
  have dom: "dom (pbufs h) \<subseteq> dom (pbufs (pheap s))"
  proof
    fix a assume a: "a \<in> dom (pbufs h)"
    show "a \<in> dom (pbufs (pheap s))" using a c(12) [of a] chain_lookup [OF ch] by (cases "a \<in> fst ` set ((p, b) # xs)") force+
  qed
  show thesis by (rule that [OF _ good kp c(2) _ c(5,8,9,10) _ dom]) (use True c(1) rec tl lt in simp_all)
qed

text \<open>
  The packet \<open>b # bs\<close> is a valid IP packet for the interface \<open>ni\<close>, with the header \<open>hdr\<close> and the payload
  \<open>m\<close>; what follows them in the frame is padding.
\<close>

definition ip_valid :: "link_env \<Rightarrow> nat \<Rightarrow> nat \<Rightarrow> pbuf \<Rightarrow> pbuf list \<Rightarrow> bytes \<Rightarrow> bytes \<Rightarrow> bool" where
  "ip_valid env ni inp b bs hdr m \<longleftrightarrow>
     (let f = front 28 b; hlen = unat (hdr_len f); n = unat (pkt_len f)
      in IPH_V (f ! 0) = 4 \<and> 20 \<le> hlen \<and> hlen \<le> unat (len b) \<and> hlen \<le> n \<and> n \<le> total_len (b # bs) \<and>
         hdr = front hlen b \<and> inet_chksum False hdr = 0 \<and> m = take (n - hlen) (drop hlen (content (b # bs))) \<and>
         \<not> ip4_addr_isbroadcast (word_at f 12) (netif_of env inp) \<and> \<not> ip4_addr_ismulticast (word_at f 12) \<and>
         ip4_accept env inp (word_at f 16) = Some ni)"

lemma hdr_len_small: "unat (hdr_len f) \<le> 60"
proof -
  have "unat (IPH_HL (f ! 0)) \<le> 15"
  proof -
    have "(0x0f :: u8) = mask 4" by (simp add: mask_numeral)
    then have "IPH_HL (f ! 0) = take_bit 4 (f ! 0)" by (simp only: IPH_HL_def take_bit_eq_mask)
    then have "unat (IPH_HL (f ! 0)) = take_bit 4 (unat (f ! 0))" by (simp only: unsigned_take_bit_eq)
    then have "unat (IPH_HL (f ! 0)) = unat (f ! 0) mod 16" by (simp add: take_bit_eq_mod [where ?'a = nat])
    then show ?thesis by simp
  qed
  then have "unat (ucast (IPH_HL (f ! 0)) :: u16) * 4 \<le> 60" by (simp only: unat_ucast_8)
  moreover have "unat (hdr_len f) \<le> unat (ucast (IPH_HL (f ! 0)) :: u16) * 4"
    unfolding hdr_len_def by (simp add: unat_word_ariths)
  ultimately show ?thesis by simp
qed

lemma ip4_input_total:
  assumes "arp_good P s" "p \<in> P" "link_ok env" "link_mtu env" "packet_at (pheap s) p ((p, b) # xs)" "ip_received env inp b (map snd xs)"
    and "f = front 28 b" "\<not> is_fragment f" "f ! 9 \<noteq> IP_PROTO_TCP" "src = word_at f 12" "dest = word_at f 16"
  shows "\<exists>t l. ip4_input E env p inp s = Some t \<and> arp_good (P - {p}) t \<and> keeps (P - {p}) (pheap s) (pheap t) \<and> sent t = sent s @ l \<and>
    (\<forall>ni hdr m. ip_valid env ni inp b (map snd xs) hdr m \<longrightarrow>
       ip_answered env ni inp src dest hdr m (min (unat (len b)) (unat (pkt_len f))) (pkt_len f) f s t)"
proof -
  have b: "pbufs (pheap s) p = Some b" using packet_at_Cons [OF assms(5)] by auto
  have r: "readable 28 b" "packet (b # map snd xs)" using assms(6) by (simp_all add: ip_received_def)
  let ?n = "pkt_len f" and ?hl = "hdr_len f"
  obtain h c ys where c: "(if ?n < tot_len b then pbuf_realloc (Some p) ?n (pheap s) else Some (pheap s)) = Some h"
    "arp_good P (s\<lparr>pheap := h\<rparr>)" "keeps (P - {p}) (pheap s) h" "packet_at h p ((p, c) # ys)" "?n \<noteq> 0 \<longrightarrow> ip_received env inp c (map snd ys)"
    "content (c # map snd ys) = take (unat ?n) (content (b # map snd xs))" "payload c = payload b" "area c = area b"
    "unat (len c) = min (unat (len b)) (unat ?n)" "unat (tot_len c) = min (unat (tot_len b)) (unat ?n)" "dom (pbufs h) \<subseteq> dom (pbufs (pheap s))"
    by (rule cut_packet [OF assms(1,2,5,6), of ?n]) blast
  let ?u = "s\<lparr>pheap := h\<rparr>"
  have fc: "front k c = front k b" for k using c(7,8) by (rule front_same)
  have cb: "pbufs h p = Some c" "head_ok c" using packet_at_Cons [OF c(4)] by auto
  have pk: "peek8 p 0 s = Some (f ! 0)" "peek16 p 2 s = Some (le16_of_bytes (f ! 2) (f ! 3))"
    using peek8_front [OF b r(1), of 0] peek16_front [OF b r(1), of 2] assms(7) by simp_all
  have stop: "\<exists>h'. free_pbuf p v = Some (v\<lparr>pheap := h'\<rparr>) \<and> arp_good (P - {p}) (v\<lparr>pheap := h'\<rparr>) \<and> keeps (P - {p}) (pheap v) h'"
    if "arp_good P v" for v :: "'b ip_scheme"
    using arp_good_free [OF that assms(2)] by blast
  let ?bad = "len c < ?hl \<or> tot_len c < ?n \<or> unat ?hl < IP_HLEN"
  have eq: "ip4_input E env p inp s = (if IPH_V (f ! 0) \<noteq> 4 then free_pbuf p s else if ?bad then free_pbuf p ?u
      else do { hdr \<leftarrow> peek_at p 0 (unat ?hl) ?u; if inet_chksum (odd_at E p) hdr \<noteq> 0 then free_pbuf p ?u else ip4_route_in E env p inp ?hl ?u })"
    unfolding ip4_input_def pk Option.bind.bind_lunit Let_def hdr_len_def [symmetric] pkt_len_def [symmetric] b c(1) using cb(1) by simp
  show ?thesis
  proof (cases "IPH_V (f ! 0) = 4 \<and> \<not> ?bad")
    case False
    then have nv: "\<not> ip_valid env ni inp b (map snd xs) hdr m" for ni hdr m
      using c(9,10) r(2) assms(7) by (auto simp: ip_valid_def Let_def word_less_nat_alt IP_HLEN_def)
    let ?v = "if IPH_V (f ! 0) = 4 then ?u else s"
    have v: "ip4_input E env p inp s = free_pbuf p ?v" "arp_good P ?v" "keeps (P - {p}) (pheap s) (pheap ?v)" "sent ?v = sent s"
      using eq False assms(1) c(2,3) by simp_all
    obtain h' where h': "free_pbuf p ?v = Some (?v\<lparr>pheap := h'\<rparr>)" "arp_good (P - {p}) (?v\<lparr>pheap := h'\<rparr>)" "keeps (P - {p}) (pheap ?v) h'"
      using stop [OF v(2)] by blast
    show ?thesis using v(1,4) h'(1,2) keeps_trans [OF v(3) h'(3)] nv by (intro exI [of _ "?v\<lparr>pheap := h'\<rparr>"] exI [of _ "[]"]) simp
  next
    case True
    then have ok: "20 \<le> unat ?hl" "unat ?hl \<le> unat (len c)" "unat ?n \<le> unat (tot_len c)" by (auto simp: word_less_nat_alt IP_HLEN_def)
    then have nz: "?n \<noteq> 0" using c(9) by auto
    have rd: "readable (unat ?hl) c" using cb(2) ok(2) by (auto simp: head_ok_def readable_def)
    let ?hdr = "front (unat ?hl) b"
    have hd: "peek_at p 0 (unat ?hl) ?u = Some ?hdr" using peek_front [of ?u p c, OF _ rd, of 0 "unat ?hl"] cb(1) ok(1) length_front [OF rd] fc by simp
    have lh: "length ?hdr = unat ?hl" using length_front [OF rd] fc by simp
    have ck: "inet_chksum od ?hdr = 0 \<longleftrightarrow> inet_chksum False ?hdr = 0" for od
      using lh hdr_len_small [of f] by (simp add: chksum_zero_iff)
    show ?thesis
    proof (cases "inet_chksum False ?hdr = 0")
      case False
      then have "ip4_input E env p inp s = free_pbuf p ?u" using eq True hd ck by simp
      moreover have "\<not> ip_valid env ni inp b (map snd xs) hdr m" for ni hdr m using False assms(7) by (auto simp: ip_valid_def Let_def)
      ultimately show ?thesis using stop [OF c(2)] keeps_trans [OF c(3)] by fastforce
    next
      case valid: True
      have pu: "packet_at (pheap ?u) p ((p, c) # ys)" using c(4) by simp
      have rc: "ip_received env inp c (map snd ys)" using c(5) nz by simp
      have f: "f = front 28 c" using assms(7) fc by simp
      obtain t l where t: "ip4_route_in E env p inp ?hl ?u = Some t" "arp_good (P - {p}) t" "keeps (P - {p}) (pheap ?u) (pheap t)" "sent t = sent ?u @ l"
        "\<forall>ni. \<not> ip4_addr_isbroadcast src (netif_of env inp) \<and> \<not> ip4_addr_ismulticast src \<and> ip4_accept env inp dest = Some ni \<longrightarrow>
          ip_answered env ni inp src dest (front (unat ?hl) c) (drop (unat ?hl) (content (c # map snd ys))) (unat (len c)) (tot_len c) f ?u t"
        using ip4_route_in_total [OF c(2) assms(2-4) pu rc ok(1,2) f refl assms(8-11), of E] by blast
      have "ip4_input E env p inp s = Some t" using eq True hd ck valid t(1) by simp
      moreover have "ip_answered env ni inp src dest hdr m (min (unat (len b)) (unat ?n)) ?n f s t" if v: "ip_valid env ni inp b (map snd xs) hdr m" for ni hdr m
      proof -
        have "hdr = ?hdr" "m = drop (unat ?hl) (content (c # map snd ys))" "unat ?n \<le> unat (tot_len b)"
          using v assms(7) r(2) c(6) by (simp_all add: ip_valid_def Let_def drop_take)
        moreover from this have "tot_len c = ?n" using c(10) by (simp add: word_unat_eq_iff)
        moreover have "\<not> ip4_addr_isbroadcast src (netif_of env inp) \<and> \<not> ip4_addr_ismulticast src \<and> ip4_accept env inp dest = Some ni"
          using v assms(7,10,11) by (simp add: ip_valid_def Let_def)
        ultimately have "ip_answered env ni inp src dest hdr m (min (unat (len b)) (unat ?n)) ?n f ?u t" using t(5) c(9) fc by simp
        then show ?thesis using can_alloc_mono [OF _ c(11)]
          unfolding ip_answered_def ip_goes_out_def resolved_def by simp
      qed
      ultimately show ?thesis using t(2,4) keeps_trans [OF c(3)] t(3) by auto
    qed
  qed
qed

end
