(* ===== verification/LinkInput.thy ===== *)
theory LinkInput
  imports Ip4Input
begin

text \<open>
  What comes in from the link: ARP packets and IP packets of any form, and whole frames. The ARP side is
  total for every packet that fills its pool pbuf's first 28 bytes with anything
  (\<^verbatim>\<open>etharp_input_total\<close>); with \<^verbatim>\<open>ip4_input_total\<close> of \<^verbatim>\<open>Ip4Input\<close> this gives the safety of
  \<^verbatim>\<open>ethernet_input\<close> and the answer to a ping.
\<close>

section \<open>Any ARP packet\<close>

lemma le16_bytes_of: "le16_bytes (le16_of_bytes a b) = [a, b]"
proof -
  have "(ucast (le16_of_bytes a b) :: u8) = a" "(ucast (drop_bit 8 (le16_of_bytes a b)) :: u8) = b"
    by (rule bit_word_eqI, auto simp: le16_of_bytes_def bit_simps dest: bit_imp_le_length)+
  then show ?thesis by (simp add: le16_bytes_def)
qed

lemma le32_bytes_of: "le32_bytes (le32_of_bytes a b c d) = [a, b, c, d]"
proof -
  have "(ucast (le32_of_bytes a b c d) :: u8) = a" "(ucast (drop_bit 8 (le32_of_bytes a b c d)) :: u8) = b"
    "(ucast (drop_bit 16 (le32_of_bytes a b c d)) :: u8) = c" "(ucast (drop_bit 24 (le32_of_bytes a b c d)) :: u8) = d"
    by (rule bit_word_eqI, auto simp: le32_of_bytes_def bit_simps dest: bit_imp_le_length)+
  then show ?thesis by (simp add: le32_bytes_def)
qed

lemma take_word: "k + 4 \<le> length f \<Longrightarrow> take 4 (drop k f) = le32_bytes (word_at f k)"
  unfolding word_at_def le32_bytes_of
  by (rule nth_equalityI) (auto simp: less_Suc_eq numeral_eq_Suc add.commute)

lemma take_half: "k + 2 \<le> length f \<Longrightarrow> take 2 (drop k f) = le16_bytes (le16_of_bytes (f ! k) (f ! (k + 1)))"
  unfolding le16_bytes_of by (rule nth_equalityI) (auto simp: less_Suc_eq numeral_eq_Suc add.commute)

text \<open>A packet that passes the check of the header has the layout of an ARP packet.\<close>

lemma arp_pbuf_front:
  assumes "pbufs (pheap s) p = Some b" "readable 28 b" "arp_hdr_wrong p s = Some False"
  shows "\<exists>pre opcode shw sip dhw dip rest. arp_pbuf pre opcode shw sip dhw dip rest b"
proof -
  let ?f = "front 28 b"
  obtain off where off: "payload b = Some off" "0 \<le> off" "nat off + 28 \<le> length (area b)" using assms(2) by (auto simp: readable_def)
  have lf: "length ?f = 28" by (rule length_front [OF assms(2)])
  have pk: "peek16 p 0 s = Some (le16_of_bytes (?f ! 0) (?f ! 1))" "peek16 p 2 s = Some (le16_of_bytes (?f ! 2) (?f ! 3))"
    "peek_at p 4 1 s = Some (take 1 (drop 4 ?f))" "peek_at p 5 1 s = Some (take 1 (drop 5 ?f))"
    using peek16_front [OF assms(1,2), of 0] peek16_front [OF assms(1,2), of 2] peek_front [OF assms(1,2), of 4 1] peek_front [OF assms(1,2), of 5 1] by simp_all
  have h: "le16_of_bytes (?f ! 0) (?f ! 1) = PP_HTONS HWTYPE_ETHERNET" "take 1 (drop 4 ?f) = [6]" "take 1 (drop 5 ?f) = [4]"
    "le16_of_bytes (?f ! 2) (?f ! 3) = PP_HTONS ETHTYPE_IP"
    using assms(3) pk by (auto simp: arp_hdr_wrong_def ETH_HWADDR_LEN_def split: if_splits)
  let ?op = "lwip_htons (le16_of_bytes (?f ! 6) (?f ! 7))" and ?shw = "take 6 (drop 8 ?f)" and ?dhw = "take 6 (drop 18 ?f)"
  have "arp_packet ?op ?shw (word_at ?f 14) ?dhw (word_at ?f 24) =
      take 2 (drop 0 ?f) @ take 2 (drop 2 ?f) @ (take 1 (drop 4 ?f) @ take 1 (drop 5 ?f)) @ take 2 (drop 6 ?f) @ take 6 (drop 8 ?f) @
      take 4 (drop 14 ?f) @ take 6 (drop 18 ?f) @ take 4 (drop 24 ?f)"
    unfolding arp_packet_def using h lf take_half [of 0 ?f] take_word [of 24 ?f] by (simp add: take_word take_half)
  also have "\<dots> = ?f"
  proof -
    have c: "take k (drop i ?f) @ drop (k + i) ?f = drop i ?f" for k i by (metis append_take_drop_id drop_drop)
    have e: "take 4 (drop 24 ?f) = drop 24 ?f" using lf by simp
    show ?thesis
      unfolding e using c [of 2 0] c [of 2 2] c [of 1 4] c [of 1 5] c [of 2 6] c [of 6 8] c [of 4 14] c [of 6 18] by simp
  qed
  finally have eq: "arp_packet ?op ?shw (word_at ?f 14) ?dhw (word_at ?f 24) = ?f" .
  have "area b = take (nat off) (area b) @ ?f @ drop (nat off + 28) (area b)"
    using off(1) append_take_drop_id [of 28 "drop (nat off) (area b)"] by (simp add: front_def add.commute)
  then have "arp_pbuf (take (nat off) (area b)) ?op ?shw (word_at ?f 14) ?dhw (word_at ?f 24) (drop (nat off + 28) (area b)) b"
    using off lf by (simp add: arp_pbuf_def arp_area_def eq)
  then show ?thesis by blast
qed

lemma etharp_input_total:
  assumes "arp_good P s" "p \<in> P" "link_ok env" "pbufs (pheap s) p = Some b" "readable 28 b"
  shows "\<exists>t l. etharp_input env p (Some ni) s = Some t \<and> arp_good (P - {p}) t \<and> keeps (P - {p}) (pheap s) (pheap t) \<and> sent t = sent s @ l"
proof -
  have "\<exists>w. arp_hdr_wrong p s = Some w"
    using peek16_front [OF assms(4,5), of 0] peek16_front [OF assms(4,5), of 2] peek_front [OF assms(4,5), of 4 1] peek_front [OF assms(4,5), of 5 1]
    by (auto simp: arp_hdr_wrong_def)
  then obtain w where w: "arp_hdr_wrong p s = Some w" by blast
  show ?thesis
  proof (cases w)
    case True
    then show ?thesis using w arp_good_free [OF assms(1,2)] by (auto simp: etharp_input_def)
  next
    case False
    then have nw: "arp_hdr_wrong p s = Some False" using w by simp
    then obtain pre opcode shw sip dhw dip rest where a: "arp_pbuf pre opcode shw sip dhw dip rest b"
      using arp_pbuf_front [OF assms(4,5)] by blast
    note pk = peek_arp [OF assms(4) a]
    let ?us = "if ip_addr (netif_of env ni) = IPADDR_ANY then False else dip = ip_addr (netif_of env ni)"
    let ?fl = "if ?us then ETHARP_FLAG_TRY_HARD else ETHARP_FLAG_FIND_ONLY"
    have eq: "etharp_input env p (Some ni) s = do {
       (_, s) \<leftarrow> etharp_update_arp_entry env ni sip shw ?fl s;
       op \<leftarrow> peek16 p 6 s;
       s \<leftarrow> (if op = PP_HTONS ARP_REQUEST \<and> ?us then arp_reply env p ni s else Some s);
       free_pbuf p s }" using pk by (simp add: etharp_input_def Let_def)
    have six: "length shw = 6" using a by (simp add: arp_pbuf_def)
    have "\<exists>r u l. etharp_update_arp_entry env ni sip shw ?fl s = Some (r, u) \<and> arp_good P u \<and> keeps P (pheap s) (pheap u) \<and> sent u = sent s @ l"
    proof (cases "unicast env ni sip")
      case True
      from assms(1,3) six True show ?thesis
      proof (cases rule: update_total [where fl = ?fl])
        case none
        then show ?thesis using assms(1) by auto
      next
        case (some i u t)
        have "\<exists>l. sent t = sent s @ l" using some(10) by (cases "arp_q (arp_table u ! i)") (auto simp: goes_out_def)
        then show ?thesis using some(5-7) by blast
      qed
    next
      case False
      then have "etharp_update_arp_entry env ni sip shw ?fl s = Some (ERR_ARG, s)"
        using link_okD(1) [OF assms(3), of ni] by (auto simp: etharp_update_arp_entry_def unicast_def Let_def)
      then show ?thesis using assms(1) by auto
    qed
    then obtain r u l where u: "etharp_update_arp_entry env ni sip shw ?fl s = Some (r, u)" "arp_good P u" "keeps P (pheap s) (pheap u)" "sent u = sent s @ l"
      by blast
    have own: "owns (pheap s) P" using arp_goodD(4) [OF assms(1)] by (rule owns_mono) simp
    have b: "pbufs (pheap u) p = Some b" using keeps_head [OF own assms(2) u(3)] assms(4) by simp
    obtain t l' where t: "do {
       op \<leftarrow> peek16 p 6 u;
       s \<leftarrow> (if op = PP_HTONS ARP_REQUEST \<and> ?us then arp_reply env p ni u else Some u);
       free_pbuf p s } = Some t" "arp_good (P - {p}) t" "keeps (P - {p}) (pheap u) (pheap t)" "sent t = sent u @ l'"
      using input_end [OF u(2) assms(2,3) b a, of ?us ni] by blast
    have "keeps (P - {p}) (pheap s) (pheap t)" using keeps_trans [OF keeps_mono [OF u(3)] t(3)] by simp
    then show ?thesis unfolding eq u(1) using t(1,2,4) u(4) by auto
  qed
qed

section \<open>Packets from the link\<close>

lemma chksum_alignment: "length bs \<le> 65535 \<Longrightarrow> inet_chksum od bs = inet_chksum False bs"
  by (simp add: word_unat_eq_iff unat_inet_chksum)

lemma echo_hdr_alignment: "20 \<le> length hdr \<Longrightarrow> length hdr \<le> 60 \<Longrightarrow> echo_hdr od hdr src dest = echo_hdr False hdr src dest"
  by (simp add: echo_hdr_def Let_def chksum_alignment [of _ od])

lemma front_nth: "k < m \<Longrightarrow> k < n \<Longrightarrow> front m b ! k = front n b ! k"
  by (simp add: front_def)

lemma ip_valid_hdr:
  assumes "ip_valid env ni inp b bs hdr m" "f = front 28 b" "head_ok b" "packet (b # bs)"
  shows "20 \<le> length hdr" "length hdr \<le> 60" "f ! 9 = hdr ! 9" "length m \<le> 65535"
    "word_at f 12 = word_at hdr 12" "word_at f 16 = word_at hdr 16" "is_fragment f = is_fragment hdr"
    "length hdr + length m = unat (pkt_len f)"
    "pkt_len f = pkt_len hdr"
proof -
  let ?n = "unat (hdr_len f)"
  have v: "20 \<le> ?n" "?n \<le> unat (len b)" "hdr = front ?n b" "?n \<le> unat (pkt_len f)" "unat (pkt_len f) \<le> total_len (b # bs)"
    "m = take (unat (pkt_len f) - ?n) (drop ?n (content (b # bs)))"
    using assms(1,2) by (simp_all add: ip_valid_def Let_def)
  have l: "length hdr = ?n" using assms(3) v(2,3) by (auto simp: head_ok_def front_def)
  then show "20 \<le> length hdr" "length hdr \<le> 60" using v(1) hdr_len_small by simp_all
  have k: "f ! k = hdr ! k" if "k < 20" for k using that v(1,3) assms(2) by (simp add: front_nth [of k 28 ?n])
  then show "f ! 9 = hdr ! 9" "word_at f 12 = word_at hdr 12" "word_at f 16 = word_at hdr 16" "is_fragment f = is_fragment hdr"
    "pkt_len f = pkt_len hdr"
    by (simp_all add: word_at_def is_fragment_def pkt_len_def)
  have "length m = unat (pkt_len f) - ?n" using v(4-6) length_content [OF assms(4)] by simp
  then show "length hdr + length m = unat (pkt_len f)" "length m \<le> 65535" using l v(4) unat_u16_less [of "pkt_len f"] by linarith+
qed

text \<open>C32: a ping is answered. For a valid IP packet with an ICMP echo request to one of our addresses, from
  a neighbour that is in the ARP table, and with memory for a copy of it, \<^verbatim>\<open>ip4_input\<close> puts the echo
  reply on the link: the header of the request with the addresses exchanged and a new time to live, the
  message with the type changed, and both checksums right again.\<close>

theorem ping_answered:
  assumes "arp_good P s" "p \<in> P" "link_ok env" "link_mtu env" "packet_at (pheap s) p ((p, b) # xs)" "ip_received env inp b (map snd xs)"
    and "ip_valid env ni inp b (map snd xs) hdr m" "\<not> is_fragment hdr" "hdr ! 9 = IP_PROTO_ICMP"
    and "src = word_at hdr 12" "dest = word_at hdr 16" "\<not> ip4_addr_ismulticast dest" "\<not> ip4_addr_isbroadcast dest (netif_of env ni)"
    and "m ! 0 = ICMP_ECHO" "8 \<le> length m" "inet_chksum False m = 0" "length hdr + 4 \<le> unat (len b)"
    and "can_alloc env (dom (pbufs (pheap s))) (ram_size 16 (pkt_len hdr))"
    and "unicast env inp src" "next_hop (netif_of env inp) src \<noteq> IPADDR_ANY" "resolved (next_hop (netif_of env inp) src) mac s"
  shows "\<exists>t l. ip4_input E env p inp s = Some t \<and> sent t = sent s @ l \<and>
    delivered inp (eth_hdr mac (hwaddr (netif_of env inp)) (lwip_htons ETHTYPE_IP) @ echo_hdr False hdr dest src @ echo_msg m) l \<and>
    inet_chksum False (echo_hdr False hdr dest src) = 0 \<and> inet_chksum False (echo_msg m) = 0"
proof -
  let ?f = "front 28 b"
  have hb: "head_ok b" "packet (b # map snd xs)" using packet_at_Cons [OF assms(5)] assms(6) by (auto simp: ip_received_def)
  note v = ip_valid_hdr [OF assms(7) refl hb]
  have tcp: "?f ! 9 \<noteq> IP_PROTO_TCP" using v(3) assms(9) by (simp add: IP_PROTO_ICMP_def IP_PROTO_TCP_def)
  obtain t where t: "ip4_input E env p inp s = Some t"
    "ip_answered env ni inp src dest hdr m (min (unat (len b)) (unat (pkt_len ?f))) (pkt_len ?f) ?f s t"
    using ip4_input_total [OF assms(1-6) refl _ tcp refl refl, of E] assms(7,8,10,11) v(5-7) by auto
  have "length hdr + 4 \<le> min (unat (len b)) (unat (pkt_len ?f))" using assms(15,17) v(8) by simp
  then obtain od where "ip_goes_out env inp src (echo_hdr od hdr dest src @ echo_msg m) s t"
    using t(2) assms(9,12-16,18) v(9) unfolding ip_answered_def by auto
  then obtain l where l: "sent t = sent s @ l"
    "delivered inp (eth_hdr mac (hwaddr (netif_of env inp)) (lwip_htons ETHTYPE_IP) @ echo_hdr False hdr dest src @ echo_msg m) l"
    using assms(19-21) echo_hdr_alignment [OF v(1,2), of od] unfolding ip_goes_out_def by auto
  have "inet_chksum False (echo_hdr False hdr dest src) = 0" by (rule echo_hdr_verifies [OF v(1,2)])
  moreover have "inet_chksum False (echo_msg m) = 0" by (rule echo_msg_verifies [OF assms(16,15) v(4) assms(14)])
  ultimately show ?thesis using t(1) l by blast
qed

text \<open>
  A frame as the driver hands it over: in pool pbufs, whose memory is larger than all headers together,
  and not longer than what the link carries.
\<close>

definition frame_received :: "link_env \<Rightarrow> nat \<Rightarrow> pbuf \<Rightarrow> pbuf list \<Rightarrow> bool" where
  "frame_received env ni b bs \<longleftrightarrow> packet (b # bs) \<and> no_empty bs \<and> ptype b = PBUF_POOL \<and> ref b = 1 \<and> readable 42 b \<and>
     40 + total_len (b # bs) < 65536 \<and> (mtu (netif_of env ni) = 0 \<or> total_len (b # bs) \<le> unat (mtu (netif_of env ni)) + 14)"

text \<open>What is left of the frame for the layer above: the Ethernet header is skipped.\<close>

definition without_eth :: "u8 \<Rightarrow> pbuf \<Rightarrow> pbuf" where
  "without_eth fl b = b\<lparr>flags := fl, payload := map_option (\<lambda>off. off + 14) (payload b), len := len b - 14, tot_len := tot_len b - 14\<rparr>"

lemma without_eth_ok:
  assumes "frame_received env ni b bs" "head_ok b" "14 < unat (len b)"
  shows "ip_received env ni (without_eth fl b) bs" "head_ok (without_eth fl b)" "front 28 (without_eth fl b) = drop 14 (front 42 b)"
proof -
  obtain off where off: "payload b = Some off" "0 \<le> off" "nat off + unat (len b) \<le> length (area b)" using assms(2) by (auto simp: head_ok_def)
  have r: "packet (b # bs)" "no_empty bs" "ptype b = PBUF_POOL" "ref b = 1" "nat off + 42 \<le> length (area b)" "40 + total_len (b # bs) < 65536"
    "mtu (netif_of env ni) = 0 \<or> total_len (b # bs) \<le> unat (mtu (netif_of env ni)) + 14"
    using assms(1) off(1) by (auto simp: frame_received_def readable_def)
  have tl: "unat (tot_len b) = unat (len b) + total_len bs" using r(1) by simp
  have le: "(14 :: u16) \<le> len b" "(14 :: u16) \<le> tot_len b" using assms(3) tl by (simp_all add: word_le_nat_alt)
  have u: "unat (len b - 14) = unat (len b) - 14" "unat (tot_len b - 14) = unat (tot_len b) - 14"
    using le by (simp_all add: unat_sub)
  have n: "nat (off + 14) = nat off + 14" using off(2) by simp
  show hok: "head_ok (without_eth fl b)" using off assms(3) u(1) n by (auto simp: head_ok_def without_eth_def)
  then have "payload_ok (without_eth fl b)" by (auto simp: head_ok_def payload_ok_def)
  then have "packet (without_eth fl b # bs)" using r(1) u tl assms(3) by (simp add: without_eth_def)
  moreover have "readable 28 (without_eth fl b)" using off(1,2) r(5) n by (auto simp: readable_def without_eth_def)
  ultimately show "ip_received env ni (without_eth fl b) bs" using r u assms(3) by (auto simp: ip_received_def without_eth_def)
  show "front 28 (without_eth fl b) = drop 14 (front 42 b)" using off(1) n by (simp add: front_def without_eth_def drop_take add.commute)
qed

lemma strip_eth:
  assumes "pbufs h p = Some b" "head_ok b" "ptype b = PBUF_POOL" "14 < unat (len b)"
  shows "pbuf_header (Some p) (- int SIZEOF_ETH_HDR) (put p (b\<lparr>flags := fl\<rparr>) h) = Some (0, put p (without_eth fl b) h)"
proof -
  obtain off where off: "payload b = Some off" "0 \<le> off" using assms(2) by (auto simp: head_ok_def)
  have "(14 :: int) \<le> uint (len b)" using assms(4) by (metis int_nat_eq less_imp_le of_nat_le_iff of_nat_numeral uint_nat)
  then show ?thesis using off assms(3) by (simp add: pbuf_header_def pbuf_header_impl_def SIZEOF_ETH_HDR_def Let_def without_eth_def)
qed

text \<open>The handler that a frame is passed to keeps the stack well formed.\<close>

definition handled :: "nat set \<Rightarrow> nat \<Rightarrow> 'a ip_scheme \<Rightarrow> 'a ip_scheme option \<Rightarrow> bool" where
  "handled P p s r \<longleftrightarrow> (\<exists>t l. r = Some t \<and> arp_good (P - {p}) t \<and> keeps (P - {p}) (pheap s) (pheap t) \<and> sent t = sent s @ l)"

lemma handled_free: "arp_good P s \<Longrightarrow> p \<in> P \<Longrightarrow> handled P p s (free_pbuf p s)"
  using arp_good_free [of P s p] by (fastforce simp: handled_def)

lemma handled_trans:
  assumes "handled P p t r" "keeps (P - {p}) (pheap s) (pheap t)" "sent t = sent s"
  shows "handled P p s r"
  using assms keeps_trans unfolding handled_def by metis

lemma pass_up_handled:
  assumes "arp_good P s" "p \<in> P" "packet_at (pheap s) p ((p, b) # xs)" "frame_received env ni b (map snd xs)" "14 < unat (len b)"
    and acc: "\<And>c t. c = without_eth fl b \<Longrightarrow> arp_good P t \<Longrightarrow> packet_at (pheap t) p ((p, c) # xs) \<Longrightarrow> handled P p t (accept t)"
  shows "handled P p s (pass_up env p ni accept (s\<lparr>pheap := put p (b\<lparr>flags := fl\<rparr>) (pheap s)\<rparr>))"
proof -
  have b: "pbufs (pheap s) p = Some b" "head_ok b" using packet_at_Cons [OF assms(3)] by auto
  have r: "ptype b = PBUF_POOL" "ref b = 1" using assms(4) by (simp_all add: frame_received_def)
  let ?c = "without_eth fl b"
  let ?s = "s\<lparr>pheap := put p (b\<lparr>flags := fl\<rparr>) (pheap s)\<rparr>" and ?t = "s\<lparr>pheap := put p ?c (pheap s)\<rparr>"
  have ok: "head_ok (b\<lparr>flags := fl\<rparr>)" "pnext ?c = pnext b" "ref ?c = 1" using b(2) r(2) by (auto simp: head_ok_def without_eth_def)
  note g1 = arp_good_put [OF assms(1-3) _ _ ok(1), of ?s, simplified]
  note g2 = arp_good_put [OF assms(1-3) ok(2) _ without_eth_ok(2) [OF assms(4) b(2) assms(5)], of ?t, simplified]
  show ?thesis
  proof (cases "netif_flags (netif_of env ni) AND NETIF_FLAG_ETHARP = 0")
    case True
    then show ?thesis using handled_trans [OF handled_free [of P ?s p]] g1 r(2) assms(2) by (simp add: pass_up_def)
  next
    case False
    then have "pass_up env p ni accept ?s = accept ?t"
      using assms(5) strip_eth [OF b r(1) assms(5)] by (simp add: pass_up_def SIZEOF_ETH_HDR_def)
    moreover have "handled P p ?t (accept ?t)" using acc [OF refl] g2 ok(3) by simp
    ultimately show ?thesis using handled_trans [of P p ?t] g2(3) ok(3) by simp
  qed
qed

text \<open>C31: no frame that does not ask for TCP or for reassembly can stop the stack. Whatever bytes the driver
  hands to \<^verbatim>\<open>ethernet_input\<close> in pool pbufs, ARP, ICMP, an unknown protocol or a malformed header, the call
  ends, without a failed assertion and without an access outside a pbuf. The ARP table and the packets
  queued in it stay well formed, every other packet is kept, and what was handed to the driver before
  stays first.\<close>

theorem frame_input_safe:
  fixes b :: pbuf
  defines "f \<equiv> front 42 b"
  assumes "arp_good P s" "p \<in> P" "link_ok env" "link_mtu env" "packet_at (pheap s) p ((p, b) # xs)" "frame_received env inp b (map snd xs)"
    and "le16_of_bytes (f ! 12) (f ! 13) = PP_HTONS ETHTYPE_IP \<longrightarrow> \<not> is_fragment (drop 14 f) \<and> f ! 23 \<noteq> IP_PROTO_TCP"
  shows "\<exists>r t l. ethernet_input (ip4_input E env) env p inp s = Some (r, t) \<and> arp_good (P - {p}) t \<and>
    keeps (P - {p}) (pheap s) (pheap t) \<and> sent t = sent s @ l"
proof -
  have b: "pbufs (pheap s) p = Some b" "head_ok b" using packet_at_Cons [OF assms(6)] by auto
  have r: "readable 42 b" using assms(7) by (simp add: frame_received_def)
  note free = handled_free [OF _ assms(3)]
  have "\<exists>q. ethernet_input (ip4_input E env) env p inp s = do { s \<leftarrow> q; Some (ERR_OK, s) } \<and> handled P p s q"
  proof (cases "unat (len b) \<le> 14")
    case True
    then show ?thesis using b(1) free [OF assms(2)] by (auto simp: ethernet_input_def SIZEOF_ETH_HDR_def)
  next
    case False
    then have len: "14 < unat (len b)" by simp
    let ?ty = "le16_of_bytes (f ! 12) (f ! 13)"
    have ty: "peek16 p 12 s = Some ?ty" using peek16_front [OF b(1) r, of 12] by (simp add: f_def)
    obtain dst where dst: "peek_at p 0 6 s = Some dst" using peek_front [OF b(1) r, of 0 6] by simp
    let ?fl = "flags b OR link_flags dst"
    let ?s = "s\<lparr>pheap := put p (b\<lparr>flags := ?fl\<rparr>) (pheap s)\<rparr>" and ?c = "without_eth ?fl b"
    note w = without_eth_ok [OF assms(7) b(2) len, of ?fl]
    have "length (front 42 b) = 42" by (rule length_front [OF r])
    then have nine: "front 28 ?c ! 9 = front 42 b ! 23" unfolding w(3) by simp
    have ip: "handled P p t (ip4_input E env p inp t)" if "?ty = PP_HTONS ETHTYPE_IP" "arp_good P t" "packet_at (pheap t) p ((p, ?c) # xs)" for t
      using ip4_input_total [OF that(2) assms(3-5) that(3) w(1) refl _ _ refl refl, of E] assms(8) that(1) nine w(3) by (auto simp: handled_def f_def)
    have arp: "handled P p t (etharp_input env p (Some inp) t)" if "arp_good P t" "packet_at (pheap t) p ((p, ?c) # xs)" for t
      using etharp_input_total [OF that(1) assms(3,4), of ?c inp] packet_at_Cons [OF that(2)] w(1) by (auto simp: handled_def ip_received_def)
    have drop: "handled P p s (free_pbuf p ?s)"
    proof -
      have ok: "head_ok (b\<lparr>flags := ?fl\<rparr>)" "0 < ref b" using b(2) assms(7) by (auto simp: head_ok_def frame_received_def)
      note g = arp_good_put [OF assms(2,3,6) _ _ ok(1), of ?s, simplified, OF ok(2)]
      show ?thesis using handled_trans [OF free [OF g(1)]] g(3) by simp
    qed
    let ?q = "if ?ty = PP_HTONS ETHTYPE_IP then pass_up env p inp (ip4_input E env p inp) ?s
      else if ?ty = PP_HTONS ETHTYPE_ARP then pass_up env p inp (etharp_input env p (Some inp)) ?s else free_pbuf p ?s"
    have "ethernet_input (ip4_input E env) env p inp s = do { s \<leftarrow> ?q; Some (ERR_OK, s) }"
      using b(1) len ty dst by (simp add: ethernet_input_def SIZEOF_ETH_HDR_def Let_def)
    moreover have "handled P p s (pass_up env p inp (ip4_input E env p inp) ?s)" if "?ty = PP_HTONS ETHTYPE_IP"
      by (rule pass_up_handled [OF assms(2,3,6,7) len]) (use that ip in blast)
    moreover have "handled P p s (pass_up env p inp (etharp_input env p (Some inp)) ?s)"
      by (rule pass_up_handled [OF assms(2,3,6,7) len]) (use arp in blast)
    ultimately have "ethernet_input (ip4_input E env) env p inp s = do { s \<leftarrow> ?q; Some (ERR_OK, s) } \<and> handled P p s ?q"
      using drop by simp
    then show ?thesis by blast
  qed
  then show ?thesis by (auto simp: handled_def)
qed

section \<open>An example\<close>

text \<open>A link with an interface that is up, and a pool pbuf with a frame from 10.0.0.7, a neighbour in the
  ARP table. The IP packet carries the protocol \<open>pr\<close>.\<close>

definition ping_netif :: netif where
  "ping_netif = example_netif\<lparr>netif_flags := 0x0f\<rparr>"

definition ping_env :: link_env where
  "ping_env = example_lan\<lparr>netif_of := \<lambda>_. ping_netif\<rparr>"

definition ping_msg :: bytes where
  "ping_msg = [8, 0, 0x33, 0x9a, 0, 1, 0, 2, 97, 98, 99]"

definition ping_hdr :: "u8 \<Rightarrow> bytes" where
  "ping_hdr pr = ip_header 0 (lwip_htons 31) (lwip_htons 5) 0 64 pr
     (ip_hdr_chksum 0 64 pr (lwip_htons 31) (lwip_htons 5) (IP4_ADDR 10 0 0 7) (IP4_ADDR 10 0 0 1)) (IP4_ADDR 10 0 0 7) (IP4_ADDR 10 0 0 1)"

definition ping_frame :: "u8 \<Rightarrow> pbuf" where
  "ping_frame pr = example_pbuf None 45 (eth_hdr (hwaddr example_netif) example_mac (lwip_htons ETHTYPE_IP) @ ping_hdr pr @ ping_msg)"

definition ping_table :: "etharp_entry list" where
  "ping_table = \<lparr>arp_q = None, arp_ip = IP4_ADDR 10 0 0 7, arp_netif = Some 0, ethaddr = example_mac, ctime = 0,
     arp_state = ETHARP_STATE_STABLE\<rparr> # replicate (ARP_TABLE_SIZE - 1) empty_entry"

definition ping_state :: "pbuf \<Rightarrow> ip" where
  "ping_state b = \<lparr>arp_table = ping_table, etharp_cached_entry = 0, pheap = put 20 b example_heap, sent = [], ip_id = 0, current_netif = None,
     current_input_netif = None, current_ip4_header = None, current_ip_header_tot_len = 0, current_iphdr_src = 0, current_iphdr_dest = 0\<rparr>"

definition ping_stack :: "ip ip_env" where
  "ping_stack = \<lparr>tcp_input = \<lambda>p ni s. free_pbuf p s, ip4_reass = \<lambda>p s. Some (Some p, s), ip4_frag = \<lambda>p ni d s. Some (ERR_OK, s),
     odd_at = \<lambda>_. False\<rparr>"


lemma ping_env_ok: "link_ok ping_env" "link_mtu ping_env" "can_alloc ping_env (dom (pbufs (pheap (ping_state b)))) n"
proof -
  show "link_ok ping_env"
    by (auto simp: link_ok_def ping_env_def ping_netif_def example_lan_def example_netif_def ETH_HWADDR_LEN_def find_Some_iff)
  show "link_mtu ping_env" by (simp add: link_mtu_def ping_env_def ping_netif_def example_netif_def)
  have "pbufs h 100 = None" if "dom (pbufs h) \<subseteq> dom (pbufs (pheap (ping_state b)))" for h
  proof -
    have "pbufs (pheap (ping_state b)) 100 = None" by (simp add: ping_state_def example_heap_def)
    then show ?thesis using that by (auto simp: dom_def)
  qed
  then show "can_alloc ping_env (dom (pbufs (pheap (ping_state b)))) n"
    by (auto simp: can_alloc_def ping_env_def example_lan_def upt_conv_Cons)
qed

lemma length_ping [simp]: "length (ping_hdr pr) = 20" "length ping_msg = 11"
  by (simp_all add: ping_hdr_def ping_msg_def)

lemma ping_frame_ok: "head_ok (ping_frame pr)" "frame_received ping_env 0 (ping_frame pr) []" "len (ping_frame pr) = 45"
    "pnext (ping_frame pr) = None" "ref (ping_frame pr) = 1"
proof -
  have l: "length (eth_hdr (hwaddr example_netif) example_mac (lwip_htons ETHTYPE_IP)) = 14"
    by (rule length_eth_hdr) (simp_all add: example_netif_def example_mac_def)
  show "head_ok (ping_frame pr)" "len (ping_frame pr) = 45" "pnext (ping_frame pr) = None" "ref (ping_frame pr) = 1"
    using l by (simp_all add: ping_frame_def example_pbuf_def head_ok_def)
  show "frame_received ping_env 0 (ping_frame pr) []"
    using l by (simp add: ping_frame_def example_pbuf_def frame_received_def no_empty_def readable_def payload_ok_def ping_env_def ping_netif_def
        example_netif_def)
qed

text \<open>The same pbuf without the Ethernet header.\<close>

abbreviation ping_packet :: "u8 \<Rightarrow> pbuf" where
  "ping_packet pr \<equiv> without_eth 0 (ping_frame pr)"

lemma ping_packet_ok: "head_ok (ping_packet pr)" "ip_received ping_env 0 (ping_packet pr) []" "pnext (ping_packet pr) = None" "ref (ping_packet pr) = 1"
  using without_eth_ok [OF ping_frame_ok(2,1), of pr 0] ping_frame_ok(3-5) by (simp_all add: without_eth_def)

lemma ping_table_ok: "table_ok ping_table" "length ping_table = ARP_TABLE_SIZE" "e \<in> set ping_table \<Longrightarrow> arp_q e = None"
    "resolved (IP4_ADDR 10 0 0 7) example_mac (ping_state b)"
proof -
  have t: "ping_table = \<lparr>arp_q = None, arp_ip = IP4_ADDR 10 0 0 7, arp_netif = Some 0, ethaddr = example_mac, ctime = 0,
     arp_state = ETHARP_STATE_STABLE\<rparr> # replicate 9 empty_entry" by (simp add: ping_table_def ARP_TABLE_SIZE_def)
  show "table_ok ping_table"
    by (auto simp: t table_ok_def unique_ips_def entry_ok_def example_mac_def empty_entry_def ethzero_def ARP_TABLE_SIZE_def occupied_def ARP_MAXAGE_def ARP_MAXPENDING_def nth_Cons'
        split: if_splits)
  show "length ping_table = ARP_TABLE_SIZE" by (simp add: t ARP_TABLE_SIZE_def)
  show "e \<in> set ping_table \<Longrightarrow> arp_q e = None" by (auto simp: t empty_entry_def split: if_splits)
  show "resolved (IP4_ADDR 10 0 0 7) example_mac (ping_state b)" by (simp add: resolved_def ping_state_def t)
qed

lemma ping_state_good:
  assumes "head_ok b" "pnext b = None" "ref b = 1"
  shows "arp_good {20} (ping_state b)" "packet_at (pheap (ping_state b)) 20 [(20, b)]"
proof -
  have "owns example_heap {}" by (simp add: owns_def)
  note new = owns_new [OF this, of 20 b]
  have "pbufs example_heap 20 = None" by (simp add: example_heap_def)
  note new = new [OF this assms(2) _ assms(1)]
  have q: "queues (arp_table (ping_state b)) = {}" "queues_distinct (arp_table (ping_state b))"
    using ping_table_ok(3) by (auto simp: queues_def queues_distinct_def ping_state_def)
  have "arp_inv (ping_state b)" using ping_table_ok(1,2) by (simp add: arp_inv_def ping_state_def ARP_TABLE_SIZE_def)
  then show "arp_good {20} (ping_state b)" using q new(3) assms(3) by (simp add: arp_good_def ping_state_def)
  show "packet_at (pheap (ping_state b)) 20 [(20, b)]" using new(4) assms(3) by (simp add: ping_state_def)
qed

theorem frame_input_safe_witness:
  "\<exists>r t. ethernet_input (ip4_input ping_stack ping_env) ping_env 20 0 (ping_state (ping_frame 17)) = Some (r, t)"
proof -
  let ?f = "front 42 (ping_frame 17)"
  have "\<not> is_fragment (drop 14 ?f)" "?f ! 23 = 17" by code_simp+
  moreover have "(17 :: u8) \<noteq> IP_PROTO_TCP" by (simp add: IP_PROTO_TCP_def)
  moreover note g = ping_state_good [OF ping_frame_ok(1,4,5), of 17]
  ultimately show ?thesis
    using frame_input_safe [OF g(1) _ ping_env_ok(1,2) g(2), of 0 ping_stack] ping_frame_ok(2) by auto
qed

theorem ping_answered_witness:
  "\<exists>t l. ip4_input ping_stack ping_env 20 0 (ping_state (ping_packet IP_PROTO_ICMP)) = Some t \<and> sent t = l \<and>
    delivered 0 (eth_hdr example_mac (hwaddr ping_netif) (lwip_htons ETHTYPE_IP) @
      echo_hdr False (ping_hdr IP_PROTO_ICMP) (IP4_ADDR 10 0 0 1) (IP4_ADDR 10 0 0 7) @ echo_msg ping_msg) l"
proof -
  let ?hdr = "ping_hdr IP_PROTO_ICMP" and ?b = "ping_packet IP_PROTO_ICMP"
  have v: "ip_valid ping_env 0 0 ?b (map snd []) ?hdr ping_msg" by code_simp
  have h: "\<not> is_fragment ?hdr" "?hdr ! 9 = IP_PROTO_ICMP" "IP4_ADDR 10 0 0 7 = word_at ?hdr 12" "IP4_ADDR 10 0 0 1 = word_at ?hdr 16"
    by code_simp+
  have d: "\<not> ip4_addr_ismulticast (IP4_ADDR 10 0 0 1)" "\<not> ip4_addr_isbroadcast (IP4_ADDR 10 0 0 1) (netif_of ping_env 0)" by code_simp+
  have m: "ping_msg ! 0 = ICMP_ECHO" "8 \<le> length ping_msg" "inet_chksum False ping_msg = 0" "length ?hdr + 4 \<le> unat (len ?b)" by code_simp+
  have n: "unicast ping_env 0 (IP4_ADDR 10 0 0 7)" "next_hop (netif_of ping_env 0) (IP4_ADDR 10 0 0 7) = IP4_ADDR 10 0 0 7"
    "IP4_ADDR 10 0 0 7 \<noteq> IPADDR_ANY" by code_simp+
  note g = ping_state_good [OF ping_packet_ok(1,3,4), of IP_PROTO_ICMP]
  have s: "sent (ping_state (ping_packet IP_PROTO_ICMP)) = []" "netif_of ping_env 0 = ping_netif" by (simp_all add: ping_state_def ping_env_def)
  show ?thesis
    using ping_answered [OF g(1) _ ping_env_ok(1,2) g(2) _ v h d m ping_env_ok(3) n(1), of example_mac ping_stack]
      n(2,3) ping_table_ok(4) ping_packet_ok(2) s by auto
qed

end
