(* ===== verification/Spec2Isabelle.thy ===== *)
theory Spec2Isabelle
  imports Client KernelModule Lwip_Def Pbuf InetChksum Ip4Addr TcpApi TcpRaw Timeouts MemHeap Memp LinkInput
begin

text \<open>
  Verification of Deep-Forensics, a tool that shows the physical memory of a remote machine.

  \<^bold>\<open>The program.\<close> Three programs work together. The client (\<^verbatim>\<open>src/client_dir\<close>) reads commands such as
  \<^verbatim>\<open>d -a 0x1000 -l 256\<close>, sends an 8-byte request over TCP and prints the answer. The server
  (\<^verbatim>\<open>src/server_dir/minimal\<close>) runs on top of the lwIP TCP/IP stack (\<^verbatim>\<open>src/server_dir/lwip\<close>, with
  the Unix port in \<^verbatim>\<open>src/server_dir/port\<close>), turns a request into a text message and sends it over a
  netlink socket to the kernel module (\<^verbatim>\<open>src/kernel_dir\<close>), which copies physical memory into its
  answer. The server puts these bytes into the packet that carried the request and sends it back.

  \<^bold>\<open>Conventions.\<close> A C struct is a record, a pointer an address in a store (\<open>None\<close> is NULL), a machine
  integer a word of its width, a byte buffer a list of 8-bit words. An operation returns \<open>None\<close> when
  the program aborts: a failed \<^verbatim>\<open>LWIP_ASSERT\<close> or \<^verbatim>\<open>LWIP_ERROR\<close> (both abort in this build), an
  access through NULL, to released memory or outside an array, or a loop that does not end (loops
  over linked structures are partial functions in the option monad, so a theorem that gives a result
  shows that they end); the session of the client is the list of what it did, a crash its last
  element. The configuration is the one of \<^verbatim>\<open>minimal/lwipopts.h\<close> with the defaults of
  \<^verbatim>\<open>opt.h\<close> and the flags of the Makefile: one thread (\<^verbatim>\<open>NO_SYS\<close>), IPv4 with TCP and ICMP only, 16-bit
  \<^verbatim>\<open>mem_size_t\<close>, little-endian host. Debug output and statistics are left out.

  \<^bold>\<open>The theories.\<close>

  \<^item> \<open>Prelude\<close>: types, error codes, assertions, little-endian words. \<open>CLib\<close>: the functions of the C
    library the programs use (\<^verbatim>\<open>strtok\<close>, \<^verbatim>\<open>strtol\<close>, \<^verbatim>\<open>sscanf\<close>, \<^verbatim>\<open>sprintf\<close>).

  \<^item> \<open>Client\<close> (\<^verbatim>\<open>client.c\<close>, \<^verbatim>\<open>utilities.h\<close>): the parser of the command line, the dump printer and the
    main loop against a network given as a function. Shown: exactly which lines are dump requests and
    which crash the parser, that only valid requests are sent in any session, also one that crashes
    later, that the printer ends and what it prints.

  \<^item> \<open>KernelModule\<close> (\<^verbatim>\<open>kernel_module.c\<close>): the netlink handler over a physical memory given as a partial
    function. Shown: the answer is the requested memory within the limits; the limit does not hold for
    addresses above \<^verbatim>\<open>0x7fffffff\<close>.

  \<^item> \<open>TcpRaw\<close> (\<^verbatim>\<open>tcp_raw.c\<close>): the callbacks of the server over the stores of pbufs, control blocks and
    connection structures; the netlink exchange and the TCP functions that send or close are
    parameters with stated laws. Shown: what a request is answered with, when the server crashes, that
    no callback ever sees a released structure, and the refinement of an abstract connection table.
    \<open>TcpApi\<close> (\<^verbatim>\<open>tcp.c\<close>, \<^verbatim>\<open>tcp_priv.h\<close>): the registration of callbacks, the receive window.

  \<^item> \<open>Lwip_Def\<close> (\<^verbatim>\<open>def.c\<close>), \<open>Ip4Addr\<close> (\<^verbatim>\<open>ip4_addr.c\<close>), \<open>InetChksum\<close> (\<^verbatim>\<open>inet_chksum.c\<close>): byte order, strings,
    addresses and their text, and the Internet checksum; the three checksum algorithms agree and a
    chain of pbufs has the checksum of its content.

  \<^item> \<open>Pbuf\<close> (\<^verbatim>\<open>pbuf.c\<close>): packet buffers as chains in a store, with reference counts and pools. Shown: the
    effect of every operation on the content of a packet and on the rest of the store.

  \<^item> \<open>Allocator\<close>: the interface of a memory allocator as a locale, with the safety of every client that
    gives back only what it owns. \<open>MemHeap\<close> (\<^verbatim>\<open>mem.c\<close>) and \<open>Memp\<close> (\<^verbatim>\<open>memp.c\<close>) interpret it: the
    first-fit heap with its doubly linked list, and the pools with their free lists.

  \<^item> \<open>Timeouts\<close> (\<^verbatim>\<open>timeouts.c\<close>): the list of timers with relative times. The clock is the sequence of
    the values that the calls of \<^verbatim>\<open>sys_now\<close> return, so time passes while handlers run. Shown: the check
    of the main loop returns after a bounded number of handlers, the pool of timers never runs out,
    and when timers are due.

  \<^item> \<open>Ethernet\<close>, \<open>Etharp\<close> (\<^verbatim>\<open>ethernet.c\<close>, \<^verbatim>\<open>etharp.c\<close>): frames and the ARP cache, over the pbuf store and a
    log of the frames handed to the driver; \<^verbatim>\<open>ethernet_input\<close> takes the handler of IP packets as an
    argument. Shown: the invariant of the table in every reachable state. \<open>Packets\<close>: packets that are
    owned separately, and what sending, freeing and copying do to the others. \<open>Resolve\<close>: lookup,
    learning, waiting packets and expiry; a packet that waits for an address is sent when it is
    learned. \<open>LinkOutput\<close>: \<^verbatim>\<open>etharp_output\<close> always ends and sends to known neighbours.

  \<^item> \<open>Ip4\<close>, \<open>Ip4Input\<close> (\<^verbatim>\<open>ip4.c\<close>) and \<open>Icmp\<close> (\<^verbatim>\<open>icmp.c\<close>): routing, output with the header and its
    checksum, input up to the protocols, echo replies and error messages. \<^verbatim>\<open>tcp_input\<close>, \<^verbatim>\<open>ip4_reass\<close> and
    \<^verbatim>\<open>ip4_frag\<close> are parameters; no law is assumed of them, the theorems are about packets that do not
    reach them. \<open>LinkInput\<close> puts the layers together. Shown: no frame that is not TCP and not a fragment
    can stop the stack, and a ping is answered.

  \<^bold>\<open>Bounds.\<close> No fuel is used. The sizes of tables and pools are those of the configuration.

  \<^bold>\<open>Not modelled.\<close> \<^verbatim>\<open>tcp_in.c\<close>, \<^verbatim>\<open>tcp_out.c\<close>, the connection management of \<^verbatim>\<open>tcp.c\<close> and \<^verbatim>\<open>ip4_frag.c\<close> are
  compiled into the server and appear only as parameters of the parts above; the interfaces of
  \<^verbatim>\<open>netif.c\<close> are a table that does not change. UDP, RAW, DHCP, AUTOIP, IGMP, DNS, IPv6, the socket and netconn APIs and SLIP are
  compiled to nothing in this configuration; PPP, 6LoWPAN, the lwIP applications and the unit tests
  are not part of the program. The drivers of the port and \<^verbatim>\<open>main.c\<close> are system calls and the main
  loop around the parts above.
\<close>

section \<open>The three programs together\<close>

text \<open>
  The kernel module at the other end of the server's netlink socket: the answer to a message is what
  the handler sends back.
\<close>

definition kernel_nl :: "phys_mem \<Rightarrow> u32 \<Rightarrow> bytes \<Rightarrow> nl_outcome" where
  "kernel_nl mem pid msg =
     (case nl_recv_msg mem True True pid msg \<lparr>nl_sk = Some 0, unicasts = []\<rparr> of
        None \<Rightarrow> NL_stop
      | Some k \<Rightarrow> (case unicasts k of [] \<Rightarrow> NL_fail | (_, r) # _ \<Rightarrow> NL_reply r))"

text \<open>
  A segment that carries the bytes \<open>bs\<close>, as the receive callback gets it: one pbuf of the pool with
  the payload after the Ethernet, IP and TCP headers.
\<close>

definition received :: "bytes \<Rightarrow> pbuf" where
  "received bs =
     \<lparr>pnext = None, payload = Some 54, tot_len = of_nat (length bs), len = of_nat (length bs), ptype = PBUF_POOL,
      flags = 0, ref = 1, area = replicate 54 0 @ bs @ replicate (PBUF_POOL_BUFSIZE_ALIGNED - 54 - length bs) 0\<rparr>"

definition deliver :: "nat \<Rightarrow> bytes \<Rightarrow> server \<Rightarrow> server" where
  "deliver q bs s = s\<lparr>heap := put q (received bs) (heap s)\<rparr>"

text \<open>
  The server and the kernel module as the client sees them over a TCP connection that delivers what
  is sent: the bytes that the callback adds to the send queue come back; a crash resets the connection.
\<close>

definition server_net :: "phys_mem \<Rightarrow> u32 \<Rightarrow> tcp_env \<Rightarrow> nat \<Rightarrow> nat \<Rightarrow> nat \<Rightarrow> server \<Rightarrow> network" where
  "server_net mem pid E es tpcb q s = (\<lambda>n bs.
     (case tcp_raw_recv (kernel_nl mem pid) E (Some es) tpcb (Some q) ERR_OK (deliver q bs s) of
        None \<Rightarrow> (True, None)
      | Some (_, s') \<Rightarrow>
          (True, do { c \<leftarrow> pcbs s tpcb; c' \<leftarrow> pcbs s' tpcb; Some (drop (length (snd_queue c)) (snd_queue c')) })))"

text \<open>The server waits for a request on the connection and has room for an answer.\<close>

definition server_ready :: "tcp_env \<Rightarrow> nat \<Rightarrow> nat \<Rightarrow> server \<Rightarrow> bool" where
  "server_ready E es tpcb s \<longleftrightarrow>
     (\<exists>e. ess s es = Some e \<and> state e \<in> {ES_ACCEPTED, ES_RECEIVED} \<and> es_p e = None) \<and>
     (\<exists>c. pcbs s tpcb = Some c \<and> pcb_ok c \<and> MAX_PAYLOAD \<le> unat (snd_buf c)) \<and>
     write_accepts E tpcb \<and> output_keeps E tpcb"

lemma sint_small: "uint w < 2147483648 \<Longrightarrow> sint w = uint w" for w :: u32
proof -
  assume "uint w < 2147483648"
  moreover have "- (2 ^ 31) \<le> uint w" by (rule order_trans [OF _ uint_ge_0]) simp
  ultimately have "signed_take_bit 31 (uint w) = uint w" by (intro signed_take_bit_int_eq_self) simp_all
  then show ?thesis by (simp add: sint_uint)
qed

lemma kernel_nl_request:
  assumes "uint a + uint n \<le> LAST_READABLE_ADDRESS" "unat n \<le> SIZE"
    and mem: "\<And>i. i < unat n \<Longrightarrow> mem (uint a + int i) = Some (f i)"
  shows "kernel_nl mem pid (request_payload a n) = NL_reply (map f [0..<unat n])"
proof -
  have "uint a < 2147483648" "uint n < 2147483648"
    using assms(1) uint_ge_0 [of a] uint_ge_0 [of n] unfolding LAST_READABLE_ADDRESS_def by linarith+
  then have s: "sint a = uint a" "sint n = uint n" by (simp_all add: sint_small)
  have c: "copy_count a n SIZE = unat n"
    using assms(1,2) by (simp add: copy_count_def s)
  obtain rest where p: "request_payload a n = fmt_0x 8 (unat a) @ str '','' @ fmt_0x 8 (unat n) @ 0 # rest"
    by (simp add: request_payload_def Let_def request_text_def)
  have m: "mem (sint a + int i) = Some (f i)" if "i < copy_count a n SIZE" for i using mem that by (simp add: c s)
  show ?thesis using nl_recv_msg_eq [OF p, of mem f pid "\<lparr>nl_sk = Some 0, unicasts = []\<rparr>"] m
    by (simp add: kernel_nl_def c)
qed

lemma request_in_received: "request_in (received (le32_bytes a @ le32_bytes n)) a n"
  by (simp add: request_in_def received_def payload_read_def Let_def le32_bytes_def PBUF_POOL_BUFSIZE_ALIGNED_def)

lemma server_net_request:
  assumes "server_ready E es tpcb s" "uint a + uint n \<le> LAST_READABLE_ADDRESS" "unat n \<le> 256"
    and mem: "\<And>i. i < unat n \<Longrightarrow> mem (uint a + int i) = Some (f i)"
  shows "server_net mem pid E es tpcb q s k (le32_bytes a @ le32_bytes n) = (True, Some (map f [0..<unat n]))"
proof -
  let ?b = "received (le32_bytes a @ le32_bytes n)" and ?r = "map f [0..<unat n]"
  let ?s = "deliver q (le32_bytes a @ le32_bytes n) s"
  obtain e c where e: "ess s es = Some e" "state e \<in> {ES_ACCEPTED, ES_RECEIVED}" "es_p e = None"
    and c: "pcbs s tpcb = Some c" "pcb_ok c" "MAX_PAYLOAD \<le> unat (snd_buf c)"
    and laws: "write_accepts E tpcb" "output_keeps E tpcb"
    using assms(1) by (auto simp: server_ready_def)
  have s: "ess ?s es = Some e" "pcbs ?s tpcb = Some c" "pbufs (heap ?s) q = Some ?b" using e c by (simp_all add: deliver_def)
  have b: "pnext ?b = None" "ref ?b = 1" "nat (the (payload ?b)) + unat n \<le> length (area ?b)"
    using assms(3) by (simp_all add: received_def PBUF_POOL_BUFSIZE_ALIGNED_def le32_bytes_def)
  have n: "unat n \<le> MAX_PAYLOAD" "unat n \<le> unat (snd_buf c)" using assms(3) c(3) by (simp_all add: MAX_PAYLOAD_def)
  have nl: "kernel_nl mem pid (request_payload a n) = NL_reply ?r"
    using assms(2,3) mem by (intro kernel_nl_request) (simp_all add: SIZE_def)
  obtain s' c' where r: "tcp_raw_recv (kernel_nl mem pid) E (Some es) tpcb (Some q) ERR_OK ?s = Some (ERR_OK, s')"
    "pcbs s' tpcb = Some c'" "snd_queue c' = snd_queue c @ take (unat n) (take MAX_PAYLOAD ?r @ drop (length ?r) (request_payload a n))"
    using tcp_raw_recv_request [where nl = "kernel_nl mem pid" and r = ?r, OF s(1) e(2,3) s(3) b(1,2) request_in_received n(1) b(3) nl
        s(2) c(2) n(2) laws] by blast
  have "take (unat n) (take MAX_PAYLOAD ?r @ drop (length ?r) (request_payload a n)) = ?r" using n(1) by simp
  then show ?thesis using r c(1) by (simp add: server_net_def)
qed

text \<open>C1: the three programs together. The user types a line that the client accepts as a dump of
  readable memory below the limit, then \<^verbatim>\<open>exit\<close>. The client sends one request, the server passes it
  to the kernel module and answers with the bytes of physical memory, the client prints exactly
  these bytes (the rest of its buffer is zero) and ends with status 0.\<close>

theorem dump_shows_memory:
  assumes "typed_line l" "parse_input l = Some (MEM_DUMP, r)"
    and "uint (starting_address r) + uint (req_length r) \<le> LAST_READABLE_ADDRESS"
    and "\<And>i. i < unat (req_length r) \<Longrightarrow> mem (uint (starting_address r) + int i) = Some (f i)"
    and "server_ready E es tpcb s"
  shows "\<exists>out. client_loop (server_net mem pid E es tpcb q s) 0 (l @ 10 # str ''exit'' @ [10]) =
      [Prompt, Sent (request_bytes r), Print out, Prompt, Close, Exit_status 0] \<and>
    print_mem r (map f [0..<unat (req_length r)] @ replicate (256 - unat (req_length r)) 0) = Some out"
proof -
  let ?net = "server_net mem pid E es tpcb q s" and ?m = "map f [0..<unat (req_length r)]"
  have len: "req_length r \<le> 256" using parse_input_dump_inv [OF assms(2)] by blast
  then have "unat (req_length r) \<le> 256" by (simp add: word_le_nat_alt)
  then have net: "?net 0 (request_bytes r) = (True, Some ?m)"
    using server_net_request [OF assms(5,3), of mem f pid q 0] assms(4) by (simp add: request_bytes_def)
  obtain out where out: "dump_request ?net 0 r = (True, [Sent (request_bytes r), Print out])"
    "print_mem r (take (unat (req_length r)) ?m @ replicate (256 - length (take (unat (req_length r)) ?m)) 0) = Some out"
    using dump_request_ok [of ?net, OF net len] by blast
  have exit: "typed_line (str ''exit'')" "\<exists>q. parse_input (str ''exit'') = Some (EXIT, q)"
  proof -
    show "typed_line (str ''exit'')" by code_simp
    have "case parse_input (str ''exit'') of Some (EXIT, q) \<Rightarrow> True | _ \<Rightarrow> False" by code_simp
    then show "\<exists>q. parse_input (str ''exit'') = Some (EXIT, q)" by (auto split: option.splits command.splits prod.splits)
  qed
  then have "client_loop ?net 1 (str ''exit'' @ 10 # []) = [Prompt, Close, Exit_status 0]"
    by (subst client_loop_line) auto
  then show ?thesis using out assms(2) by (simp add: client_loop_line [OF assms(1)])
qed

lemma example_ready: "server_ready example_env 5 7 (example_server a n)"
  using example_pcb_ok [of "Some 5"] example_env_laws [of 7]
  by (simp add: server_ready_def example_server_def) (simp add: example_pcb_def TCP_SND_BUF_def TCP_MSS_def MAX_PAYLOAD_def)

theorem dump_shows_memory_witness:
  "\<exists>out. client_loop (server_net (\<lambda>a. Some (word_of_int a)) 1 example_env 5 7 1 (example_server 0 0)) 0
      (str ''d -a 0x10 -l 2'' @ 10 # str ''exit'' @ [10]) =
      [Prompt, Sent [16, 0, 0, 0, 2, 0, 0, 0], Print out, Prompt, Close, Exit_status 0] \<and>
    print_mem \<lparr>starting_address = 16, req_length = 2\<rparr> ([16, 17] @ replicate 254 0) = Some out"
proof -
  let ?r = "\<lparr>starting_address = 16, req_length = 2\<rparr>"
  have l: "typed_line (str ''d -a 0x10 -l 2'')" by code_simp
  have p: "parse_input (str ''d -a 0x10 -l 2'') = Some (MEM_DUMP, ?r)" by code_simp
  have b: "request_bytes ?r = [16, 0, 0, 0, 2, 0, 0, 0]" by code_simp
  have m: "map (\<lambda>i. word_of_int (16 + int i) :: u8) [0..<2] = [16, 17]" by (simp add: numeral_2_eq_2)
  show ?thesis
    using dump_shows_memory [OF l p, of "\<lambda>a. Some (word_of_int a)" "\<lambda>i. word_of_int (16 + int i)" example_env 5 7
        "example_server 0 0" 1 1] example_ready b m
    by (simp add: LAST_READABLE_ADDRESS_def)
qed

end
